(* ===== verification/Prelude.thy ===== *)
theory Prelude
  imports Main "HOL-Library.AList" "HOL-Library.Multiset"
begin

text \<open>
  Shared ground of the development: the result type in which every failing \<open>assert\<close> and every
  undefined behaviour of the C++ code is a value, the character arrays that \<open>memcpy\<close> works on,
  and the lemmas on association lists that the components share.
\<close>

section \<open>Failures as values\<close>

text \<open>
  \<open>Assertion m\<close> is an \<open>assert\<close> that fails (the process aborts); \<open>Undefined m\<close> is an operation
  whose behaviour C++ leaves undefined (an access outside an array, the top of an empty
  priority queue). \<open>Waits m\<close> is a call that does not return from this state: it waits for a
  mutex another thread holds. \<open>Raises m\<close> is an exception of the Python scripts.
\<close>

datatype fault = Assertion string | Undefined string | Waits string | Raises string

type_synonym 'a result = "fault + 'a"

named_theorems fault_simps \<open>how the operations reduce when their checks pass\<close>

section \<open>Character arrays\<close>

text \<open>
  An array object of \<open>extent\<close> characters. A cell that was never written holds None: reading it
  as text is a failure of its own, never an arbitrary character.
\<close>

record char_array =
  extent :: nat
  cell :: "nat \<Rightarrow> char option"

definition new_array :: "nat \<Rightarrow> char_array" where
  "new_array n = \<lparr>extent = n, cell = (\<lambda>_. None)\<rparr>"

definition array_of :: "string \<Rightarrow> char_array" where
  "array_of s = \<lparr>extent = length s, cell = (\<lambda>i. if i < length s then Some (s ! i) else None)\<rparr>"

text \<open>\<open>memcpy(&dst[di], &src[si], n)\<close>, with both ranges checked.\<close>

definition memcpy :: "char_array \<Rightarrow> nat \<Rightarrow> char_array \<Rightarrow> nat \<Rightarrow> nat \<Rightarrow> char_array result" where
  "memcpy dst di src si n =
     (if di + n \<le> extent dst \<and> si + n \<le> extent src
      then Inr (dst\<lparr>cell := (\<lambda>i. if di \<le> i \<and> i < di + n then cell src (si + (i - di))
                              else cell dst i)\<rparr>)
      else Inl (Undefined ''memcpy out of bounds''))"

text \<open>The first \<open>n\<close> characters, where all of them were written.\<close>

definition array_text :: "char_array \<Rightarrow> nat \<Rightarrow> string option" where
  "array_text a n = (if n \<le> extent a then those (map (cell a) [0..<n]) else None)"

lemma new_array_sel [simp]: "extent (new_array n) = n" "cell (new_array n) i = None"
  by (simp_all add: new_array_def)

lemma array_of_sel [simp]:
  "extent (array_of s) = length s"
  "i < length s \<Longrightarrow> cell (array_of s) i = Some (s ! i)"
  by (simp_all add: array_of_def)

lemma memcpy_ok [fault_simps]:
  "di + n \<le> extent dst \<Longrightarrow> si + n \<le> extent src \<Longrightarrow>
   memcpy dst di src si n =
     Inr (dst\<lparr>cell := (\<lambda>i. if di \<le> i \<and> i < di + n then cell src (si + (i - di))
                         else cell dst i)\<rparr>)"
  by (simp add: memcpy_def)

lemma memcpy_extent: "memcpy dst di src si n = Inr a \<Longrightarrow> extent a = extent dst"
  by (auto simp: memcpy_def split: if_splits)

lemma those_map_Some: "(\<And>x. x \<in> set xs \<Longrightarrow> f x = Some (g x)) \<Longrightarrow> those (map f xs) = Some (map g xs)"
  by (induction xs) auto

lemma array_text_eq:
  assumes "length s \<le> extent a" and "\<And>i. i < length s \<Longrightarrow> cell a i = Some (s ! i)"
  shows "array_text a (length s) = Some s"
proof -
  have "those (map (cell a) [0..<length s]) = Some (map ((!) s) [0..<length s])"
    by (rule those_map_Some) (simp add: assms(2))
  with assms(1) show ?thesis by (simp add: array_text_def map_nth)
qed

section \<open>Association lists\<close>

text \<open>
  The code's containers keyed by a thread id (a \<open>std::map\<close>, a vector searched by
  \<open>find_if\<close>) are association lists. A sum over the values follows an update or a deletion.
\<close>

definition alist_sum :: "('v \<Rightarrow> 'm::comm_monoid_add) \<Rightarrow> ('k \<times> 'v) list \<Rightarrow> 'm" where
  "alist_sum f m = sum_list (map (f \<circ> snd) m)"

lemma alist_sum_simps [simp]:
  "alist_sum f [] = 0"
  "alist_sum f (p # m) = f (snd p) + alist_sum f m"
  by (simp_all add: alist_sum_def)

lemma alist_sum_update:
  "map_of m k = Some v \<Longrightarrow> alist_sum f (AList.update k w m) + f v = alist_sum f m + f w"
  by (induction m) (auto simp: ac_simps)

lemma alist_sum_update_new:
  "map_of m k = None \<Longrightarrow> alist_sum f (AList.update k w m) = alist_sum f m + f w"
  by (induction m) (auto simp: ac_simps)

lemma alist_sum_delete:
  "distinct (map fst m) \<Longrightarrow> map_of m k = Some v \<Longrightarrow>
   alist_sum f (AList.delete k m) + f v = alist_sum f m"
proof (induction m)
  case (Cons p m)
  then show ?case
    by (cases "fst p = k") (auto simp: delete_id add.assoc add.commute [of "f v"])
qed simp

lemma length_update: "map_of m k = Some v \<Longrightarrow> length (AList.update k w m) = length m"
  by (induction m) auto

lemma alist_sum_delete_le:
  fixes f :: "'v \<Rightarrow> nat"
  shows "map_of m k = Some v \<Longrightarrow> alist_sum f (AList.delete k m) + f v \<le> alist_sum f m"
proof (induction m)
  case (Cons p m)
  have "alist_sum f (AList.delete k m) \<le> alist_sum f m"
    by (induction m) (auto simp: AList.delete_eq)
  with Cons show ?case by (auto simp: AList.delete_eq split: if_splits)
qed simp

end
