(* ===== verification/Trace_Line.thy ===== *)
theory Trace_Line
  imports Prelude
begin

text \<open>
  Lines of the trace as text: the C library functions \<open>parse_line\<close> of \<open>src/src/merge.cpp\<close> uses
  (\<open>strchr\<close>, \<open>atoll\<close>, \<open>strcmp\<close>), \<open>parse_line\<close> itself (lines 335 to 352), \<open>istream::getline\<close> with its
  limit, and the decimal output of \<open>operator <<\<close> with which the pintool writes the numbers.
\<close>

section \<open>The C library\<close>

abbreviation TAB :: char where "TAB \<equiv> CHR 0x09"
abbreviation NL :: char where "NL \<equiv> CHR 0x0A"
abbreviation NUL :: char where "NUL \<equiv> CHR 0x00"

text \<open>The text of a character buffer ends at the first NUL.\<close>

definition c_string :: "string \<Rightarrow> string" where
  "c_string s = takeWhile (\<lambda>c. c \<noteq> NUL) s"

fun strchr :: "string \<Rightarrow> char \<Rightarrow> nat option" where
  "strchr [] c = None"
| "strchr (x # xs) c = (if x = c then Some 0 else map_option Suc (strchr xs c))"

definition code_of :: "char \<Rightarrow> nat" where
  "code_of c = of_char c"

definition isspace :: "char \<Rightarrow> bool" where
  "isspace c \<longleftrightarrow> c = CHR '' '' \<or> (9 \<le> code_of c \<and> code_of c \<le> 13)"

definition isdigit :: "char \<Rightarrow> bool" where
  "isdigit c \<longleftrightarrow> 48 \<le> code_of c \<and> code_of c \<le> 57"

fun digits_value :: "nat \<Rightarrow> string \<Rightarrow> nat" where
  "digits_value acc [] = acc"
| "digits_value acc (c # cs) =
     (if isdigit c then digits_value (10 * acc + (code_of c - 48)) cs else acc)"

definition int64_range :: "int \<Rightarrow> bool" where
  "int64_range i \<longleftrightarrow> - (2 ^ 63) \<le> i \<and> i < 2 ^ 63"

text \<open>
  \<open>atoll\<close>: blanks, an optional sign, digits; anything after them is ignored. A value outside
  the range of \<open>long long\<close> is undefined behaviour.
\<close>

definition atoll_value :: "string \<Rightarrow> int" where
  "atoll_value s =
     (case dropWhile isspace s of
        [] \<Rightarrow> 0
      | c # cs \<Rightarrow>
          (if c = CHR ''-'' then - int (digits_value 0 cs)
           else if c = CHR ''+'' then int (digits_value 0 cs)
           else int (digits_value 0 (c # cs))))"

definition atoll :: "string \<Rightarrow> int result" where
  "atoll s = (if int64_range (atoll_value s) then Inr (atoll_value s)
              else Inl (Undefined ''atoll out of range''))"

text \<open>
  \<open>std::cin.getline(buf, n)\<close>: the line before the next newline, where it has fewer than \<open>n\<close>
  characters, and the input after the newline. None is the failed state in which the stream
  converts to false: no character left, or a line that does not fit.
\<close>

definition getline :: "nat \<Rightarrow> string \<Rightarrow> (string \<times> string) option" where
  "getline n inp =
     (if inp = [] then None
      else let l = takeWhile (\<lambda>c. c \<noteq> NL) inp
           in if length l < n then Some (l, drop 1 (dropWhile (\<lambda>c. c \<noteq> NL) inp)) else None)"

section \<open>\<open>parse_line\<close>\<close>

record parsed_line =
  pos1 :: nat
  line_time :: int
  line_thread :: int
  is_thread_register :: bool
  is_thread_finish :: bool
  is_sync :: bool

definition parse_line :: "string \<Rightarrow> parsed_line result" where
  "parse_line buf =
     (case strchr buf TAB of
        None \<Rightarrow> Inl (Assertion ''tab1'')
      | Some p1 \<Rightarrow>
        (case strchr (drop (p1 + 1) buf) TAB of
           None \<Rightarrow> Inl (Assertion ''tab2'')
         | Some k \<Rightarrow>
           (let pos2 = p1 + 1 + k in
            case atoll buf of
              Inl f \<Rightarrow> Inl f
            | Inr t \<Rightarrow>
              (case atoll (drop (p1 + 1) buf) of
                 Inl f \<Rightarrow> Inl f
               | Inr tid \<Rightarrow>
                 Inr \<lparr>pos1 = p1, line_time = t, line_thread = tid,
                      is_thread_register = (drop (pos2 + 1) buf = ''tr''),
                      is_thread_finish = (drop (pos2 + 1) buf = ''tf''),
                      is_sync = (drop (pos2 + 1) buf = ''thread_sync'')\<rparr>))))"

section \<open>Decimal output\<close>

definition digit_char :: "nat \<Rightarrow> char" where
  "digit_char d = char_of (48 + d)"

fun show_nat :: "nat \<Rightarrow> string" where
  "show_nat n = (if n < 10 then [digit_char n] else show_nat (n div 10) @ [digit_char (n mod 10)])"

declare show_nat.simps [simp del]

definition show_int :: "int \<Rightarrow> string" where
  "show_int i = (if i < 0 then CHR ''-'' # show_nat (nat (- i)) else show_nat (nat i))"

section \<open>Facts on the library functions\<close>

lemma code_digit_char: "d < 10 \<Longrightarrow> code_of (digit_char d) = 48 + d"
  by (simp add: code_of_def digit_char_def of_char_of)

lemma isdigit_digit_char: "d < 10 \<Longrightarrow> isdigit (digit_char d)"
  by (simp add: isdigit_def code_digit_char)

lemma digits_value_append:
  "\<forall>c \<in> set s. isdigit c \<Longrightarrow> digits_value acc (s @ r) = digits_value (digits_value acc s) r"
  by (induction s arbitrary: acc) auto

lemma show_nat_digits: "\<forall>c \<in> set (show_nat n). isdigit c"
proof (induction n rule: show_nat.induct)
  case (1 n)
  then show ?case by (subst show_nat.simps) (auto simp: isdigit_digit_char)
qed

lemma show_nat_nonempty: "show_nat n \<noteq> []"
  by (subst show_nat.simps) simp

lemma digits_value_show_nat: "digits_value 0 (show_nat n) = n"
proof (induction n rule: show_nat.induct)
  case (1 n)
  show ?case
  proof (cases "n < 10")
    case True
    then show ?thesis
      by (simp add: show_nat.simps [of n] isdigit_digit_char code_digit_char)
  next
    case False
    with 1 show ?thesis
      by (simp add: show_nat.simps [of n] digits_value_append show_nat_digits
          isdigit_digit_char code_digit_char)
  qed
qed

lemma digits_value_stop: "\<not> isdigit c \<Longrightarrow> digits_value acc (c # r) = acc"
  by simp

lemma isdigit_not_space: "isdigit c \<Longrightarrow> \<not> isspace c"
  by (auto simp: isdigit_def isspace_def code_of_def)

lemma isdigit_not_sign: "isdigit c \<Longrightarrow> c \<noteq> CHR ''-'' \<and> c \<noteq> CHR ''+'' \<and> c \<noteq> TAB \<and> c \<noteq> NL \<and> c \<noteq> NUL"
  by (auto simp: isdigit_def code_of_def)

text \<open>A number written by \<open>operator <<\<close> is read back by \<open>atoll\<close>, whatever non-digit follows it.\<close>

lemma atoll_value_show_int:
  assumes "r = [] \<or> \<not> isdigit (hd r)"
  shows "atoll_value (show_int i @ r) = i"
proof -
  have stop: "digits_value acc r = acc" for acc
    using assms by (cases r) auto
  have val: "digits_value 0 (show_nat n @ r) = n" for n
    by (simp add: digits_value_append show_nat_digits digits_value_show_nat stop)
  show ?thesis
  proof (cases "i < 0")
    case True
    then show ?thesis
      by (simp add: atoll_value_def show_int_def val isspace_def code_of_def)
  next
    case False
    obtain c cs where c: "show_nat (nat i) = c # cs"
      using show_nat_nonempty by (metis neq_Nil_conv)
    then have "isdigit c" using show_nat_digits [of "nat i"] by simp
    with False c val [of "nat i"] isdigit_not_sign [of c] isdigit_not_space [of c] show ?thesis
      by (simp add: atoll_value_def show_int_def)
  qed
qed

lemma atoll_show_int:
  "int64_range i \<Longrightarrow> r = [] \<or> \<not> isdigit (hd r) \<Longrightarrow> atoll (show_int i @ r) = Inr i"
  by (simp add: atoll_def atoll_value_show_int)

lemma strchr_append: "c \<notin> set s \<Longrightarrow> strchr (s @ c # r) c = Some (length s)"
  by (induction s) auto

lemma show_int_chars: "c \<in> set (show_int i) \<Longrightarrow> c \<noteq> TAB \<and> c \<noteq> NL \<and> c \<noteq> NUL"
  using show_nat_digits isdigit_not_sign by (fastforce simp: show_int_def split: if_splits)

text \<open>
  A line of the trace: timestamp, thread id and the rest, separated by tabs. \<open>parse_line\<close> finds
  the three parts again.
\<close>

definition trace_line :: "int \<Rightarrow> int \<Rightarrow> string \<Rightarrow> string" where
  "trace_line t tid rest = show_int t @ TAB # show_int tid @ TAB # rest"

lemma parse_trace_line:
  assumes "int64_range t" "int64_range tid"
  shows "parse_line (trace_line t tid rest) =
    Inr \<lparr>pos1 = length (show_int t), line_time = t, line_thread = tid,
         is_thread_register = (rest = ''tr''), is_thread_finish = (rest = ''tf''),
         is_sync = (rest = ''thread_sync'')\<rparr>"
proof -
  have tab: "TAB \<notin> set (show_int i)" for i
    using show_int_chars by blast
  have nd: "\<not> isdigit TAB"
    by (simp add: isdigit_def code_of_def)
  have p1: "strchr (trace_line t tid rest) TAB = Some (length (show_int t))"
    by (simp add: trace_line_def strchr_append tab)
  have d1: "drop (length (show_int t) + 1) (trace_line t tid rest) = show_int tid @ TAB # rest"
    by (simp add: trace_line_def)
  have p2: "strchr (show_int tid @ TAB # rest) TAB = Some (length (show_int tid))"
    by (simp add: strchr_append tab)
  have d2: "drop (length (show_int t) + 1 + length (show_int tid) + 1) (trace_line t tid rest) = rest"
    by (simp add: trace_line_def)
  have a1: "atoll (trace_line t tid rest) = Inr t"
    unfolding trace_line_def using nd by (intro atoll_show_int assms) simp
  have a2: "atoll (show_int tid @ TAB # rest) = Inr tid"
    using nd by (intro atoll_show_int assms) simp
  show ?thesis
    unfolding parse_line_def p1 option.case d1 p2 Let_def a1 a2 sum.case d2 ..
qed

lemma trace_line_chars:
  "NL \<notin> set (trace_line t tid rest) \<longleftrightarrow> NL \<notin> set rest"
  "NUL \<notin> set (trace_line t tid rest) \<longleftrightarrow> NUL \<notin> set rest"
  using show_int_chars [of NL] show_int_chars [of NUL] by (auto simp: trace_line_def)

lemma getline_line:
  "NL \<notin> set l \<Longrightarrow> length l < n \<Longrightarrow> getline n (l @ NL # rest) = Some (l, rest)"
  by (auto simp: getline_def Let_def takeWhile_append dropWhile_append)

lemma getline_too_long:
  "n \<le> length l \<Longrightarrow> NL \<notin> set l \<Longrightarrow> getline n (l @ rest) = None"
  by (auto simp: getline_def Let_def takeWhile_append)

lemma getline_eof: "getline n [] = None"
  by (simp add: getline_def)

lemma length_getline: "getline n inp = Some (l, rest) \<Longrightarrow> length rest < length inp"
proof -
  assume g: "getline n inp = Some (l, rest)"
  then have ne: "inp \<noteq> []" and rest: "rest = drop 1 (dropWhile (\<lambda>c. c \<noteq> NL) inp)"
    by (auto simp: getline_def Let_def split: if_splits)
  have "length (dropWhile (\<lambda>c. c \<noteq> NL) inp) \<le> length inp"
    by (rule length_dropWhile_le)
  with ne rest show ?thesis by (cases inp) auto
qed

end
