(* ===== verification/Address_Locks.thy ===== *)
theory Address_Locks
  imports Prelude "HOL-Library.Word"
begin

unbundle bit_operations_syntax

text \<open>
  Which address locks an access takes: \<open>is_power_2\<close>, \<open>binary_log\<close> and \<open>lock_index\<close> of
  \<open>src/trace/trace.cpp\<close> (lines 374 to 384 and 988 to 998) at their machine widths, and the
  sorted list of indices that \<open>acquire_address_locks\<close> builds (lines 399 to 428). Both signed and
  unsigned 64-bit values are \<open>64 word\<close>; a signed reading is \<open>sint\<close>, an unsigned one \<open>uint\<close>.
\<close>

section \<open>Definitions\<close>

type_synonym u64 = "64 word"

definition is_power_2 :: "u64 \<Rightarrow> bool" where
  "is_power_2 num \<longleftrightarrow> 0 < sint num \<and> \<not> (num AND (num - 1)) \<noteq> 0"

lemma unat_drop_bit_1: "unat (drop_bit 1 (w :: u64)) = unat w div 2"
  unfolding unat_drop_bit_eq by (simp only: drop_bit_eq_div power_one_right)

lemma unat_drop_bit_1_less: "drop_bit 1 (w :: u64) \<noteq> 0 \<Longrightarrow> unat (drop_bit 1 w) < unat w"
proof -
  assume "drop_bit 1 w \<noteq> 0"
  then have "unat (drop_bit 1 w) \<noteq> 0" by (simp only: unat_eq_zero not_False_eq_True)
  then show ?thesis unfolding unat_drop_bit_1 by arith
qed

text \<open>The loop \<open>while (unum >>= 1) ++l\<close>.\<close>

function binary_log_loop :: "u64 \<Rightarrow> u64 \<Rightarrow> u64" where
  "binary_log_loop unum l =
     (let unum' = drop_bit 1 unum in if unum' \<noteq> 0 then binary_log_loop unum' (l + 1) else l)"
  by pat_completeness auto
termination
  by (relation "measure (\<lambda>(u, l). unat u)")
    (auto simp only: in_measure case_prod_conv wf_measure intro: unat_drop_bit_1_less)

declare binary_log_loop.simps [simp del]

definition binary_log :: "u64 \<Rightarrow> u64" where
  "binary_log num = (if sint num \<le> 0 then 0 else binary_log_loop num 0)"

text \<open>
  \<open>lock_index\<close>: the first index, and in \<open>to_lock\<close> the number of locks. The number is an unsigned
  difference stored in a signed variable and compared as a signed one.
\<close>

definition lock_index :: "u64 \<Rightarrow> u64 \<Rightarrow> u64 \<Rightarrow> u64 \<Rightarrow> u64 \<times> u64" where
  "lock_index num_locks block_size_log address sz =
     (let removed_blocks = drop_bit (unat block_size_log) address;
          end_removed_blocks = drop_bit (unat block_size_log) (address + sz - 1);
          number_to_lock = end_removed_blocks - removed_blocks + 1;
          to_lock = (if sint num_locks < sint number_to_lock then num_locks else number_to_lock)
      in (removed_blocks mod num_locks, to_lock))"

text \<open>The loop that pushes \<open>to_lock\<close> consecutive indices, modulo the number of locks.\<close>

fun push_indices :: "int \<Rightarrow> int \<Rightarrow> nat \<Rightarrow> int list" where
  "push_indices nl index 0 = []"
| "push_indices nl index (Suc k) = index # push_indices nl ((index + 1) mod nl) k"

definition access_indices :: "u64 \<Rightarrow> u64 \<Rightarrow> u64 \<Rightarrow> u64 \<Rightarrow> int list" where
  "access_indices num_locks block_size_log address sz =
     (let (index, to_lock) = lock_index num_locks block_size_log address sz
      in push_indices (sint num_locks) (sint index) (nat (sint to_lock)))"

text \<open>\<open>std::sort\<close>, \<open>std::unique\<close> and the \<open>resize\<close> after it.\<close>

definition sort_unique :: "int list \<Rightarrow> int list" where
  "sort_unique is = remdups_adj (sort is)"

section \<open>Powers of two and their logarithm\<close>

lemma unat_two_power: "k < 64 \<Longrightarrow> unat ((2 :: u64) ^ k) = 2 ^ k"
proof -
  assume k: "k < 64"
  have "(2 :: nat) ^ k < 2 ^ 64" using k by (intro power_strict_increasing) simp_all
  moreover have "unat ((2 :: u64) ^ k) = unat (of_nat (2 ^ k) :: u64)" by simp
  ultimately show ?thesis by (simp only: unat_of_nat) (simp add: take_bit_nat_eq_self)
qed

lemma and_pred_nat: "0 < (m :: nat) \<Longrightarrow> m AND (m - 1) = 0 \<longleftrightarrow> (\<exists>k. m = 2 ^ k)"
proof (induction m rule: less_induct)
  case (less m)
  show ?case
  proof (cases "even m")
    case True
    then obtain j where j: "m = 2 * j" by blast
    with less.prems have j0: "0 < j" "j < m" by simp_all
    then have "m - 1 = 2 * (j - 1) + 1" using j by simp
    then have "m AND (m - 1) = 2 * (j AND (j - 1))"
      unfolding j by (subst and_rec) simp
    moreover have "(\<exists>k. m = 2 ^ k) \<longleftrightarrow> (\<exists>k. j = 2 ^ k)"
    proof
      assume "\<exists>k. m = 2 ^ k"
      then obtain k where "m = 2 ^ k" ..
      with True have "k \<noteq> 0" by (metis odd_one power_0)
      with \<open>m = 2 ^ k\<close> j show "\<exists>k. j = 2 ^ k" by (cases k) auto
    next
      assume "\<exists>k. j = 2 ^ k"
      then show "\<exists>k. m = 2 ^ k" using j by (metis power_Suc)
    qed
    ultimately show ?thesis using less.IH [OF j0(2,1)] by simp
  next
    case False
    then obtain j where j: "m = 2 * j + 1" by (metis oddE)
    then have "m AND (m - 1) = 2 * (j AND j)"
      by (subst and_rec) simp
    then have "m AND (m - 1) = 0 \<longleftrightarrow> j = 0" by simp
    moreover have "(\<exists>k. m = 2 ^ k) \<longleftrightarrow> j = 0"
    proof
      assume "\<exists>k. m = 2 ^ k"
      then obtain k where "m = 2 ^ k" ..
      with False have "k = 0" by (cases k) auto
      with \<open>m = 2 ^ k\<close> j show "j = 0" by simp
    qed (use j in \<open>auto intro: exI [of _ 0]\<close>)
    ultimately show ?thesis by simp
  qed
qed

lemma sint_cases: "sint (n :: u64) = (if uint n < 2 ^ 63 then uint n else uint n - 2 ^ 64)"
proof -
  have b: "0 \<le> uint n" "uint n < 2 ^ 64" using uint_lt2p [of n] by simp_all
  have "uint n div 2 ^ 63 = (if uint n < 2 ^ 63 then 0 else 1)"
  proof (cases "uint n < 2 ^ 63")
    case True
    with b show ?thesis by (simp add: div_pos_pos_trivial)
  next
    case False
    with b have "uint n div 2 ^ 63 = 1"
      by (intro int_div_pos_eq [where r = "uint n - 2 ^ 63"]) simp_all
    with False show ?thesis by simp
  qed
  then have "odd (uint n div 2 ^ 63) \<longleftrightarrow> \<not> uint n < 2 ^ 63" by simp
  with b show ?thesis
    by (simp add: sint_uint signed_take_bit_eq_take_bit_minus take_bit_int_eq_self bit_iff_odd)
qed

lemma sint_small: "uint (n :: u64) < 2 ^ 63 \<Longrightarrow> sint n = uint n"
  by (simp add: sint_cases)

lemma sint_pos_iff: "0 < sint (n :: u64) \<longleftrightarrow> 0 < uint n \<and> uint n < 2 ^ 63"
  using uint_lt2p [of n] by (simp add: sint_cases)

text \<open>\<open>is_power_2\<close> accepts exactly the powers of two that a signed 64-bit integer holds.\<close>

lemma is_power_2_iff: "is_power_2 n \<longleftrightarrow> (\<exists>k < 63. n = 2 ^ k)"
proof (cases "0 < uint n \<and> uint n < 2 ^ 63")
  case True
  then have "nat (uint n) < nat (2 ^ 63)" by (subst nat_mono_iff) simp_all
  with True have n: "0 < unat n" "unat n < 2 ^ 63" by (auto simp: unat_gt_0)
  then have "unat (n - 1) = unat n - 1"
    by (simp add: unat_minus_one unat_gt_0)
  then have "n AND (n - 1) = 0 \<longleftrightarrow> unat n AND (unat n - 1) = 0"
    by (metis unat_eq_zero unsigned_and_eq)
  also have "\<dots> \<longleftrightarrow> (\<exists>k. unat n = 2 ^ k)"
    using n(1) by (rule and_pred_nat)
  also have "\<dots> \<longleftrightarrow> (\<exists>k < 63. n = 2 ^ k)"
  proof
    assume "\<exists>k. unat n = 2 ^ k"
    then obtain k where k: "unat n = 2 ^ k" ..
    with n(2) have "k < 63" by (metis one_less_numeral_iff power_less_imp_less_exp semiring_norm(76))
    with k unat_two_power [of k] show "\<exists>k < 63. n = 2 ^ k"
      by (intro exI [of _ k]) (simp add: word_unat_eq_iff)
  next
    assume "\<exists>k < 63. n = 2 ^ k"
    then show "\<exists>k. unat n = 2 ^ k" using unat_two_power by fastforce
  qed
  finally show ?thesis using True by (simp add: is_power_2_def sint_pos_iff)
next
  case False
  have "\<not> (\<exists>k < 63. n = 2 ^ k)"
  proof (intro notI, elim exE conjE)
    fix k :: nat assume "k < 63" "n = 2 ^ k"
    then have "unat n = 2 ^ k" using unat_two_power by simp
    moreover have "(2 :: nat) ^ k < 2 ^ 63"
      using \<open>k < 63\<close> by (intro power_strict_increasing) simp_all
    ultimately have "0 < unat n" "unat n < 2 ^ 63" by simp_all
    then have "int 0 < int (unat n)" "int (unat n) < int (2 ^ 63)"
      by (simp_all only: of_nat_less_iff)
    then show False using False by simp
  qed
  moreover have "\<not> is_power_2 n"
    using False unfolding is_power_2_def sint_pos_iff by blast
  ultimately show ?thesis by blast
qed

text \<open>The loop counts the shifts.\<close>

lemma binary_log_loop_power: "k < 64 \<Longrightarrow> binary_log_loop (2 ^ k) l = l + of_nat k"
proof (induction k arbitrary: l)
  case 0
  have "drop_bit 1 (1 :: u64) = 0" by simp
  then show ?case by (simp add: binary_log_loop.simps [of 1] Let_def)
next
  case (Suc k)
  have "unat (drop_bit 1 ((2 :: u64) ^ Suc k)) = 2 ^ k"
    unfolding unat_drop_bit_1 using Suc.prems by (simp only: unat_two_power) simp
  also have "\<dots> = unat ((2 :: u64) ^ k)"
    using Suc.prems by (simp add: unat_two_power)
  finally have d: "drop_bit 1 ((2 :: u64) ^ Suc k) = 2 ^ k"
    by (simp only: word_unat_eq_iff)
  have nz: "(2 :: u64) ^ k \<noteq> 0"
    using Suc.prems unat_two_power [of k] by (metis Suc_lessD power_not_zero unat_0 zero_neq_numeral)
  show ?case
    using Suc nz by (subst binary_log_loop.simps) (simp only: d Let_def if_True, simp)
qed

lemma binary_log_power:
  assumes "k < 63"
  shows "binary_log (2 ^ k) = of_nat k"
proof -
  have "is_power_2 (2 ^ k)" using assms by (auto simp: is_power_2_iff)
  with assms show ?thesis
    by (simp add: binary_log_def is_power_2_def binary_log_loop_power not_le)
qed

section \<open>The indices of an access\<close>

text \<open>The cache block of a byte, and the index of the lock that covers it.\<close>

definition block_of :: "u64 \<Rightarrow> u64 \<Rightarrow> int" where
  "block_of block_size_log a = uint (drop_bit (unat block_size_log) a)"

definition lock_of :: "u64 \<Rightarrow> u64 \<Rightarrow> u64 \<Rightarrow> int" where
  "lock_of num_locks block_size_log a = block_of block_size_log a mod sint num_locks"

lemma block_of_div: "block_of l a = uint a div 2 ^ unat l"
proof -
  have "take_bit 64 (uint a) = uint a"
    using uint_lt2p [of a] by (simp add: take_bit_int_eq_self)
  then show ?thesis
    unfolding block_of_def unsigned_drop_bit_eq by (simp add: drop_bit_eq_div)
qed

lemma block_of_mono: "uint a \<le> uint b \<Longrightarrow> block_of l a \<le> block_of l b"
  by (simp add: block_of_div zdiv_mono1)

lemma uint_of_int_small: "0 \<le> k \<Longrightarrow> k < 2 ^ 64 \<Longrightarrow> uint (word_of_int k :: u64) = k"
  unfolding uint_word_of_int_eq by (simp add: take_bit_int_eq_self)

lemma push_indices_eq:
  "0 \<le> i \<Longrightarrow> i < nl \<Longrightarrow> push_indices nl i k = map (\<lambda>j. (i + int j) mod nl) [0..<k]"
proof (induction k arbitrary: i)
  case (Suc k)
  have "push_indices nl ((i + 1) mod nl) k = map (\<lambda>j. ((i + 1) mod nl + int j) mod nl) [0..<k]"
    using Suc.prems by (intro Suc.IH) simp_all
  also have "\<dots> = map (\<lambda>j. (i + int (Suc j)) mod nl) [0..<k]"
    by (simp add: mod_add_left_eq add.assoc)
  finally have tail: "push_indices nl ((i + 1) mod nl) k =
      map (\<lambda>j. (i + int j) mod nl) (map Suc [0..<k])"
    by simp
  have "[0..<Suc k] = 0 # map Suc [0..<k]"
    by (simp add: upt_conv_Cons map_Suc_upt del: upt_Suc)
  with tail Suc.prems show ?case by (simp del: upt_Suc map_map)
qed simp

text \<open>Consecutive residues: as many as there are blocks, all of them from the modulus on.\<close>

lemma residues_cover:
  fixes r e nl :: int
  assumes nl: "0 < nl" and re: "r \<le> e" and k: "k = nat (min nl (e - r + 1))"
  shows "(\<lambda>j. (r mod nl + int j) mod nl) ` {0..<k} = (\<lambda>b. b mod nl) ` {r..e}"
proof
  show "(\<lambda>j. (r mod nl + int j) mod nl) ` {0..<k} \<subseteq> (\<lambda>b. b mod nl) ` {r..e}"
  proof
    fix x assume "x \<in> (\<lambda>j. (r mod nl + int j) mod nl) ` {0..<k}"
    then obtain j where j: "j < k" "x = (r + int j) mod nl"
      by (auto simp: mod_add_left_eq)
    with k have "r + int j \<in> {r..e}" by auto
    with j(2) show "x \<in> (\<lambda>b. b mod nl) ` {r..e}" by blast
  qed
next
  show "(\<lambda>b. b mod nl) ` {r..e} \<subseteq> (\<lambda>j. (r mod nl + int j) mod nl) ` {0..<k}"
  proof
    fix x assume "x \<in> (\<lambda>b. b mod nl) ` {r..e}"
    then obtain b where b: "r \<le> b" "b \<le> e" "x = b mod nl" by auto
    define j where "j = nat ((b - r) mod nl)"
    have m: "0 \<le> (b - r) mod nl" "(b - r) mod nl < nl" "(b - r) mod nl \<le> b - r"
      using nl b(1) by (simp_all add: zmod_le_nonneg_dividend)
    then have "j < k" using b k by (simp add: j_def)
    moreover have "(r mod nl + int j) mod nl = x"
      using m b(3) by (simp add: j_def mod_add_eq)
    ultimately show "x \<in> (\<lambda>j. (r mod nl + int j) mod nl) ` {0..<k}" by force
  qed
qed

text \<open>
  An access that has a size and does not run past the end of the address space. The sizes are
  32-bit values (\<open>UINT32\<close>).
\<close>

definition in_range :: "u64 \<Rightarrow> u64 \<Rightarrow> bool" where
  "in_range a sz \<longleftrightarrow> 0 < uint sz \<and> uint sz < 2 ^ 32 \<and> uint a + uint sz \<le> 2 ^ 64"

definition touches :: "u64 \<Rightarrow> u64 \<Rightarrow> u64 \<Rightarrow> bool" where
  "touches a sz b \<longleftrightarrow> uint a \<le> uint b \<and> uint b < uint a + uint sz"

lemma end_address:
  assumes "in_range a sz"
  shows "uint (a + sz - 1) = uint a + uint sz - 1"
proof -
  have "a + sz - 1 = word_of_int (uint a + uint sz - 1)" by simp
  then show ?thesis
    using assms uint_lt2p [of a] uint_ge_0 [of a]
    by (simp only:) (intro uint_of_int_small; auto simp: in_range_def intro: add_nonneg_pos)
qed

lemma lock_index_eq:
  fixes l :: u64
  assumes N: "0 < sint nl" and r: "in_range a sz"
  defines "b \<equiv> block_of l a" and "e \<equiv> block_of l (a + sz - 1)"
  shows "sint (fst (lock_index nl l a sz)) = b mod sint nl"
    "sint (snd (lock_index nl l a sz)) = min (sint nl) (e - b + 1)" "b \<le> e"
proof -
  let ?R = "drop_bit (unat l) a" and ?E = "drop_bit (unat l) (a + sz - 1)"
  have nl: "uint nl = sint nl" "uint nl < 2 ^ 63"
    using N sint_pos_iff [of nl] sint_small [of nl] by auto
  show be: "b \<le> e"
    unfolding b_def e_def using end_address [OF r] r by (intro block_of_mono) (simp add: in_range_def)
  have "e \<le> b + (uint sz - 1)"
  proof -
    have "(uint a + (uint sz - 1)) div 2 ^ unat l \<le> uint a div 2 ^ unat l + (uint sz - 1)"
    proof -
      have "(uint a + (uint sz - 1)) div 2 ^ unat l \<le>
          (uint a + (uint sz - 1) * 2 ^ unat l) div 2 ^ unat l"
        using r by (intro zdiv_mono1) (simp_all add: in_range_def mult_le_cancel_left1)
      then show ?thesis by simp
    qed
    then show ?thesis
      unfolding e_def b_def block_of_div end_address [OF r] by (simp add: add_diff_eq)
  qed
  then have n: "e - b + 1 < 2 ^ 32" using r by (simp add: in_range_def)
  have "?E - ?R + 1 = word_of_int (e - b + 1)"
    unfolding e_def b_def block_of_def by simp
  then have un: "uint (?E - ?R + 1) = e - b + 1"
    using be n by (simp only:) (intro uint_of_int_small; simp)
  then have sn: "sint (?E - ?R + 1) = e - b + 1"
    using n by (subst sint_small) simp_all
  show "sint (snd (lock_index nl l a sz)) = min (sint nl) (e - b + 1)"
    unfolding lock_index_def Let_def snd_conv by (simp only: sn if_distrib [of sint]) (simp add: min_def)
  have "uint (?R mod nl) = b mod uint nl"
    by (simp add: uint_mod_distrib b_def block_of_def)
  moreover have "b mod uint nl < 2 ^ 63"
    using nl(2) pos_mod_bound [of "uint nl" b] N nl(1) by linarith
  ultimately show "sint (fst (lock_index nl l a sz)) = b mod sint nl"
    unfolding lock_index_def Let_def fst_conv using nl(1) by (subst sint_small) simp_all
qed

text \<open>The indices pushed for an access are the locks of exactly the blocks it touches.\<close>

lemma set_access_indices:
  assumes N: "0 < sint nl" and r: "in_range a sz"
  shows "set (access_indices nl l a sz) =
    (\<lambda>b. b mod sint nl) ` {block_of l a..block_of l (a + sz - 1)}"
proof -
  note E = lock_index_eq [OF N r, where l = l]
  have i: "0 \<le> block_of l a mod sint nl" "block_of l a mod sint nl < sint nl"
    using N by simp_all
  have "set (access_indices nl l a sz) =
      (\<lambda>j. (block_of l a mod sint nl + int j) mod sint nl) `
        {0..<nat (min (sint nl) (block_of l (a + sz - 1) - block_of l a + 1))}"
    by (simp add: access_indices_def case_prod_beta E push_indices_eq [OF i])
  also have "\<dots> = (\<lambda>b. b mod sint nl) ` {block_of l a..block_of l (a + sz - 1)}"
    by (rule residues_cover [OF N E(3) refl])
  finally show ?thesis .
qed

lemma length_push_indices: "length (push_indices nl i k) = k"
  by (induction k arbitrary: i) auto

lemma length_access_indices:
  assumes "0 < sint nl" "in_range a sz"
  shows "length (access_indices nl l a sz) =
    nat (min (sint nl) (block_of l (a + sz - 1) - block_of l a + 1))"
  using lock_index_eq(2) [OF assms, of l]
  by (simp add: access_indices_def case_prod_beta length_push_indices)

lemma byte_covered:
  assumes N: "0 < sint nl" and r: "in_range a sz" and t: "touches a sz b"
  shows "lock_of nl l b \<in> set (access_indices nl l a sz)"
proof -
  have "uint b \<le> uint (a + sz - 1)"
    using end_address [OF r] t by (simp add: touches_def)
  then have "block_of l b \<in> {block_of l a..block_of l (a + sz - 1)}"
    using t by (simp add: block_of_mono touches_def)
  then show ?thesis
    unfolding set_access_indices [OF N r] lock_of_def by blast
qed

lemma indices_in_bank:
  assumes "0 < sint nl" "in_range a sz" "i \<in> set (access_indices nl l a sz)"
  shows "0 \<le> i \<and> i < sint nl"
  using assms by (auto simp: set_access_indices)

text \<open>\<open>sort\<close> and \<open>unique\<close> leave a strictly increasing list of the same indices.\<close>

lemma sort_unique_set [simp]: "set (sort_unique is) = set is"
  by (simp add: sort_unique_def)

lemma sort_unique_ascending: "sorted_wrt (<) (sort_unique is)"
proof -
  have "sorted xs \<Longrightarrow> sorted_wrt (<) (remdups_adj xs)" for xs :: "int list"
    by (induction xs rule: remdups_adj.induct) (auto simp: order.strict_iff_order)
  then show ?thesis by (simp add: sort_unique_def)
qed

end
