(* ===== verification/Trace_Event.thy ===== *)
theory Trace_Event
  imports Trace_Line Address_Locks
begin

text \<open>
  The entries of the trace, as the handlers of \<open>src/trace/trace.cpp\<close> write them (lines 188, 538
  to 553, 615 to 622, 657 to 662, 681, 704, 757 and 807): a timestamp, a thread id and the event,
  with the text each one is written as. \<open>parse_line\<close> of the merge program reads the three fields
  and the three kinds it needs back from that text.
\<close>

section \<open>Entries and their text\<close>

text \<open>
  \<open>Memory\<close> carries the first read (address, size), the address of the second read and the write
  (address, size), each where there is one.
\<close>

datatype event =
    Memory "(u64 \<times> u64) option" "u64 option" "(u64 \<times> u64) option"
  | Function_Call string u64 u64 u64 u64
  | Function_Return string u64 u64
  | Change_Roi string
  | Thread_Register
  | Thread_Finish
  | Context_Change
  | Thread_Sync

type_synonym entry = "int \<times> int \<times> event"

definition show_u64 :: "u64 \<Rightarrow> string" where
  "show_u64 w = show_nat (unat w)"

fun event_text :: "event \<Rightarrow> string" where
  "event_text (Memory r r2 w) =
     ''m'' @
     (case r of None \<Rightarrow> []
      | Some (a, n) \<Rightarrow> TAB # ''r'' @ TAB # show_u64 a @ TAB # show_int (sint n)) @
     (case r2 of None \<Rightarrow> [] | Some a \<Rightarrow> TAB # ''r2'' @ TAB # show_u64 a) @
     (case w of None \<Rightarrow> []
      | Some (a, n) \<Rightarrow> TAB # ''w'' @ TAB # show_u64 a @ TAB # show_int (sint n))"
| "event_text (Function_Call name sp a1 a2 a3) =
     ''fc'' @ TAB # name @ TAB # show_u64 sp @ TAB # show_u64 a1 @ TAB # show_u64 a2 @
     TAB # show_u64 a3"
| "event_text (Function_Return name sp v) =
     ''fr'' @ TAB # name @ TAB # show_u64 sp @ TAB # show_u64 v"
| "event_text (Change_Roi change_to) = change_to @ ''_roi''"
| "event_text Thread_Register = ''tr''"
| "event_text Thread_Finish = ''tf''"
| "event_text Context_Change = ''ctxt_change''"
| "event_text Thread_Sync = ''thread_sync''"

definition entry_line :: "entry \<Rightarrow> string" where
  "entry_line e = trace_line (fst e) (fst (snd e)) (event_text (snd (snd e)))"

section \<open>Reading an entry back\<close>

lemma event_text_register: "event_text ev = ''tr'' \<longleftrightarrow> ev = Thread_Register"
  by (cases ev) (auto simp: append_eq_Cons_conv)

lemma event_text_finish: "event_text ev = ''tf'' \<longleftrightarrow> ev = Thread_Finish"
  by (cases ev) (auto simp: append_eq_Cons_conv)

lemma event_text_sync: "event_text ev = ''thread_sync'' \<longleftrightarrow> ev = Thread_Sync"
  by (cases ev) (auto simp: append_eq_Cons_conv)

definition parsed_entry :: "entry \<Rightarrow> parsed_line" where
  "parsed_entry e =
     (case e of (t, tid, ev) \<Rightarrow>
       \<lparr>pos1 = length (show_int t), line_time = t, line_thread = tid,
        is_thread_register = (ev = Thread_Register), is_thread_finish = (ev = Thread_Finish),
        is_sync = (ev = Thread_Sync)\<rparr>)"

lemma parsed_entry_sel [simp]:
  "line_time (parsed_entry (t, tid, ev)) = t"
  "line_thread (parsed_entry (t, tid, ev)) = tid"
  "is_thread_register (parsed_entry (t, tid, ev)) = (ev = Thread_Register)"
  "is_thread_finish (parsed_entry (t, tid, ev)) = (ev = Thread_Finish)"
  "is_sync (parsed_entry (t, tid, ev)) = (ev = Thread_Sync)"
  by (simp_all add: parsed_entry_def)

lemma parse_entry_line:
  "int64_range (fst e) \<Longrightarrow> int64_range (fst (snd e)) \<Longrightarrow>
   parse_line (entry_line e) = Inr (parsed_entry e)"
  by (cases e) (simp add: entry_line_def parse_trace_line parsed_entry_def
      event_text_register event_text_finish event_text_sync)

end
