(* ===== verification/Tracer_State.thy ===== *)
theory Tracer_State
  imports Trace_Event
begin

text \<open>
  The globals and the per-thread data of the pintool \<open>src/trace/trace.cpp\<close> (lines 87 to 168 and
  274 to 309). What comes from Pin and from Boost is an argument of the model: the bimap
  \<open>last_flushed\<close> through its operations \<open>bm\<close>, the thread ids through the arguments of the
  handlers.
\<close>

section \<open>\<open>boost::bimap\<close>\<close>

text \<open>
  \<open>last_flushed\<close> is a \<open>bimap<set_of<int64_t>, multiset_of<int64_t>>\<close> from Pin thread ids to
  timestamps. The code uses \<open>left.insert\<close> (which does nothing where the key is present),
  \<open>left.erase\<close> and the iteration of the right view, in the order of the timestamps.
\<close>

record 'b bimap_ops =
  bm_empty :: 'b
  bm_insert :: "int \<Rightarrow> int \<Rightarrow> 'b \<Rightarrow> 'b"
  bm_erase :: "int \<Rightarrow> 'b \<Rightarrow> 'b"
  bm_right :: "'b \<Rightarrow> (int \<times> int) list"

locale bimap =
  fixes bm :: "'b bimap_ops"
    and left :: "'b \<Rightarrow> int \<Rightarrow> int option"
  assumes left_empty: "left (bm_empty bm) = Map.empty"
    and left_insert: "left (bm_insert bm k v b) =
      (if left b k = None then (left b)(k \<mapsto> v) else left b)"
    and left_erase: "left (bm_erase bm k b) = (left b)(k := None)"
    and right_set: "(v, k) \<in> set (bm_right bm b) \<longleftrightarrow> left b k = Some v"
    and right_sorted: "sorted (map fst (bm_right bm b))"
begin

text \<open>Erase and insert, the code's way to change a value, always stores it.\<close>

lemma left_replace: "left (bm_insert bm k v (bm_erase bm k b)) = (left b)(k \<mapsto> v)"
  by (simp add: left_insert left_erase)

lemma right_nonempty: "left b k = Some v \<Longrightarrow> bm_right bm b \<noteq> []"
  using right_set [of v k b] by auto

lemma right_head_least:
  "bm_right bm b = (v, k) # rest \<Longrightarrow> left b k' = Some v' \<Longrightarrow> v \<le> v'"
  using right_set [of v' k' b] right_sorted [of b] by auto

end

text \<open>One bimap that has these laws: an association list, sorted when the right view is read.\<close>

definition alist_bimap :: "(int \<times> int) list bimap_ops" where
  "alist_bimap =
     \<lparr>bm_empty = [],
      bm_insert = (\<lambda>k v b. if map_of b k = None then (k, v) # b else b),
      bm_erase = AList.delete,
      bm_right = (\<lambda>b. sort_key fst (map (\<lambda>(k, v). (v, k)) (AList.clearjunk b)))\<rparr>"

interpretation alb: bimap alist_bimap map_of
proof unfold_locales
  fix v k :: int and b :: "(int \<times> int) list"
  have "(k, v) \<in> set (AList.clearjunk b) \<longleftrightarrow> map_of (AList.clearjunk b) k = Some v"
    by (simp add: distinct_clearjunk)
  moreover have "(v, k) \<in> (\<lambda>(k, v). (v, k)) ` set (AList.clearjunk b) \<longleftrightarrow>
      (k, v) \<in> set (AList.clearjunk b)"
    by force
  ultimately show "(v, k) \<in> set (bm_right alist_bimap b) \<longleftrightarrow> map_of b k = Some v"
    by (simp add: alist_bimap_def map_of_clearjunk)
next
  fix b :: "(int \<times> int) list"
  show "sorted (map fst (bm_right alist_bimap b))"
    by (simp add: alist_bimap_def)
qed (auto simp: alist_bimap_def delete_conv' fun_eq_iff)

section \<open>Thread data and globals\<close>

record thread_data =
  user_threadid :: int
  event_count :: int
  memory_instruction_count :: int
  index_lock_list :: "int list"
  trace_this_access :: bool
  is_read :: bool
  is_read2 :: bool
  is_write :: bool
  read_size :: u64
  write_size :: u64
  read1_address :: u64
  read2_address :: u64
  write_address :: u64
  max_locked_timestamp :: int
  flush_others :: "int list"
  trace_stream :: "entry list"
  buffered_entries :: int
  lamport_timestamp :: int

text \<open>
  The constructor sets some members; the others keep whatever the memory held (\<open>g\<close>): the
  handlers set them before they read them.
\<close>

definition new_thread_data :: "thread_data \<Rightarrow> thread_data" where
  "new_thread_data g =
     g\<lparr>user_threadid := -1, event_count := 0, memory_instruction_count := 0,
       index_lock_list := [], flush_others := [], trace_stream := [],
       buffered_entries := 0, lamport_timestamp := 0\<rparr>"

text \<open>An address lock: its timestamp, and the Pin thread that holds its mutex.\<close>

record address_lock =
  lock_owner :: "int option"
  lock_time :: int

text \<open>
  The globals. \<open>trace_file\<close> is what was written to the file, \<open>file_closed\<close> that \<open>fini_a\<close> closed
  it; \<open>pin_threadid_set\<close> is a \<open>std::set\<close>, a strictly increasing list; \<open>tls\<close> is what
  \<open>PIN_GetThreadData\<close> returns.
\<close>

record 'b tracer =
  in_roi :: bool
  require_roi :: bool
  log_cas_fails :: bool
  register_threads :: bool
  turn_off_locks :: bool
  trace_file :: "entry list"
  file_closed :: bool
  last_flushed :: 'b
  last_flushed_cache :: int
  num_threads :: int
  pin_threadid_set :: "int list"
  num_locks :: u64
  block_size :: u64
  block_size_log :: u64
  accesses_flush :: int
  timestamp_difference :: int
  address_lock_bank :: "int \<Rightarrow> address_lock"
  tls :: "int \<Rightarrow> thread_data option"

section \<open>Access to the state\<close>

definition get_tls :: "'b tracer \<Rightarrow> int \<Rightarrow> thread_data result" where
  "get_tls s p = (case tls s p of None \<Rightarrow> Inl (Undefined ''null thread data'') | Some td \<Rightarrow> Inr td)"

definition set_tls :: "int \<Rightarrow> thread_data \<Rightarrow> 'b tracer \<Rightarrow> 'b tracer" where
  "set_tls p td s = s\<lparr>tls := (tls s)(p \<mapsto> td)\<rparr>"

text \<open>
  \<open>trace_file << stream.rdbuf(); assert(trace_file)\<close>: an insertion of no characters, or into a
  closed file, sets the failure bit.
\<close>

definition write_file :: "entry list \<Rightarrow> 'b tracer \<Rightarrow> 'b tracer result" where
  "write_file es s =
     (if es = [] \<or> file_closed s then Inl (Assertion ''trace_file'')
      else Inr (s\<lparr>trace_file := trace_file s @ es\<rparr>))"

text \<open>Sequencing: the first failure stops a handler.\<close>

definition andThen :: "'a result \<Rightarrow> ('a \<Rightarrow> 'b result) \<Rightarrow> 'b result" where
  "andThen r f = (case r of Inl e \<Rightarrow> Inl e | Inr x \<Rightarrow> f x)"

lemma andThen_simps [simp]: "andThen (Inl e) f = Inl e" "andThen (Inr x) f = f x"
  by (simp_all add: andThen_def)

lemma andThen_Inr: "andThen r f = Inr y \<longleftrightarrow> (\<exists>x. r = Inr x \<and> f x = Inr y)"
  by (cases r) simp_all

lemma get_tls_Some [simp]: "tls s p = Some td \<Longrightarrow> get_tls s p = Inr td"
  by (simp add: get_tls_def)

lemma get_tls_Inr: "get_tls s p = Inr td \<longleftrightarrow> tls s p = Some td"
  by (simp add: get_tls_def split: option.splits)

lemma tls_set_tls [simp]: "tls (set_tls p td s) = (tls s)(p \<mapsto> td)"
  by (simp add: set_tls_def)

lemma write_file_Inr:
  "write_file es s = Inr s' \<longleftrightarrow>
   es \<noteq> [] \<and> \<not> file_closed s \<and> s' = s\<lparr>trace_file := trace_file s @ es\<rparr>"
  by (auto simp: write_file_def)

end
