(* ===== verification/Trace_Buffer.thy ===== *)
theory Trace_Buffer
  imports Tracer_State
begin

text \<open>
  The buffering and flushing of \<open>src/trace/trace.cpp\<close>: \<open>attempt_flush_others\<close> (lines 176 to 206),
  \<open>touch_buffer\<close> (lines 220 to 272), and the two routines that visit every thread (lines 352 to
  372). A handler runs as one step: the mutexes it takes and gives back inside (the thread
  locks, the start/finish lock, the file lock) do not appear in the state.
\<close>

section \<open>Flushing other threads\<close>

text \<open>The comparison of an integer with \<open>timestamp_difference * .75\<close>.\<close>

definition lagging :: "'b tracer \<Rightarrow> int \<Rightarrow> bool" where
  "lagging s diff \<longleftrightarrow> 3 * timestamp_difference s \<le> 4 * diff"

text \<open>The lagging thread gets a sync entry, where it is registered, and the new time.\<close>

definition sync_thread :: "int \<Rightarrow> thread_data \<Rightarrow> thread_data" where
  "sync_thread this_time td =
     (if 0 \<le> user_threadid td
      then td\<lparr>trace_stream := trace_stream td @ [(this_time, user_threadid td, Thread_Sync)],
              buffered_entries := buffered_entries td + 1\<rparr>
      else td)\<lparr>lamport_timestamp := this_time\<rparr>"

definition attempt_flush_one ::
  "'b bimap_ops \<Rightarrow> int \<Rightarrow> int \<Rightarrow> 'b tracer \<Rightarrow> 'b tracer result" where
  "attempt_flush_one bm this_time pin_threadid s =
     (if pin_threadid \<notin> set (pin_threadid_set s) then Inr s
      else andThen (get_tls s pin_threadid) (\<lambda>td.
        let diff = this_time - lamport_timestamp td in
        if lagging s diff then
          let td2 = sync_thread this_time td
          in if 0 < buffered_entries td2
             then andThen (write_file (trace_stream td2) s) (\<lambda>s1.
               Inr (set_tls pin_threadid (td2\<lparr>buffered_entries := 0, trace_stream := []\<rparr>)
                 (s1\<lparr>last_flushed :=
                    bm_insert bm pin_threadid this_time
                      (bm_erase bm pin_threadid (last_flushed s1))\<rparr>)))
             else Inr (set_tls pin_threadid td2 s)
        else Inr s))"

fun attempt_flush_others ::
  "'b bimap_ops \<Rightarrow> int \<Rightarrow> int list \<Rightarrow> 'b tracer \<Rightarrow> 'b tracer result" where
  "attempt_flush_others bm this_time [] s = Inr s"
| "attempt_flush_others bm this_time (p # ps) s =
     andThen (attempt_flush_one bm this_time p s) (attempt_flush_others bm this_time ps)"

section \<open>\<open>touch_buffer\<close>\<close>

text \<open>
  The loop over the right view: the threads that lag are collected; the first that does not
  gives the new \<open>last_flushed_cache\<close> and ends the loop.
\<close>

fun collect_lagging ::
  "'b tracer \<Rightarrow> int \<Rightarrow> (int \<times> int) list \<Rightarrow> int \<Rightarrow> int list \<times> int" where
  "collect_lagging s time [] cache = ([], cache)"
| "collect_lagging s time ((t, p) # view) cache =
     (if lagging s (time - t)
      then let (ps, c) = collect_lagging s time view cache in (p # ps, c)
      else ([], t))"

text \<open>
  The check of \<open>last_flushed_cache\<close> after a flush (lines 238 to 255): the list of threads to flush,
  and the new cache. \<open>right.begin()\<close> of an empty bimap must not be read.
\<close>

definition check_last_flushed ::
  "'b bimap_ops \<Rightarrow> int \<Rightarrow> 'b tracer \<Rightarrow> (int list \<times> 'b tracer) result" where
  "check_last_flushed bm time s =
     (if timestamp_difference s < time - last_flushed_cache s then
        (case bm_right bm (last_flushed s) of
           [] \<Rightarrow> Inl (Undefined ''begin of an empty view'')
         | (t, p) # view \<Rightarrow>
             (let s1 = s\<lparr>last_flushed_cache := t\<rparr> in
              if timestamp_difference s1 < time - last_flushed_cache s1
              then let (ps, c) = collect_lagging s1 time ((t, p) # view) (last_flushed_cache s1)
                   in Inr (ps, s1\<lparr>last_flushed_cache := c\<rparr>)
              else Inr ([], s1)))
      else Inr ([], s))"

definition touch_buffer ::
  "'b bimap_ops \<Rightarrow> int \<Rightarrow> int \<Rightarrow> bool \<Rightarrow> 'b tracer \<Rightarrow> 'b tracer result" where
  "touch_buffer bm pin_threadid time force s =
     andThen (get_tls s pin_threadid) (\<lambda>td.
     let td1 = td\<lparr>lamport_timestamp := time, flush_others := [],
                  buffered_entries := buffered_entries td + 1\<rparr> in
     andThen
       (if accesses_flush s \<le> buffered_entries td1 \<or> force then
          andThen (write_file (trace_stream td1) s) (\<lambda>s1.
          andThen
            (check_last_flushed bm time
              (s1\<lparr>last_flushed :=
                 bm_insert bm pin_threadid time (bm_erase bm pin_threadid (last_flushed s1))\<rparr>))
            (\<lambda>(ps, s2).
               Inr (ps, set_tls pin_threadid
                          (td1\<lparr>buffered_entries := 0, trace_stream := [], flush_others := ps\<rparr>)
                          s2)))
        else Inr ([], set_tls pin_threadid td1 s))
       (\<lambda>(ps, s3).
          if ps \<noteq> [] then attempt_flush_others bm time ps s3 else Inr s3))"

section \<open>All threads\<close>

text \<open>\<open>acquire_all_thread_locks\<close>: the greatest timestamp of the running threads.\<close>

fun max_thread_time :: "'b tracer \<Rightarrow> int list \<Rightarrow> int \<Rightarrow> int result" where
  "max_thread_time s [] max_time = Inr max_time"
| "max_thread_time s (p # ps) max_time =
     andThen (get_tls s p) (\<lambda>td.
       max_thread_time s ps
         (if max_time < lamport_timestamp td then lamport_timestamp td else max_time))"

definition acquire_all_thread_locks :: "'b tracer \<Rightarrow> int result" where
  "acquire_all_thread_locks s = max_thread_time s (pin_threadid_set s) 0"

text \<open>\<open>release_all_thread_locks\<close>: every running thread gets the new timestamp.\<close>

fun set_thread_times :: "int list \<Rightarrow> int \<Rightarrow> 'b tracer \<Rightarrow> 'b tracer result" where
  "set_thread_times [] new_timestamp s = Inr s"
| "set_thread_times (p # ps) new_timestamp s =
     andThen (get_tls s p) (\<lambda>td.
       set_thread_times ps new_timestamp
         (set_tls p (td\<lparr>lamport_timestamp := new_timestamp\<rparr>) s))"

definition release_all_thread_locks :: "int \<Rightarrow> 'b tracer \<Rightarrow> 'b tracer result" where
  "release_all_thread_locks new_timestamp s =
     set_thread_times (pin_threadid_set s) new_timestamp s"

end
