(* ===== verification/Handlers.thy ===== *)
theory Handlers
  imports Trace_Buffer
begin

text \<open>
  The analysis and callback routines of \<open>src/trace/trace.cpp\<close> (lines 399 to 450 and 462 to 811):
  the address locks, the memory access routines, function calls and returns, the region of
  interest, the start, registration and end of threads, context changes.
\<close>

section \<open>Address locks\<close>

text \<open>
  \<open>PIN_MutexLock\<close> of a mutex that is held waits. Unlocking a mutex the thread does not hold, or
  indexing outside the bank, is undefined behaviour.
\<close>

definition lock_address :: "int \<Rightarrow> int \<Rightarrow> 'b tracer \<Rightarrow> 'b tracer result" where
  "lock_address p idx s =
     (if idx < 0 \<or> sint (num_locks s) \<le> idx then Inl (Undefined ''address_lock_bank index'')
      else if lock_owner (address_lock_bank s idx) \<noteq> None then Inl (Waits ''address lock'')
      else Inr (s\<lparr>address_lock_bank := (address_lock_bank s)
             (idx := (address_lock_bank s idx)\<lparr>lock_owner := Some p\<rparr>)\<rparr>))"

definition unlock_address :: "int \<Rightarrow> int \<Rightarrow> 'b tracer \<Rightarrow> 'b tracer result" where
  "unlock_address p idx s =
     (if idx < 0 \<or> sint (num_locks s) \<le> idx then Inl (Undefined ''address_lock_bank index'')
      else if lock_owner (address_lock_bank s idx) \<noteq> Some p
      then Inl (Undefined ''unlock of a mutex that is not held'')
      else Inr (s\<lparr>address_lock_bank := (address_lock_bank s)
             (idx := (address_lock_bank s idx)\<lparr>lock_owner := None\<rparr>)\<rparr>))"

fun lock_all :: "int \<Rightarrow> int list \<Rightarrow> int \<Rightarrow> 'b tracer \<Rightarrow> (int \<times> 'b tracer) result" where
  "lock_all p [] max_time s = Inr (max_time, s)"
| "lock_all p (idx # is) max_time s =
     andThen (lock_address p idx s) (\<lambda>s1.
       lock_all p is
         (if lock_time (address_lock_bank s1 idx) < max_time then max_time
          else lock_time (address_lock_bank s1 idx)) s1)"

text \<open>The indices an access needs (lines 401 to 428).\<close>

definition needed_indices :: "'b tracer \<Rightarrow> thread_data \<Rightarrow> int list" where
  "needed_indices s td =
     sort_unique
       (index_lock_list td @
        (if is_read td
         then access_indices (num_locks s) (block_size_log s) (read1_address td) (read_size td)
         else []) @
        (if is_read2 td
         then access_indices (num_locks s) (block_size_log s) (read2_address td) (read_size td)
         else []) @
        (if is_write td
         then access_indices (num_locks s) (block_size_log s) (write_address td) (write_size td)
         else []))"

definition acquire_address_locks :: "int \<Rightarrow> 'b tracer \<Rightarrow> (int \<times> 'b tracer) result" where
  "acquire_address_locks p s =
     andThen (get_tls s p) (\<lambda>td.
       let is = needed_indices s td in
       lock_all p is 0 (set_tls p (td\<lparr>index_lock_list := is\<rparr>) s))"

fun unlock_all :: "int \<Rightarrow> int \<Rightarrow> int list \<Rightarrow> 'b tracer \<Rightarrow> 'b tracer result" where
  "unlock_all p time [] s = Inr s"
| "unlock_all p time (idx # is) s =
     andThen (unlock_address p idx
         (s\<lparr>address_lock_bank := (address_lock_bank s)
              (idx := (address_lock_bank s idx)\<lparr>lock_time := time\<rparr>)\<rparr>))
       (unlock_all p time is)"

definition release_address_locks :: "int \<Rightarrow> 'b tracer \<Rightarrow> 'b tracer result" where
  "release_address_locks p s =
     andThen (get_tls s p) (\<lambda>td.
     andThen (unlock_all p (lamport_timestamp td) (index_lock_list td) s) (\<lambda>s1.
       Inr (set_tls p (td\<lparr>index_lock_list := []\<rparr>) s1)))"

section \<open>Memory accesses\<close>

definition memory_access_header_a :: "int \<Rightarrow> 'b tracer \<Rightarrow> 'b tracer result" where
  "memory_access_header_a p s =
     andThen (release_address_locks p s) (\<lambda>s1.
     andThen (get_tls s1 p) (\<lambda>td.
       let do_trace = (in_roi s1 \<or> \<not> require_roi s1) in
       Inr (set_tls p (td\<lparr>trace_this_access := do_trace \<and> 0 \<le> user_threadid td,
                         is_read := False, is_read2 := False, is_write := False\<rparr>) s1)))"

definition memory_access_read1_a :: "int \<Rightarrow> u64 \<Rightarrow> u64 \<Rightarrow> 'b tracer \<Rightarrow> 'b tracer result" where
  "memory_access_read1_a p address sz s =
     andThen (get_tls s p) (\<lambda>td.
       Inr (if trace_this_access td
            then set_tls p (td\<lparr>is_read := True, read1_address := address, read_size := sz\<rparr>) s
            else s))"

definition memory_access_read2_a :: "int \<Rightarrow> u64 \<Rightarrow> 'b tracer \<Rightarrow> 'b tracer result" where
  "memory_access_read2_a p address s =
     andThen (get_tls s p) (\<lambda>td.
       Inr (if trace_this_access td
            then set_tls p (td\<lparr>is_read2 := True, read2_address := address\<rparr>) s
            else s))"

definition memory_access_write_a :: "int \<Rightarrow> u64 \<Rightarrow> u64 \<Rightarrow> 'b tracer \<Rightarrow> 'b tracer result" where
  "memory_access_write_a p address sz s =
     andThen (get_tls s p) (\<lambda>td.
       Inr (if trace_this_access td
            then set_tls p (td\<lparr>is_write := True, write_address := address, write_size := sz\<rparr>) s
            else s))"

definition memory_access_acquire_locks_a :: "int \<Rightarrow> 'b tracer \<Rightarrow> 'b tracer result" where
  "memory_access_acquire_locks_a p s =
     andThen (get_tls s p) (\<lambda>td.
       if trace_this_access td then
         if turn_off_locks s
         then Inr (set_tls p (td\<lparr>max_locked_timestamp := 0\<rparr>) s)
         else andThen (acquire_address_locks p s) (\<lambda>(t, s1).
              andThen (get_tls s1 p) (\<lambda>td1.
                Inr (set_tls p (td1\<lparr>max_locked_timestamp := t\<rparr>) s1)))
       else Inr s)"

text \<open>The entry of an access, from the flags and addresses of the thread.\<close>

definition access_event :: "thread_data \<Rightarrow> event" where
  "access_event td =
     Memory (if is_read td then Some (read1_address td, read_size td) else None)
            (if is_read2 td then Some (read2_address td) else None)
            (if is_write td then Some (write_address td, write_size td) else None)"

definition access_time :: "thread_data \<Rightarrow> int" where
  "access_time td =
     (if max_locked_timestamp td < lamport_timestamp td then lamport_timestamp td
      else max_locked_timestamp td) + 1"

definition memory_access_footer_a :: "'b bimap_ops \<Rightarrow> int \<Rightarrow> 'b tracer \<Rightarrow> 'b tracer result" where
  "memory_access_footer_a bm p s =
     andThen (get_tls s p) (\<lambda>td.
       if trace_this_access td then
         let new_time = access_time td;
             td1 = td\<lparr>trace_stream := trace_stream td @
                        [(new_time, user_threadid td, access_event td)]\<rparr>
         in touch_buffer bm p new_time False (set_tls p td1 s)
       else Inr s)"

definition zf_bit :: u64 where
  "zf_bit = push_bit 6 1"

definition memory_access_CAS_footer_a :: "int \<Rightarrow> u64 \<Rightarrow> 'b tracer \<Rightarrow> 'b tracer result" where
  "memory_access_CAS_footer_a p flags_reg s =
     andThen (get_tls s p) (\<lambda>td.
       if trace_this_access td then
         let result = flags_reg AND zf_bit in
         if \<not> is_write td then Inl (Assertion ''tdata->is_write'')
         else if result = 0 then Inr (set_tls p (td\<lparr>is_write := False\<rparr>) s)
         else Inr s
       else Inr s)"

definition memory_access_release_a :: "int \<Rightarrow> 'b tracer \<Rightarrow> 'b tracer result" where
  "memory_access_release_a p s = release_address_locks p s"

section \<open>Functions and the region of interest\<close>

text \<open>
  What \<open>function_call_a\<close> and \<open>function_return_a\<close> share after the release: a registered thread
  takes its own next timestamp, an unregistered one synchronises all threads and flushes.
\<close>

definition trace_function ::
  "'b bimap_ops \<Rightarrow> int \<Rightarrow> event \<Rightarrow> 'b tracer \<Rightarrow> 'b tracer result" where
  "trace_function bm p ev s =
     andThen (get_tls s p) (\<lambda>td.
       let registered = (0 \<le> user_threadid td) in
       andThen (if registered then Inr (lamport_timestamp td) else acquire_all_thread_locks s)
         (\<lambda>t.
           let time = t + 1;
               td1 = td\<lparr>lamport_timestamp := time,
                        trace_stream := trace_stream td @ [(time, user_threadid td, ev)]\<rparr>
           in andThen (touch_buffer bm p time (\<not> registered) (set_tls p td1 s)) (\<lambda>s1.
                if registered then Inr s1 else release_all_thread_locks time s1)))"

definition function_call_a ::
  "'b bimap_ops \<Rightarrow> string \<Rightarrow> int \<Rightarrow> u64 \<Rightarrow> u64 \<Rightarrow> u64 \<Rightarrow> u64 \<Rightarrow> 'b tracer \<Rightarrow> 'b tracer result" where
  "function_call_a bm name p stack_pointer arg1 arg2 arg3 s =
     andThen (release_address_locks p s)
       (trace_function bm p (Function_Call name stack_pointer arg1 arg2 arg3))"

definition function_return_a ::
  "'b bimap_ops \<Rightarrow> string \<Rightarrow> int \<Rightarrow> u64 \<Rightarrow> u64 \<Rightarrow> 'b tracer \<Rightarrow> 'b tracer result" where
  "function_return_a bm name p stack_pointer return_value s =
     andThen (release_address_locks p s)
       (trace_function bm p (Function_Return name stack_pointer return_value))"

text \<open>
  An entry for which all threads are synchronised: \<open>change_roi_a\<close>, the start and registration of
  a thread (\<open>trace_start_thread\<close>) and the end of a registered one.
\<close>

definition trace_synchronised ::
  "'b bimap_ops \<Rightarrow> int \<Rightarrow> event \<Rightarrow> 'b tracer \<Rightarrow> 'b tracer result" where
  "trace_synchronised bm p ev s =
     andThen (acquire_all_thread_locks s) (\<lambda>t.
     andThen (get_tls s p) (\<lambda>td.
       let time = t + 1;
           td1 = td\<lparr>trace_stream := trace_stream td @ [(time, user_threadid td, ev)]\<rparr>
       in andThen (touch_buffer bm p time True (set_tls p td1 s))
            (release_all_thread_locks time)))"

definition change_roi_a ::
  "'b bimap_ops \<Rightarrow> int \<Rightarrow> bool \<Rightarrow> string \<Rightarrow> 'b tracer \<Rightarrow> 'b tracer result" where
  "change_roi_a bm p new_roi change_to s =
     andThen (release_address_locks p s) (\<lambda>s1.
       trace_synchronised bm p (Change_Roi change_to) (s1\<lparr>in_roi := new_roi\<rparr>))"

section \<open>Threads\<close>

definition register_thread_a ::
  "'b bimap_ops \<Rightarrow> int \<Rightarrow> int \<Rightarrow> 'b tracer \<Rightarrow> 'b tracer result" where
  "register_thread_a bm p new_threadid s =
     andThen (release_address_locks p s) (\<lambda>s1.
       if register_threads s1 then
         andThen (get_tls s1 p) (\<lambda>td.
           trace_synchronised bm p Thread_Register
             (set_tls p (td\<lparr>user_threadid := new_threadid\<rparr>) s1))
       else Inr s1)"

text \<open>
  \<open>thread_start_a\<close>: \<open>g\<close> is what the new object's memory held, \<open>uid\<close> what \<open>PIN_ThreadUid\<close> returns.
\<close>

definition thread_start_a ::
  "'b bimap_ops \<Rightarrow> thread_data \<Rightarrow> int \<Rightarrow> int \<Rightarrow> 'b tracer \<Rightarrow> 'b tracer result" where
  "thread_start_a bm g uid p s =
     (let td = new_thread_data g;
          s1 = set_tls p td (s\<lparr>num_threads := num_threads s + 1\<rparr>)
      in andThen
           (if \<not> register_threads s1
            then trace_synchronised bm p Thread_Register
                   (set_tls p (td\<lparr>user_threadid := uid\<rparr>) s1)
            else Inr (set_tls p (td\<lparr>lamport_timestamp := 0\<rparr>) s1))
           (\<lambda>s2. Inr (s2\<lparr>pin_threadid_set := List.insort_insert p (pin_threadid_set s2),
                       last_flushed := bm_insert bm p 0 (last_flushed s2)\<rparr>)))"

definition thread_fini_a :: "'b bimap_ops \<Rightarrow> int \<Rightarrow> 'b tracer \<Rightarrow> 'b tracer result" where
  "thread_fini_a bm p s =
     andThen (release_address_locks p s) (\<lambda>s1.
     andThen (get_tls s1 p) (\<lambda>td.
     andThen (if 0 \<le> user_threadid td then trace_synchronised bm p Thread_Finish s1 else Inr s1)
       (\<lambda>s2.
         let s3 = s2\<lparr>pin_threadid_set := remove1 p (pin_threadid_set s2)\<rparr> in
         andThen (get_tls s3 p) (\<lambda>td3.
         andThen
           (if 0 < buffered_entries td3
            then andThen (write_file (trace_stream td3) s3) (\<lambda>s4.
                   Inr (s4\<lparr>last_flushed := bm_erase bm p (last_flushed s4)\<rparr>))
            else Inr s3)
           (\<lambda>s5. Inr (s5\<lparr>tls := (tls s5)(p := None)\<rparr>))))))"

definition fini_a :: "'b tracer \<Rightarrow> 'b tracer result" where
  "fini_a s = Inr (s\<lparr>file_closed := True\<rparr>)"

definition ctxt_change_release :: "'b bimap_ops \<Rightarrow> int \<Rightarrow> 'b tracer \<Rightarrow> 'b tracer result" where
  "ctxt_change_release bm p s =
     andThen (release_address_locks p s) (\<lambda>s1.
     andThen (get_tls s1 p) (\<lambda>td.
       let time = lamport_timestamp td + 1;
           td1 = td\<lparr>trace_stream := trace_stream td @ [(time, user_threadid td, Context_Change)]\<rparr>
       in touch_buffer bm p time False (set_tls p td1 s1)))"

section \<open>Calls\<close>

text \<open>One call of a routine, with the arguments Pin passes; \<open>run_call\<close> dispatches.\<close>

datatype call =
    Header int
  | Read1 int u64 u64
  | Read2 int u64
  | Write int u64 u64
  | Acquire int
  | Cas_Footer int u64
  | Footer int
  | Release int
  | Call string int u64 u64 u64 u64
  | Return string int u64 u64
  | Roi int bool string
  | Register int int
  | Start thread_data int int
  | Fini int
  | Ctxt_Change int

fun run_call :: "'b bimap_ops \<Rightarrow> call \<Rightarrow> 'b tracer \<Rightarrow> 'b tracer result" where
  "run_call bm (Header p) s = memory_access_header_a p s"
| "run_call bm (Read1 p a n) s = memory_access_read1_a p a n s"
| "run_call bm (Read2 p a) s = memory_access_read2_a p a s"
| "run_call bm (Write p a n) s = memory_access_write_a p a n s"
| "run_call bm (Acquire p) s = memory_access_acquire_locks_a p s"
| "run_call bm (Cas_Footer p flags) s = memory_access_CAS_footer_a p flags s"
| "run_call bm (Footer p) s = memory_access_footer_a bm p s"
| "run_call bm (Release p) s = memory_access_release_a p s"
| "run_call bm (Call name p sp a b c) s = function_call_a bm name p sp a b c s"
| "run_call bm (Return name p sp v) s = function_return_a bm name p sp v s"
| "run_call bm (Roi p b name) s = change_roi_a bm p b name s"
| "run_call bm (Register p uid) s = register_thread_a bm p uid s"
| "run_call bm (Start g uid p) s = thread_start_a bm g uid p s"
| "run_call bm (Fini p) s = thread_fini_a bm p s"
| "run_call bm (Ctxt_Change p) s = ctxt_change_release bm p s"

end
