(* ===== verification/Tracer_Frames.thy ===== *)
theory Tracer_Frames
  imports Handlers
begin

text \<open>
  What the buffering routines leave alone. Flushing, touching a buffer and synchronising the
  threads write trace streams, entry counts, flush lists, the file and \<open>last_flushed\<close>; they only
  raise timestamps, and they keep the address locks, the configuration and everything else of
  the threads.
\<close>

section \<open>The frame\<close>

definition core :: "thread_data \<Rightarrow> thread_data" where
  "core td = td\<lparr>flush_others := [], trace_stream := [], buffered_entries := 0,
                lamport_timestamp := 0\<rparr>"

definition thread_kept :: "thread_data option \<Rightarrow> thread_data option \<Rightarrow> bool" where
  "thread_kept t t' \<longleftrightarrow>
     (case (t, t') of
        (None, None) \<Rightarrow> True
      | (Some td, Some td') \<Rightarrow> core td' = core td \<and> lamport_timestamp td \<le> lamport_timestamp td'
      | _ \<Rightarrow> False)"

definition static :: "'b tracer \<Rightarrow> 'b tracer" where
  "static s = s\<lparr>trace_file := [], last_flushed := undefined, last_flushed_cache := 0,
                tls := Map.empty\<rparr>"

definition kept :: "'b tracer \<Rightarrow> 'b tracer \<Rightarrow> bool" where
  "kept s s' \<longleftrightarrow> static s' = static s \<and> (\<forall>q. thread_kept (tls s q) (tls s' q))"

named_theorems kept_intro \<open>routines that stay within the frame\<close>

lemma thread_kept_refl [simp]: "thread_kept t t"
  by (cases t) (simp_all add: thread_kept_def)

lemma thread_kept_trans: "thread_kept t u \<Longrightarrow> thread_kept u v \<Longrightarrow> thread_kept t v"
  by (auto simp: thread_kept_def split: option.splits)

lemma thread_kept_Some:
  "thread_kept (Some td) t' \<longleftrightarrow>
   (\<exists>td'. t' = Some td' \<and> core td' = core td \<and> lamport_timestamp td \<le> lamport_timestamp td')"
  by (cases t') (auto simp: thread_kept_def)

lemma kept_refl [simp]: "kept s s"
  by (simp add: kept_def)

lemma kept_trans: "kept s t \<Longrightarrow> kept t u \<Longrightarrow> kept s u"
  by (auto simp: kept_def intro: thread_kept_trans)

lemma kept_static:
  assumes "kept s s'"
  shows "address_lock_bank s' = address_lock_bank s" "num_locks s' = num_locks s"
    "block_size_log s' = block_size_log s" "timestamp_difference s' = timestamp_difference s"
    "turn_off_locks s' = turn_off_locks s" "pin_threadid_set s' = pin_threadid_set s"
    "file_closed s' = file_closed s" "register_threads s' = register_threads s"
    "in_roi s' = in_roi s" "require_roi s' = require_roi s"
    "accesses_flush s' = accesses_flush s"
proof -
  have "static s' = static s" using assms by (simp add: kept_def)
  note eq = arg_cong [OF this]
  show "address_lock_bank s' = address_lock_bank s"
    "num_locks s' = num_locks s"
    "block_size_log s' = block_size_log s"
    "timestamp_difference s' = timestamp_difference s"
    "turn_off_locks s' = turn_off_locks s"
    "pin_threadid_set s' = pin_threadid_set s"
    "file_closed s' = file_closed s"
    "register_threads s' = register_threads s"
    "in_roi s' = in_roi s"
    "require_roi s' = require_roi s"
    "accesses_flush s' = accesses_flush s"
    using eq [of address_lock_bank] eq [of num_locks] eq [of block_size_log] eq [of
      timestamp_difference] eq [of turn_off_locks] eq [of pin_threadid_set] eq [of
      file_closed] eq [of register_threads] eq [of in_roi] eq [of require_roi] eq [of
      accesses_flush]
    by (simp_all add: static_def)
qed

lemma kept_tls:
  assumes "kept s s'" "tls s p = Some td"
  obtains td' where "tls s' p = Some td'" "core td' = core td"
    "lamport_timestamp td \<le> lamport_timestamp td'"
  using assms by (metis kept_def thread_kept_Some)

lemma kept_dom: "kept s s' \<Longrightarrow> tls s' p = None \<longleftrightarrow> tls s p = None"
  by (cases "tls s p"; cases "tls s' p") (auto simp: kept_def thread_kept_def dest!: spec [of _ p])

lemma core_fields:
  assumes "core td' = core td"
  shows "user_threadid td' = user_threadid td" "index_lock_list td' = index_lock_list td"
    "trace_this_access td' = trace_this_access td" "is_read td' = is_read td"
    "is_read2 td' = is_read2 td" "is_write td' = is_write td"
    "read1_address td' = read1_address td" "read2_address td' = read2_address td"
    "write_address td' = write_address td" "read_size td' = read_size td"
    "write_size td' = write_size td" "max_locked_timestamp td' = max_locked_timestamp td"
proof -
  note eq = arg_cong [OF assms]
  show "user_threadid td' = user_threadid td"
    "index_lock_list td' = index_lock_list td"
    "trace_this_access td' = trace_this_access td"
    "is_read td' = is_read td"
    "is_read2 td' = is_read2 td"
    "is_write td' = is_write td"
    "read1_address td' = read1_address td"
    "read2_address td' = read2_address td"
    "write_address td' = write_address td"
    "read_size td' = read_size td"
    "write_size td' = write_size td"
    "max_locked_timestamp td' = max_locked_timestamp td"
    using eq [of user_threadid] eq [of index_lock_list] eq [of trace_this_access] eq [of
      is_read] eq [of is_read2] eq [of is_write] eq [of read1_address] eq [of read2_address]
      eq [of write_address] eq [of read_size] eq [of write_size] eq [of
      max_locked_timestamp]
    by (simp_all add: core_def)
qed

section \<open>The routines\<close>

lemma kept_set_tls:
  "tls s p = Some td \<Longrightarrow> core td' = core td \<Longrightarrow> lamport_timestamp td \<le> lamport_timestamp td' \<Longrightarrow>
   kept s (set_tls p td' s)"
  by (auto simp: kept_def static_def set_tls_def thread_kept_Some)

lemma kept_file [simp]: "kept s (s\<lparr>trace_file := f\<rparr>)"
  and kept_last_flushed [simp]: "kept s (s\<lparr>last_flushed := b\<rparr>)"
  and kept_cache [simp]: "kept s (s\<lparr>last_flushed_cache := c\<rparr>)"
  by (simp_all add: kept_def static_def)

lemma write_file_kept: "write_file es s = Inr s' \<Longrightarrow> kept s s'"
  by (auto simp: write_file_Inr)

lemma attempt_flush_one_kept:
  assumes "attempt_flush_one bm t p s = Inr s'" "0 \<le> timestamp_difference s"
  shows "kept s s'"
proof (cases "p \<in> set (pin_threadid_set s)")
  case False
  with assms(1) show ?thesis by (simp add: attempt_flush_one_def)
next
  case True
  with assms(1) obtain td where td: "tls s p = Some td"
    by (auto simp: attempt_flush_one_def andThen_Inr get_tls_Inr)
  show ?thesis
  proof (cases "lagging s (t - lamport_timestamp td)")
    case False
    with assms(1) True td show ?thesis by (simp add: attempt_flush_one_def Let_def)
  next
    case lag: True
    then have t: "lamport_timestamp td \<le> t"
      using assms(2) by (simp add: lagging_def)
    define td2 where "td2 = sync_thread t td"
    have c: "core td2 = core td" "lamport_timestamp td2 = t"
      by (simp_all add: td2_def core_def sync_thread_def)
    from assms(1) True td lag have run: "(if 0 < buffered_entries td2
        then andThen (write_file (trace_stream td2) s) (\<lambda>s1.
          Inr (set_tls p (td2\<lparr>buffered_entries := 0, trace_stream := []\<rparr>)
            (s1\<lparr>last_flushed := bm_insert bm p t (bm_erase bm p (last_flushed s1))\<rparr>)))
        else Inr (set_tls p td2 s)) = Inr s'"
      by (auto simp: attempt_flush_one_def Let_def td2_def split: if_splits)
    show ?thesis
    proof (cases "0 < buffered_entries td2")
      case True
      with run have s': "s' = set_tls p (td2\<lparr>buffered_entries := 0, trace_stream := []\<rparr>)
          (s\<lparr>trace_file := trace_file s @ trace_stream td2,
             last_flushed := bm_insert bm p t (bm_erase bm p (last_flushed s))\<rparr>)"
        by (auto simp: andThen_Inr write_file_Inr)
      have "kept s (s\<lparr>trace_file := trace_file s @ trace_stream td2,
             last_flushed := bm_insert bm p t (bm_erase bm p (last_flushed s))\<rparr>)"
        by (simp add: kept_def static_def)
      moreover have "kept \<dots> s'"
        unfolding s' by (rule kept_set_tls [of _ _ td]) (use td c t in \<open>auto simp: core_def\<close>)
      ultimately show ?thesis by (rule kept_trans)
    next
      case False
      with run td c t show ?thesis by (auto intro: kept_set_tls)
    qed
  qed
qed

lemma attempt_flush_others_kept:
  "attempt_flush_others bm t ps s = Inr s' \<Longrightarrow> 0 \<le> timestamp_difference s \<Longrightarrow> kept s s'"
proof (induction ps arbitrary: s)
  case (Cons p ps)
  then obtain s1 where s1: "attempt_flush_one bm t p s = Inr s1"
    "attempt_flush_others bm t ps s1 = Inr s'"
    by (auto simp: andThen_Inr)
  have k: "kept s s1" using s1(1) Cons.prems(2) by (rule attempt_flush_one_kept)
  with Cons.prems(2) have "0 \<le> timestamp_difference s1" by (simp add: kept_static)
  with k Cons.IH [OF s1(2)] show ?case by (blast intro: kept_trans)
qed simp

lemma check_last_flushed_kept: "check_last_flushed bm t s = Inr (ps, s') \<Longrightarrow> kept s s' \<and> tls s' = tls s"
  by (auto simp: check_last_flushed_def Let_def kept_def static_def
      split: if_splits list.splits prod.splits)

text \<open>\<open>touch_buffer\<close> stays in the frame where the new time is no earlier than the thread's.\<close>

lemma touch_buffer_kept:
  assumes run: "touch_buffer bm p t force s = Inr s'" and td: "tls s p = Some td"
    and le: "lamport_timestamp td \<le> t" and d: "0 \<le> timestamp_difference s"
  shows "kept s s'" "\<exists>td'. tls s' p = Some td' \<and> t \<le> lamport_timestamp td'"
proof -
  define td1 where "td1 = td\<lparr>lamport_timestamp := t, flush_others := [],
    buffered_entries := buffered_entries td + 1\<rparr>"
  have t1: "lamport_timestamp td1 = t" "core td1 = core td"
    by (simp_all add: td1_def core_def)
  obtain ps s3 td3 where s3: "kept s s3" "tls s3 p = Some td3" "lamport_timestamp td3 = t"
    and fin: "(if ps \<noteq> [] then attempt_flush_others bm t ps s3 else Inr s3) = Inr s'"
  proof (cases "accesses_flush s \<le> buffered_entries td1 \<or> force")
    case True
    with run td obtain s1 ps s2 where s1: "write_file (trace_stream td1) s = Inr s1"
      and s2: "check_last_flushed bm t (s1\<lparr>last_flushed :=
          bm_insert bm p t (bm_erase bm p (last_flushed s1))\<rparr>) = Inr (ps, s2)"
      and fin: "(if ps \<noteq> [] then attempt_flush_others bm t ps (set_tls p
          (td1\<lparr>buffered_entries := 0, trace_stream := [], flush_others := ps\<rparr>) s2)
        else Inr (set_tls p (td1\<lparr>buffered_entries := 0, trace_stream := [], flush_others := ps\<rparr>) s2))
        = Inr s'"
      by (auto simp: touch_buffer_def Let_def andThen_Inr td1_def split: if_splits)
    have "kept s s1" "tls s1 = tls s"
      using s1 by (auto simp: write_file_Inr)
    then have k2: "kept s s2" "tls s2 = tls s"
      using check_last_flushed_kept [OF s2] by (metis kept_trans kept_last_flushed, simp)
    have "kept s2 (set_tls p (td1\<lparr>buffered_entries := 0, trace_stream := [], flush_others := ps\<rparr>) s2)"
      by (rule kept_set_tls [of _ _ td]) (use k2 td le in \<open>auto simp: core_def td1_def\<close>)
    with k2 have k3: "kept s (set_tls p (td1\<lparr>buffered_entries := 0, trace_stream := [],
        flush_others := ps\<rparr>) s2)" by (blast intro: kept_trans)
    show thesis
      by (rule that [OF k3 _ _ fin]) (simp, simp add: t1)
  next
    case False
    with run td have fin: "(if [] \<noteq> ([] :: int list)
        then attempt_flush_others bm t [] (set_tls p td1 s) else Inr (set_tls p td1 s)) = Inr s'"
      by (simp add: touch_buffer_def Let_def td1_def)
    have k: "kept s (set_tls p td1 s)"
      by (rule kept_set_tls [OF td]) (use le in \<open>auto simp: core_def td1_def\<close>)
    show thesis
      by (rule that [OF k _ _ fin]) (simp, simp add: t1)
  qed
  have "kept s3 s'"
    using fin d s3(1) attempt_flush_others_kept [of bm t ps s3 s']
    by (auto simp: kept_static split: if_splits)
  with s3 show "kept s s'" "\<exists>td'. tls s' p = Some td' \<and> t \<le> lamport_timestamp td'"
    by (blast intro: kept_trans, metis kept_tls)
qed

lemma max_thread_time_bound:
  "max_thread_time s ps m = Inr t \<Longrightarrow>
   m \<le> t \<and> (\<forall>p \<in> set ps. \<forall>td. tls s p = Some td \<longrightarrow> lamport_timestamp td \<le> t)"
proof (induction ps arbitrary: m)
  case (Cons p ps)
  then obtain td where td: "tls s p = Some td"
    and r: "max_thread_time s ps (if m < lamport_timestamp td then lamport_timestamp td else m) = Inr t"
    by (auto simp: andThen_Inr get_tls_Inr)
  from Cons.IH [OF r] td show ?case by (auto split: if_splits)
qed simp

lemma set_thread_times_other:
  "set_thread_times ps t s = Inr s' \<Longrightarrow> q \<notin> set ps \<Longrightarrow> tls s' q = tls s q"
  by (induction ps arbitrary: s) (auto simp: andThen_Inr)

lemma set_thread_times_kept:
  "set_thread_times ps t s = Inr s' \<Longrightarrow>
   (\<And>p td. p \<in> set ps \<Longrightarrow> tls s p = Some td \<Longrightarrow> lamport_timestamp td \<le> t) \<Longrightarrow>
   kept s s' \<and> (\<forall>p \<in> set ps. \<exists>td. tls s' p = Some td \<and> lamport_timestamp td = t)"
proof (induction ps arbitrary: s)
  case (Cons p ps)
  then obtain td where td: "tls s p = Some td"
    and r: "set_thread_times ps t (set_tls p (td\<lparr>lamport_timestamp := t\<rparr>) s) = Inr s'"
    by (auto simp: andThen_Inr get_tls_Inr)
  let ?s = "set_tls p (td\<lparr>lamport_timestamp := t\<rparr>) s"
  have k: "kept s ?s"
    using Cons.prems(2) [of p td] td by (intro kept_set_tls [OF td]) (simp_all add: core_def)
  have "kept ?s s' \<and> (\<forall>p \<in> set ps. \<exists>td. tls s' p = Some td \<and> lamport_timestamp td = t)"
    using Cons.prems(2) by (intro Cons.IH [OF r]) (auto split: if_splits)
  moreover have "\<exists>td. tls s' p = Some td \<and> lamport_timestamp td = t"
  proof (cases "p \<in> set ps")
    case False
    with set_thread_times_other [OF r] show ?thesis by simp
  qed (use calculation in blast)
  ultimately show ?case using k by (auto intro: kept_trans)
qed simp

section \<open>Synchronised entries\<close>

text \<open>No thread is ahead of \<open>t\<close>.\<close>

definition bounded :: "int \<Rightarrow> 'b tracer \<Rightarrow> bool" where
  "bounded t s \<longleftrightarrow> (\<forall>q td. tls s q = Some td \<longrightarrow> lamport_timestamp td \<le> t)"

lemma boundedD: "bounded t s \<Longrightarrow> tls s q = Some td \<Longrightarrow> lamport_timestamp td \<le> t"
  by (simp add: bounded_def)

lemma bounded_mono: "bounded t s \<Longrightarrow> t \<le> u \<Longrightarrow> bounded u s"
  unfolding bounded_def by (meson order_trans)

lemma bounded_set_tls: "bounded t s \<Longrightarrow> lamport_timestamp td \<le> t \<Longrightarrow> bounded t (set_tls p td s)"
  by (simp add: bounded_def)

lemma bounded_cong: "tls s' = tls s \<Longrightarrow> bounded t s' \<longleftrightarrow> bounded t s"
  by (simp add: bounded_def)

lemma sync_thread_time [simp]: "lamport_timestamp (sync_thread t td) = t"
  by (simp add: sync_thread_def)

lemma attempt_flush_one_bounded:
  assumes "attempt_flush_one bm t p s = Inr s'" "bounded t s"
  shows "bounded t s'"
  using assms
  by (auto simp: attempt_flush_one_def andThen_Inr write_file_Inr Let_def bounded_def
      split: if_splits)

lemma attempt_flush_others_bounded:
  "attempt_flush_others bm t ps s = Inr s' \<Longrightarrow> bounded t s \<Longrightarrow> bounded t s'"
  by (induction ps arbitrary: s) (auto simp: andThen_Inr dest: attempt_flush_one_bounded)

lemma touch_buffer_bounded:
  assumes run: "touch_buffer bm p t force s = Inr s'" and b: "bounded t s"
  shows "bounded t s'"
proof -
  from run obtain td where td: "tls s p = Some td"
    by (auto simp: touch_buffer_def andThen_Inr get_tls_Inr)
  define td1 where "td1 = td\<lparr>lamport_timestamp := t, flush_others := [],
    buffered_entries := buffered_entries td + 1\<rparr>"
  let ?mid = "if accesses_flush s \<le> buffered_entries td1 \<or> force then
        andThen (write_file (trace_stream td1) s) (\<lambda>s1.
          andThen (check_last_flushed bm t (s1\<lparr>last_flushed :=
              bm_insert bm p t (bm_erase bm p (last_flushed s1))\<rparr>))
            (\<lambda>(ps, s2). Inr (ps, set_tls p
               (td1\<lparr>buffered_entries := 0, trace_stream := [], flush_others := ps\<rparr>) s2)))
        else Inr ([], set_tls p td1 s)"
  from run have "andThen ?mid (\<lambda>(ps, s3).
      if ps \<noteq> [] then attempt_flush_others bm t ps s3 else Inr s3) = Inr s'"
    unfolding touch_buffer_def get_tls_Some [OF td] andThen_simps Let_def td1_def .
  then obtain ps s3 where mid: "?mid = Inr (ps, s3)"
    and fin: "(if ps \<noteq> [] then attempt_flush_others bm t ps s3 else Inr s3) = Inr s'"
    unfolding andThen_Inr [of ?mid] by auto
  have "bounded t s3"
  proof (cases "accesses_flush s \<le> buffered_entries td1 \<or> force")
    case True
    with mid obtain s2 where s2: "check_last_flushed bm t
        (s\<lparr>trace_file := trace_file s @ trace_stream td1,
           last_flushed := bm_insert bm p t (bm_erase bm p (last_flushed s))\<rparr>) = Inr (ps, s2)"
      "s3 = set_tls p (td1\<lparr>buffered_entries := 0, trace_stream := [], flush_others := ps\<rparr>) s2"
      by (auto simp: andThen_Inr write_file_Inr)
    from check_last_flushed_kept [OF s2(1)] have "tls s2 = tls s" by simp
    with s2(2) b show ?thesis by (simp add: bounded_def td1_def)
  next
    case False
    with mid have "s3 = set_tls p td1 s" by simp
    with b show ?thesis by (simp add: bounded_set_tls td1_def)
  qed
  with fin show ?thesis by (auto split: if_splits dest: attempt_flush_others_bounded)
qed

text \<open>The threads that have started are those of the set, or have not yet a time.\<close>

definition joined :: "'b tracer \<Rightarrow> bool" where
  "joined s \<longleftrightarrow>
     (\<forall>q td. tls s q = Some td \<longrightarrow> q \<in> set (pin_threadid_set s) \<or> lamport_timestamp td \<le> 0)"

lemma acquire_all_bounded:
  assumes "acquire_all_thread_locks s = Inr t" "joined s"
  shows "bounded t s" "0 \<le> t"
  using max_thread_time_bound [of s "pin_threadid_set s" 0 t] assms
  by (fastforce simp: acquire_all_thread_locks_def bounded_def joined_def)+

lemma release_all_kept:
  assumes "release_all_thread_locks t s = Inr s'" "bounded t s"
  shows "kept s s'" "\<And>q. q \<in> set (pin_threadid_set s) \<Longrightarrow> \<exists>td. tls s' q = Some td \<and> lamport_timestamp td = t"
  using set_thread_times_kept [of "pin_threadid_set s" t s s'] assms
  by (auto simp: release_all_thread_locks_def bounded_def)

lemma trace_synchronised_kept:
  assumes run: "trace_synchronised bm p ev s = Inr s'"
    and d: "0 \<le> timestamp_difference s" and j: "joined s"
  shows "kept s s'"
proof -
  from run obtain t td where t: "acquire_all_thread_locks s = Inr t" and td: "tls s p = Some td"
    by (auto simp: trace_synchronised_def andThen_Inr get_tls_Inr)
  define td1 where
    "td1 = td\<lparr>trace_stream := trace_stream td @ [(t + 1, user_threadid td, ev)]\<rparr>"
  from run t td obtain s1 where s1: "touch_buffer bm p (t + 1) True (set_tls p td1 s) = Inr s1"
    and s': "release_all_thread_locks (t + 1) s1 = Inr s'"
    by (auto simp: trace_synchronised_def andThen_Inr Let_def td1_def)
  have b: "bounded t s" using acquire_all_bounded [OF t j] by simp
  have le: "lamport_timestamp td1 \<le> t + 1"
    using boundedD [OF b td] by (simp add: td1_def)
  then have b1: "bounded (t + 1) (set_tls p td1 s)"
    using bounded_mono [OF b, of "t + 1"] by (simp add: bounded_set_tls)
  have k0: "kept s (set_tls p td1 s)"
    by (rule kept_set_tls [OF td]) (simp_all add: td1_def core_def)
  have "kept (set_tls p td1 s) s1"
    by (rule touch_buffer_kept(1) [OF s1 _ le]) (use d k0 in \<open>simp_all add: kept_static\<close>)
  moreover have "kept s1 s'" by (rule release_all_kept(1) [OF s' touch_buffer_bounded [OF s1 b1]])
  ultimately show ?thesis using k0 by (blast intro: kept_trans)
qed

lemma trace_function_kept:
  assumes run: "trace_function bm p ev s = Inr s'"
    and d: "0 \<le> timestamp_difference s" and j: "joined s"
  shows "kept s s'"
proof -
  from run obtain td where td: "tls s p = Some td"
    by (auto simp: trace_function_def andThen_Inr get_tls_Inr)
  from run td obtain t where t: "(if 0 \<le> user_threadid td then Inr (lamport_timestamp td)
      else acquire_all_thread_locks s) = Inr t"
    by (auto simp: trace_function_def andThen_Inr Let_def)
  define td1 where "td1 = td\<lparr>lamport_timestamp := t + 1,
    trace_stream := trace_stream td @ [(t + 1, user_threadid td, ev)]\<rparr>"
  from run td t obtain s1 where
    s1: "touch_buffer bm p (t + 1) (\<not> 0 \<le> user_threadid td) (set_tls p td1 s) = Inr s1"
    and s': "(if 0 \<le> user_threadid td then Inr s1 else release_all_thread_locks (t + 1) s1) = Inr s'"
    by (auto simp: trace_function_def andThen_Inr Let_def td1_def)
  have b: "\<not> 0 \<le> user_threadid td \<Longrightarrow> bounded t s"
    using t acquire_all_bounded [OF _ j] by simp
  have le: "lamport_timestamp td \<le> t + 1"
    using t boundedD [OF b td] by (cases "0 \<le> user_threadid td") simp_all
  have k0: "kept s (set_tls p td1 s)"
    using le by (intro kept_set_tls [OF td]) (simp_all add: td1_def core_def)
  have "kept (set_tls p td1 s) s1"
    by (rule touch_buffer_kept(1) [OF s1, of td1])
      (use d k0 in \<open>simp_all add: kept_static td1_def\<close>)
  moreover have "kept s1 s'"
  proof (cases "0 \<le> user_threadid td")
    case False
    have "bounded (t + 1) (set_tls p td1 s)"
      using bounded_mono [OF b [OF False], of "t + 1"] by (simp add: bounded_set_tls td1_def)
    then have "bounded (t + 1) s1" by (rule touch_buffer_bounded [OF s1])
    with s' False show ?thesis by (auto intro: release_all_kept(1))
  qed (use s' in simp)
  ultimately show ?thesis using k0 by (blast intro: kept_trans)
qed

end
