(* ===== verification/Instrument.thy ===== *)
theory Instrument
  imports Handlers
begin

text \<open>
  Where the routines are inserted, and the start of the tool: \<open>Image\<close> and \<open>Instruction\<close> (lines 817
  to 957 of \<open>src/trace/trace.cpp\<close>), \<open>read_trace_functions\<close> (lines 974 to 986) and \<open>main\<close> (lines 1004
  to 1058). What Pin tells of an instruction is the record \<open>ins\<close>; the result is the list of the
  calls Pin will make, in the order of their insertion.
\<close>

section \<open>Instructions\<close>

record ins =
  ins_is_memory_read :: bool
  ins_is_memory_write :: bool
  ins_has_memory_read2 :: bool
  ins_is_atomic_update :: bool
  ins_is_cmpxchg :: bool
  ins_has_fall_through :: bool

datatype ipoint = Before | After

datatype ins_call =
    Insert_Header
  | Insert_Read1
  | Insert_Read2
  | Insert_Write
  | Insert_Acquire
  | Insert_Cas_Footer
  | Insert_Footer
  | Insert_Release

definition instrument_instruction :: "bool \<Rightarrow> ins \<Rightarrow> (ipoint \<times> ins_call) list result" where
  "instrument_instruction log_fails i =
     (if ins_is_memory_read i \<or> ins_is_memory_write i then
        let common =
              [(Before, Insert_Header)] @
              (if ins_is_memory_read i then [(Before, Insert_Read1)] else []) @
              (if ins_has_memory_read2 i then [(Before, Insert_Read2)] else []) @
              (if ins_is_memory_write i then [(Before, Insert_Write)] else []) @
              [(Before, Insert_Acquire)]
        in if \<not> log_fails \<and> ins_is_atomic_update i \<and> ins_is_cmpxchg i then
             if \<not> ins_has_fall_through i then Inl (Assertion ''INS_HasFallThrough(ins)'')
             else if \<not> ins_is_memory_write i then Inl (Assertion ''INS_IsMemoryWrite(ins)'')
             else Inr (common @ [(After, Insert_Cas_Footer), (After, Insert_Footer)])
           else Inr (common @ [(Before, Insert_Footer)])
      else Inr [(Before, Insert_Release)])"

text \<open>
  The arguments Pin computes when an instruction executes: the addresses and sizes of its
  accesses, and the flags after it.
\<close>

record ins_args =
  memoryread_ea :: u64
  memoryread_size :: u64
  memoryread2_ea :: u64
  memorywrite_ea :: u64
  memorywrite_size :: u64
  rflags :: u64

fun ins_call_of :: "int \<Rightarrow> ins_args \<Rightarrow> ins_call \<Rightarrow> call" where
  "ins_call_of p a Insert_Header = Header p"
| "ins_call_of p a Insert_Read1 = Read1 p (memoryread_ea a) (memoryread_size a)"
| "ins_call_of p a Insert_Read2 = Read2 p (memoryread2_ea a)"
| "ins_call_of p a Insert_Write = Write p (memorywrite_ea a) (memorywrite_size a)"
| "ins_call_of p a Insert_Acquire = Acquire p"
| "ins_call_of p a Insert_Cas_Footer = Cas_Footer p (rflags a)"
| "ins_call_of p a Insert_Footer = Footer p"
| "ins_call_of p a Insert_Release = Release p"

definition instruction_calls :: "bool \<Rightarrow> ins \<Rightarrow> int \<Rightarrow> ins_args \<Rightarrow> call list result" where
  "instruction_calls log_fails i p a =
     andThen (instrument_instruction log_fails i) (\<lambda>cs. Inr (map (ins_call_of p a \<circ> snd) cs))"

section \<open>Routines\<close>

text \<open>
  \<open>read_trace_functions\<close>: the lines of the file, each trimmed by \<open>boost::algorithm::trim\<close> (the
  argument). A file that cannot be opened (None) gives no names; otherwise the loop reads up to
  and including the piece after the last newline.
\<close>

fun split_lines :: "string \<Rightarrow> string list" where
  "split_lines [] = [[]]"
| "split_lines (c # cs) =
     (if c = NL then [] # split_lines cs
      else case split_lines cs of [] \<Rightarrow> [[c]] | l # ls \<Rightarrow> (c # l) # ls)"

definition read_trace_functions :: "(string \<Rightarrow> string) \<Rightarrow> string option \<Rightarrow> string list" where
  "read_trace_functions trim content =
     (case content of None \<Rightarrow> [] | Some c \<Rightarrow> map trim (split_lines c))"

datatype rtn_call =
    Insert_Register
  | Insert_Roi bool string
  | Insert_Call string
  | Insert_Return string

definition instrument_routine :: "string list \<Rightarrow> string \<Rightarrow> (ipoint \<times> rtn_call) list" where
  "instrument_routine trace_functions und_func_name =
     (if und_func_name = ''atomic_trace::register_thread''
      then [(Before, Insert_Register)] else []) @
     (if und_func_name = ''atomic_trace::start_roi''
      then [(Before, Insert_Roi True ''start'')] else []) @
     (if und_func_name = ''atomic_trace::end_roi''
      then [(Before, Insert_Roi False ''end'')] else []) @
     (case find (\<lambda>n. n = und_func_name) trace_functions of
        None \<Rightarrow> []
      | Some func_name \<Rightarrow> [(Before, Insert_Call func_name), (After, Insert_Return func_name)])"

section \<open>\<open>main\<close>\<close>

record knobs =
  knob_register_threads :: bool
  knob_require_roi :: bool
  knob_cas_failure_writes :: bool
  knob_accesses_before_flush :: int
  knob_num_address_locks :: u64
  knob_block_size :: u64
  knob_turn_off :: bool
  knob_timestamp_difference :: int

definition default_knobs :: knobs where
  "default_knobs =
     \<lparr>knob_register_threads = False, knob_require_roi = False, knob_cas_failure_writes = False,
      knob_accesses_before_flush = 64, knob_num_address_locks = 64, knob_block_size = 64,
      knob_turn_off = False, knob_timestamp_difference = 1000\<rparr>"

definition tracer_main :: "'b bimap_ops \<Rightarrow> knobs \<Rightarrow> 'b tracer result" where
  "tracer_main bm k =
     (if \<not> is_power_2 (knob_num_address_locks k) then Inl (Assertion ''is_power_2(num_locks)'')
      else if \<not> is_power_2 (knob_block_size k) then Inl (Assertion ''is_power_2(block_size)'')
      else Inr
        \<lparr>in_roi = False, require_roi = knob_require_roi k,
         log_cas_fails = knob_cas_failure_writes k,
         register_threads = knob_register_threads k, turn_off_locks = knob_turn_off k,
         trace_file = [], file_closed = False, last_flushed = bm_empty bm,
         last_flushed_cache = 0, num_threads = 0, pin_threadid_set = [],
         num_locks = knob_num_address_locks k, block_size = knob_block_size k,
         block_size_log = binary_log (knob_block_size k),
         accesses_flush = knob_accesses_before_flush k,
         timestamp_difference = knob_timestamp_difference k,
         address_lock_bank = (\<lambda>_. \<lparr>lock_owner = None, lock_time = 0\<rparr>),
         tls = Map.empty\<rparr>)"

end
