(* ===== verification/Runs.thy ===== *)
theory Runs
  imports Instrument
begin

text \<open>
  Runs of the tracer: sequences of calls of the routines of \<open>src/trace/trace.cpp\<close>, interleaved
  between the threads in any way in which every thread keeps the order that \<open>Instruction\<close>
  inserts its calls in, and in which a call that would wait for a lock does not happen.
\<close>

section \<open>Runs\<close>

text \<open>
  Where a thread is in the sequence of calls of an instruction: outside, after the header,
  between the acquisition of the locks and the footer.
\<close>

datatype phase = Free | Headed | Locked

fun caller :: "call \<Rightarrow> int" where
  "caller (Header p) = p"
| "caller (Read1 p a n) = p"
| "caller (Read2 p a) = p"
| "caller (Write p a n) = p"
| "caller (Acquire p) = p"
| "caller (Cas_Footer p f) = p"
| "caller (Footer p) = p"
| "caller (Release p) = p"
| "caller (Call name p sp a b c) = p"
| "caller (Return name p sp v) = p"
| "caller (Roi p b name) = p"
| "caller (Register p uid) = p"
| "caller (Start g uid p) = p"
| "caller (Fini p) = p"
| "caller (Ctxt_Change p) = p"

fun next_phase :: "call \<Rightarrow> phase \<Rightarrow> phase option" where
  "next_phase (Header p) ph = (if ph = Locked then None else Some Headed)"
| "next_phase (Read1 p a n) ph = (if ph = Headed then Some Headed else None)"
| "next_phase (Read2 p a) ph = (if ph = Headed then Some Headed else None)"
| "next_phase (Write p a n) ph = (if ph = Headed then Some Headed else None)"
| "next_phase (Acquire p) ph = (if ph = Headed then Some Locked else None)"
| "next_phase (Cas_Footer p f) ph = (if ph = Locked then Some Locked else None)"
| "next_phase (Footer p) ph = (if ph = Locked then Some Free else None)"
| "next_phase c ph = (if ph = Locked then None else Some Free)"

text \<open>Pin starts a thread under an id that is not in use.\<close>

fun start_ok :: "call \<Rightarrow> 'b tracer \<Rightarrow> bool" where
  "start_ok (Start g uid p) s = (tls s p = None)"
| "start_ok c s = True"

text \<open>What a footer traces, with the locks the thread holds at that moment.\<close>

record access =
  acc_time :: int
  acc_thread :: int
  acc_user :: int
  acc_event :: event
  acc_locks :: "int list"

fun new_accesses :: "call \<Rightarrow> 'b tracer \<Rightarrow> access list" where
  "new_accesses (Footer p) s =
     (case tls s p of
        None \<Rightarrow> []
      | Some td \<Rightarrow>
          if trace_this_access td
          then [\<lparr>acc_time = access_time td, acc_thread = p, acc_user = user_threadid td,
                 acc_event = access_event td, acc_locks = index_lock_list td\<rparr>]
          else [])"
| "new_accesses c s = []"

record 'b run =
  run_state :: "'b tracer"
  run_phase :: "int \<Rightarrow> phase"
  run_log :: "access list"

inductive run_step :: "'b bimap_ops \<Rightarrow> 'b run \<Rightarrow> call \<Rightarrow> 'b run \<Rightarrow> bool" for bm where
  step: "run_call bm c (run_state r) = Inr s' \<Longrightarrow>
    next_phase c (run_phase r (caller c)) = Some ph \<Longrightarrow> start_ok c (run_state r) \<Longrightarrow>
    run_step bm r c
      \<lparr>run_state = s', run_phase = (run_phase r)(caller c := ph),
       run_log = run_log r @ new_accesses c (run_state r)\<rparr>"

inductive reachable :: "'b bimap_ops \<Rightarrow> knobs \<Rightarrow> 'b run \<Rightarrow> bool" for bm k where
  start: "tracer_main bm k = Inr s \<Longrightarrow>
    reachable bm k \<lparr>run_state = s, run_phase = (\<lambda>_. Free), run_log = []\<rparr>"
| more: "reachable bm k r \<Longrightarrow> run_step bm r c r' \<Longrightarrow> reachable bm k r'"

inductive_cases run_stepE: "run_step bm r c r'"

end
