(* ===== verification/Lock_Invariant.thy ===== *)
theory Lock_Invariant
  imports Tracer_Frames Runs
begin

text \<open>
  The invariant that ties the timestamps of the address locks and of the threads to the times of
  the accesses traced so far, and the calls that keep the locks.
\<close>

section \<open>The invariant\<close>

text \<open>The bytes of an event and the locks of its blocks.\<close>

definition event_indices :: "u64 \<Rightarrow> u64 \<Rightarrow> thread_data \<Rightarrow> int set" where
  "event_indices nl bl td =
     (if is_read td then set (access_indices nl bl (read1_address td) (read_size td)) else {}) \<union>
     (if is_read2 td then set (access_indices nl bl (read2_address td) (read_size td)) else {}) \<union>
     (if is_write td then set (access_indices nl bl (write_address td) (write_size td)) else {})"

text \<open>
  A bound for the times of the accesses that held lock \<open>i\<close>: the lock's timestamp while it is
  free, the timestamp found when it was taken before the holder's footer, and the holder's own
  timestamp after it.
\<close>

definition lock_bound ::
  "(int \<Rightarrow> address_lock) \<Rightarrow> (int \<Rightarrow> thread_data option) \<Rightarrow> (int \<Rightarrow> phase) \<Rightarrow> int \<Rightarrow> int" where
  "lock_bound bank ts ph i =
     (case lock_owner (bank i) of
        None \<Rightarrow> lock_time (bank i)
      | Some p \<Rightarrow>
        (case ts p of
           None \<Rightarrow> lock_time (bank i)
         | Some td \<Rightarrow> if ph p = Locked then max_locked_timestamp td else lamport_timestamp td))"

definition holds_ok ::
  "u64 \<Rightarrow> (int \<Rightarrow> address_lock) \<Rightarrow> (int \<Rightarrow> thread_data option) \<Rightarrow> bool" where
  "holds_ok nl bank ts \<longleftrightarrow>
     (\<forall>p td. ts p = Some td \<longrightarrow> distinct (index_lock_list td) \<and>
        (\<forall>i \<in> set (index_lock_list td). 0 \<le> i \<and> i < sint nl \<and> lock_owner (bank i) = Some p)) \<and>
     (\<forall>i p. lock_owner (bank i) = Some p \<longrightarrow>
        (\<exists>td. ts p = Some td \<and> i \<in> set (index_lock_list td)))"

definition phase_ok ::
  "u64 \<Rightarrow> u64 \<Rightarrow> (int \<Rightarrow> thread_data option) \<Rightarrow> (int \<Rightarrow> phase) \<Rightarrow> bool" where
  "phase_ok nl bl ts ph \<longleftrightarrow>
     (\<forall>p. ts p = None \<longrightarrow> ph p = Free) \<and>
     (\<forall>p td. ts p = Some td \<longrightarrow> ph p = Headed \<longrightarrow> index_lock_list td = []) \<and>
     (\<forall>p td. ts p = Some td \<longrightarrow> ph p = Locked \<longrightarrow>
        (if trace_this_access td then event_indices nl bl td \<subseteq> set (index_lock_list td)
         else index_lock_list td = []))"

definition times_ok ::
  "(int \<Rightarrow> address_lock) \<Rightarrow> (int \<Rightarrow> thread_data option) \<Rightarrow> (int \<Rightarrow> phase) \<Rightarrow> access list \<Rightarrow> bool" where
  "times_ok bank ts ph log \<longleftrightarrow>
     (\<forall>a \<in> set log. \<forall>i \<in> set (acc_locks a). acc_time a \<le> lock_bound bank ts ph i)"

definition ordered :: "access list \<Rightarrow> bool" where
  "ordered log \<longleftrightarrow>
     sorted_wrt (\<lambda>a b. set (acc_locks a) \<inter> set (acc_locks b) \<noteq> {} \<longrightarrow> acc_time a < acc_time b) log"

definition atom_inv ::
  "u64 \<Rightarrow> u64 \<Rightarrow> (int \<Rightarrow> address_lock) \<Rightarrow> (int \<Rightarrow> thread_data option) \<Rightarrow> (int \<Rightarrow> phase) \<Rightarrow>
   access list \<Rightarrow> bool" where
  "atom_inv nl bl bank ts ph log \<longleftrightarrow>
     holds_ok nl bank ts \<and> phase_ok nl bl ts ph \<and> times_ok bank ts ph log \<and> ordered log"

text \<open>The threads Pin has started and not ended are those with data.\<close>

definition threads_ok :: "'b tracer \<Rightarrow> bool" where
  "threads_ok s \<longleftrightarrow> (\<forall>p. p \<in> set (pin_threadid_set s) \<longleftrightarrow> tls s p \<noteq> None) \<and>
     distinct (pin_threadid_set s) \<and>
     (\<forall>p td. tls s p = Some td \<longrightarrow> 0 \<le> lamport_timestamp td)"

abbreviation state_inv :: "'b tracer \<Rightarrow> (int \<Rightarrow> phase) \<Rightarrow> access list \<Rightarrow> bool" where
  "state_inv s ph log \<equiv>
     atom_inv (num_locks s) (block_size_log s) (address_lock_bank s) (tls s) ph log \<and> threads_ok s"

section \<open>Calls that keep the locks\<close>

text \<open>A thread's locks and flags stay and timestamps only grow: every part of the invariant stays.\<close>

definition grows :: "(int \<Rightarrow> thread_data option) \<Rightarrow> (int \<Rightarrow> thread_data option) \<Rightarrow> bool" where
  "grows ts ts' \<longleftrightarrow> (\<forall>q. thread_kept (ts q) (ts' q))"

lemma grows_None: "grows ts ts' \<Longrightarrow> ts' q = None \<longleftrightarrow> ts q = None"
  by (cases "ts q"; cases "ts' q") (auto simp: grows_def thread_kept_def dest!: spec [of _ q])

lemma grows_Some:
  assumes "grows ts ts'" "ts q = Some td"
  obtains td' where "ts' q = Some td'" "core td' = core td"
    "lamport_timestamp td \<le> lamport_timestamp td'"
proof -
  have "thread_kept (Some td) (ts' q)" using assms unfolding grows_def by metis
  with that show thesis unfolding thread_kept_Some by blast
qed

lemma grows_back:
  assumes "grows ts ts'" "ts' q = Some td'"
  obtains td where "ts q = Some td" "core td' = core td"
    "lamport_timestamp td \<le> lamport_timestamp td'"
proof (cases "ts q")
  case None
  then have "ts' q = None" using grows_None [OF assms(1)] by simp
  with assms(2) show thesis by simp
next
  case (Some td)
  from grows_Some [OF assms(1) this] assms(2) Some that show thesis by auto
qed

lemma event_indices_core: "core td' = core td \<Longrightarrow> event_indices nl bl td' = event_indices nl bl td"
  unfolding event_indices_def by (simp only: core_fields [where td' = td' and td = td])

lemma holds_ok_grows:
  assumes inv: "holds_ok nl bank ts" and g: "grows ts ts'"
  shows "holds_ok nl bank ts'"
  unfolding holds_ok_def
proof (intro conjI allI impI)
  fix q td' assume "ts' q = Some td'"
  then obtain td where td: "ts q = Some td" "core td' = core td" by (rule grows_back [OF g])
  from inv td(1) core_fields(2) [OF td(2)] show "distinct (index_lock_list td')"
    "\<forall>i \<in> set (index_lock_list td'). 0 \<le> i \<and> i < sint nl \<and> lock_owner (bank i) = Some q"
    by (simp_all add: holds_ok_def)
next
  fix i q assume "lock_owner (bank i) = Some q"
  with inv obtain td where td: "ts q = Some td" "i \<in> set (index_lock_list td)"
    unfolding holds_ok_def by blast
  from grows_Some [OF g td(1)] obtain td' where td': "ts' q = Some td'" "core td' = core td" by metis
  with td(2) core_fields(2) [OF td'(2)]
  show "\<exists>td. ts' q = Some td \<and> i \<in> set (index_lock_list td)" by simp
qed

lemma phase_ok_grows:
  assumes inv: "phase_ok nl bl ts ph" and g: "grows ts ts'"
  shows "phase_ok nl bl ts' ph"
  unfolding phase_ok_def
proof (intro conjI allI impI)
  fix q assume "ts' q = None"
  with inv show "ph q = Free" by (simp add: phase_ok_def grows_None [OF g])
next
  fix q td' assume "ts' q = Some td'" and h: "ph q = Headed"
  then obtain td where td: "ts q = Some td" "core td' = core td" by (metis grows_back [OF g])
  from inv h td(1) show "index_lock_list td' = []"
    unfolding core_fields(2) [OF td(2)] by (simp add: phase_ok_def)
next
  fix q td' assume "ts' q = Some td'" and h: "ph q = Locked"
  then obtain td where td: "ts q = Some td" "core td' = core td" by (metis grows_back [OF g])
  from inv h td(1) show "if trace_this_access td'
      then event_indices nl bl td' \<subseteq> set (index_lock_list td') else index_lock_list td' = []"
    unfolding core_fields(2,3) [OF td(2)] event_indices_core [OF td(2)] by (simp add: phase_ok_def)
qed

lemma times_ok_mono:
  assumes "times_ok bank ts ph log" "\<And>i. lock_bound bank ts ph i \<le> lock_bound bank' ts' ph' i"
  shows "times_ok bank' ts' ph' log"
  using assms unfolding times_ok_def by (meson order_trans)

lemma lock_bound_grows:
  assumes g: "grows ts ts'"
  shows "lock_bound bank ts ph i \<le> lock_bound bank ts' ph i"
proof (cases "lock_owner (bank i)")
  case (Some q)
  show ?thesis
  proof (cases "ts q")
    case None
    then have "ts' q = None" using g by (simp add: grows_None)
    with None Some show ?thesis by (simp add: lock_bound_def)
  next
    case td: (Some td)
    from grows_Some [OF g td] obtain td' where td': "ts' q = Some td'" "core td' = core td"
      "lamport_timestamp td \<le> lamport_timestamp td'" by metis
    with td Some core_fields(12) [OF td'(2)] show ?thesis by (simp add: lock_bound_def)
  qed
qed (simp add: lock_bound_def)

lemma atom_inv_grows:
  assumes inv: "atom_inv nl bl bank ts ph log" and g: "grows ts ts'"
  shows "atom_inv nl bl bank ts' ph log"
proof -
  have "times_ok bank ts' ph log"
    using inv lock_bound_grows [OF g] unfolding atom_inv_def by (blast intro: times_ok_mono)
  with inv show ?thesis
    by (simp add: atom_inv_def holds_ok_grows [OF _ g] phase_ok_grows [OF _ g])
qed

lemma kept_grows: "kept s s' \<Longrightarrow> grows (tls s) (tls s')"
  by (simp add: kept_def grows_def)

lemma threads_ok_kept:
  assumes k: "kept s s'" and t: "threads_ok s"
  shows "threads_ok s'"
proof -
  note g = kept_grows [OF k]
  have "0 \<le> lamport_timestamp td'" if q: "tls s' q = Some td'" for q td'
  proof -
    from grows_back [OF g q] obtain td where "tls s q = Some td"
      "lamport_timestamp td \<le> lamport_timestamp td'" by metis
    moreover from this(1) t have "0 \<le> lamport_timestamp td" by (simp add: threads_ok_def)
    ultimately show ?thesis by simp
  qed
  with t show ?thesis
    by (simp add: threads_ok_def kept_static [OF k] grows_None [OF g])
qed

lemma state_inv_kept:
  assumes k: "kept s s'" and inv: "state_inv s ph log"
  shows "state_inv s' ph log"
  using inv atom_inv_grows [OF _ kept_grows [OF k]] threads_ok_kept [OF k]
  by (simp add: kept_static [OF k])

end
