(* ===== verification/Lock_Steps.thy ===== *)
theory Lock_Steps
  imports Lock_Invariant
begin

text \<open>
  The changes that the calls make to locks, threads, phases and log, each with the invariant: a
  thread that holds nothing, taking locks, giving them back, a failed compare-and-swap, a footer.
\<close>

section \<open>A thread that holds no lock\<close>

definition idle :: "thread_data option \<Rightarrow> bool" where
  "idle t \<longleftrightarrow> (case t of None \<Rightarrow> True | Some td \<Rightarrow> index_lock_list td = [])"

lemma idle_simps [simp]: "idle None" "idle (Some td) \<longleftrightarrow> index_lock_list td = []"
  by (simp_all add: idle_def)

lemma idle_owns_none:
  assumes "holds_ok nl bank ts" "idle (ts p)"
  shows "lock_owner (bank i) \<noteq> Some p"
proof
  assume "lock_owner (bank i) = Some p"
  with assms(1) obtain td where "ts p = Some td" "i \<in> set (index_lock_list td)"
    unfolding holds_ok_def by blast
  with assms(2) show False by simp
qed

lemma holds_ok_idle:
  assumes inv: "holds_ok nl bank ts" and i: "idle (ts p)" "idle t'"
  shows "holds_ok nl bank (ts(p := t'))"
  unfolding holds_ok_def
proof (intro conjI allI impI)
  fix q td assume q: "(ts(p := t')) q = Some td"
  have "distinct (index_lock_list td) \<and>
      (\<forall>i \<in> set (index_lock_list td). 0 \<le> i \<and> i < sint nl \<and> lock_owner (bank i) = Some q)"
  proof (cases "q = p")
    case True
    with q i(2) show ?thesis by simp
  next
    case False
    with q inv show ?thesis by (simp add: holds_ok_def)
  qed
  then show "distinct (index_lock_list td)"
    "\<forall>i \<in> set (index_lock_list td). 0 \<le> i \<and> i < sint nl \<and> lock_owner (bank i) = Some q"
    by simp_all
next
  fix i q assume q: "lock_owner (bank i) = Some q"
  with idle_owns_none [OF inv i(1), of i] have "q \<noteq> p" by blast
  with q inv show "\<exists>td. (ts(p := t')) q = Some td \<and> i \<in> set (index_lock_list td)"
    by (simp add: holds_ok_def)
qed

lemma lock_bound_other:
  "lock_owner (bank i) \<noteq> Some p \<Longrightarrow> lock_bound bank (ts(p := t')) (ph(p := x)) i = lock_bound bank ts ph i"
  by (auto simp: lock_bound_def split: option.splits)

lemma atom_inv_idle:
  assumes inv: "atom_inv nl bl bank ts ph log" and i: "idle (ts p)" "idle t'"
    and x: "t' = None \<Longrightarrow> x = Free" "\<And>td'. t' = Some td' \<Longrightarrow> x = Locked \<Longrightarrow> \<not> trace_this_access td'"
  shows "atom_inv nl bl bank (ts(p := t')) (ph(p := x)) log"
proof -
  have h: "holds_ok nl bank ts" using inv by (simp add: atom_inv_def)
  have "phase_ok nl bl (ts(p := t')) (ph(p := x))"
    using inv i x by (auto simp: atom_inv_def phase_ok_def)
  moreover have "times_ok bank (ts(p := t')) (ph(p := x)) log"
  proof (rule times_ok_mono)
    show "times_ok bank ts ph log" using inv by (simp add: atom_inv_def)
    show "lock_bound bank ts ph j \<le> lock_bound bank (ts(p := t')) (ph(p := x)) j" for j
      by (simp add: lock_bound_other [OF idle_owns_none [OF h i(1)]])
  qed
  ultimately show ?thesis using inv holds_ok_idle [OF h i] by (simp add: atom_inv_def)
qed

section \<open>Releasing\<close>

definition freed :: "int list \<Rightarrow> int \<Rightarrow> (int \<Rightarrow> address_lock) \<Rightarrow> int \<Rightarrow> address_lock" where
  "freed ixs t bank = (\<lambda>i. if i \<in> set ixs then \<lparr>lock_owner = None, lock_time = t\<rparr> else bank i)"

lemma freed_simps [simp]: "freed [] t bank = bank"
  "i \<in> set ixs \<Longrightarrow> freed ixs t bank i = \<lparr>lock_owner = None, lock_time = t\<rparr>"
  "i \<notin> set ixs \<Longrightarrow> freed ixs t bank i = bank i"
  by (simp_all add: freed_def)

lemma freed_Cons:
  "freed ixs t (bank(idx := (bank idx)\<lparr>lock_time := t, lock_owner := None\<rparr>)) = freed (idx # ixs) t bank"
  by (rule ext) (simp add: freed_def)

lemma unlock_all_result:
  "unlock_all p t ixs s = Inr s' \<Longrightarrow>
   s' = s\<lparr>address_lock_bank := freed ixs t (address_lock_bank s)\<rparr>"
proof (induction ixs arbitrary: s)
  case (Cons idx ixs)
  then have "unlock_all p t ixs
      (s\<lparr>address_lock_bank := (address_lock_bank s)
         (idx := (address_lock_bank s idx)\<lparr>lock_time := t, lock_owner := None\<rparr>)\<rparr>) = Inr s'"
    by (auto simp: andThen_Inr unlock_address_def split: if_splits)
  from Cons.IH [OF this] show ?case by (simp add: freed_Cons [symmetric] fun_upd_def)
qed simp

lemma unlock_all_ok:
  "distinct ixs \<Longrightarrow>
   (\<And>i. i \<in> set ixs \<Longrightarrow> 0 \<le> i \<and> i < sint (num_locks s) \<and> lock_owner (address_lock_bank s i) = Some p) \<Longrightarrow>
   unlock_all p t ixs s = Inr (s\<lparr>address_lock_bank := freed ixs t (address_lock_bank s)\<rparr>)"
proof (induction ixs arbitrary: s)
  case (Cons idx ixs)
  let ?s = "s\<lparr>address_lock_bank := (address_lock_bank s)
         (idx := (address_lock_bank s idx)\<lparr>lock_time := t, lock_owner := None\<rparr>)\<rparr>"
  have "unlock_all p t ixs ?s = Inr (?s\<lparr>address_lock_bank := freed ixs t (address_lock_bank ?s)\<rparr>)"
    using Cons.prems by (intro Cons.IH) auto
  moreover have "unlock_address p idx (s\<lparr>address_lock_bank := (address_lock_bank s)
      (idx := (address_lock_bank s idx)\<lparr>lock_time := t\<rparr>)\<rparr>) = Inr ?s"
    using Cons.prems(2) [of idx] by (simp add: unlock_address_def)
  ultimately show ?case by (simp add: freed_Cons)
qed simp

lemma release_result:
  assumes "release_address_locks p s = Inr s'"
  obtains td where "tls s p = Some td"
    "s' = set_tls p (td\<lparr>index_lock_list := []\<rparr>)
       (s\<lparr>address_lock_bank :=
          freed (index_lock_list td) (lamport_timestamp td) (address_lock_bank s)\<rparr>)"
proof -
  from assms obtain td s1 where "tls s p = Some td"
    "unlock_all p (lamport_timestamp td) (index_lock_list td) s = Inr s1"
    "s' = set_tls p (td\<lparr>index_lock_list := []\<rparr>) s1"
    by (auto simp: release_address_locks_def andThen_Inr get_tls_Inr)
  with unlock_all_result [OF this(2)] that show thesis by blast
qed

lemma release_ok:
  assumes "holds_ok (num_locks s) (address_lock_bank s) (tls s)" "tls s p = Some td"
  shows "release_address_locks p s =
    Inr (set_tls p (td\<lparr>index_lock_list := []\<rparr>)
      (s\<lparr>address_lock_bank :=
         freed (index_lock_list td) (lamport_timestamp td) (address_lock_bank s)\<rparr>))"
proof -
  have "unlock_all p (lamport_timestamp td) (index_lock_list td) s = Inr (s\<lparr>address_lock_bank :=
      freed (index_lock_list td) (lamport_timestamp td) (address_lock_bank s)\<rparr>)"
    using assms by (intro unlock_all_ok) (auto simp: holds_ok_def)
  with assms(2) show ?thesis by (simp add: release_address_locks_def)
qed

lemma holds_ok_freed:
  assumes inv: "holds_ok nl bank ts" and td: "ts p = Some td"
  shows "holds_ok nl (freed (index_lock_list td) t bank) (ts(p \<mapsto> td\<lparr>index_lock_list := []\<rparr>))"
    (is "holds_ok nl ?bank ?ts")
  unfolding holds_ok_def
proof (intro conjI allI impI)
  fix q td' assume q: "?ts q = Some td'"
  have "distinct (index_lock_list td') \<and>
      (\<forall>i \<in> set (index_lock_list td'). 0 \<le> i \<and> i < sint nl \<and> lock_owner (?bank i) = Some q)"
  proof (cases "q = p")
    case True
    with q show ?thesis by auto
  next
    case False
    with q have q': "ts q = Some td'" by simp
    have "i \<notin> set (index_lock_list td)" if "i \<in> set (index_lock_list td')" for i
    proof
      assume "i \<in> set (index_lock_list td)"
      with inv td have "lock_owner (bank i) = Some p" unfolding holds_ok_def by blast
      moreover from that inv q' have "lock_owner (bank i) = Some q" unfolding holds_ok_def by blast
      ultimately show False using False by simp
    qed
    with inv q' show ?thesis by (simp add: holds_ok_def)
  qed
  then show "distinct (index_lock_list td')"
    "\<forall>i \<in> set (index_lock_list td'). 0 \<le> i \<and> i < sint nl \<and> lock_owner (?bank i) = Some q"
    by blast+
next
  fix i q assume q: "lock_owner (?bank i) = Some q"
  then have i: "i \<notin> set (index_lock_list td)" "lock_owner (bank i) = Some q"
    by (auto simp: freed_def split: if_splits)
  with inv obtain td' where "ts q = Some td'" "i \<in> set (index_lock_list td')"
    unfolding holds_ok_def by blast
  with i(1) td show "\<exists>td. ?ts q = Some td \<and> i \<in> set (index_lock_list td)" by auto
qed

lemma lock_bound_freed:
  assumes inv: "holds_ok nl bank ts" and td: "ts p = Some td" and ph: "ph p \<noteq> Locked"
  shows "lock_bound (freed (index_lock_list td) (lamport_timestamp td) bank)
      (ts(p \<mapsto> td\<lparr>index_lock_list := []\<rparr>)) ph i = lock_bound bank ts ph i"
proof (cases "i \<in> set (index_lock_list td)")
  case True
  with inv td have "lock_owner (bank i) = Some p" unfolding holds_ok_def by blast
  with True td ph show ?thesis by (simp add: lock_bound_def)
next
  case False
  have "lock_owner (bank i) \<noteq> Some p"
  proof
    assume "lock_owner (bank i) = Some p"
    with inv obtain td' where "ts p = Some td'" "i \<in> set (index_lock_list td')"
      unfolding holds_ok_def by blast
    with td False show False by simp
  qed
  note lock_bound_other [where bank = bank and i = i and p = p and ts = ts and ph = ph and
      x = "ph p" and t' = "Some (td\<lparr>index_lock_list := []\<rparr>)", OF this]
  then have "lock_bound bank (ts(p \<mapsto> td\<lparr>index_lock_list := []\<rparr>)) ph i = lock_bound bank ts ph i"
    by simp
  moreover have f: "freed (index_lock_list td) (lamport_timestamp td) bank i = bank i"
    using False by simp
  ultimately show ?thesis unfolding lock_bound_def f by blast
qed

lemma atom_inv_freed:
  assumes inv: "atom_inv nl bl bank ts ph log" and td: "ts p = Some td" and ph: "ph p \<noteq> Locked"
  shows "atom_inv nl bl (freed (index_lock_list td) (lamport_timestamp td) bank)
    (ts(p \<mapsto> td\<lparr>index_lock_list := []\<rparr>)) ph log"
proof -
  have h: "holds_ok nl bank ts" using inv by (simp add: atom_inv_def)
  note b = lock_bound_freed [where bank = bank and ts = ts and p = p and ph = ph, OF h td ph]
  have "phase_ok nl bl (ts(p \<mapsto> td\<lparr>index_lock_list := []\<rparr>)) ph"
    using inv td ph by (auto simp: atom_inv_def phase_ok_def)
  moreover have "times_ok (freed (index_lock_list td) (lamport_timestamp td) bank)
      (ts(p \<mapsto> td\<lparr>index_lock_list := []\<rparr>)) ph log"
    by (rule times_ok_mono [of bank ts ph log]) (use inv b in \<open>simp_all add: atom_inv_def\<close>)
  ultimately show ?thesis using inv holds_ok_freed [OF h td] by (simp add: atom_inv_def)
qed

section \<open>Taking locks\<close>

definition taken :: "int list \<Rightarrow> int \<Rightarrow> (int \<Rightarrow> address_lock) \<Rightarrow> int \<Rightarrow> address_lock" where
  "taken ixs p bank = (\<lambda>i. if i \<in> set ixs then (bank i)\<lparr>lock_owner := Some p\<rparr> else bank i)"

lemma taken_simps [simp]: "taken [] p bank = bank"
  "lock_owner (taken ixs p bank i) = (if i \<in> set ixs then Some p else lock_owner (bank i))"
  "lock_time (taken ixs p bank i) = lock_time (bank i)"
  by (simp_all add: taken_def)

lemma taken_Cons:
  "taken ixs p (bank(idx := (bank idx)\<lparr>lock_owner := Some p\<rparr>)) = taken (idx # ixs) p bank"
  by (rule ext) (simp add: taken_def)

lemma lock_all_result:
  "lock_all p ixs m s = Inr (t, s') \<Longrightarrow>
   s' = s\<lparr>address_lock_bank := taken ixs p (address_lock_bank s)\<rparr> \<and> m \<le> t \<and> distinct ixs \<and>
   (\<forall>i \<in> set ixs. 0 \<le> i \<and> i < sint (num_locks s) \<and>
      lock_owner (address_lock_bank s i) = None \<and> lock_time (address_lock_bank s i) \<le> t)"
proof (induction ixs arbitrary: m s)
  case (Cons idx ixs)
  let ?s = "s\<lparr>address_lock_bank := (address_lock_bank s)
         (idx := (address_lock_bank s idx)\<lparr>lock_owner := Some p\<rparr>)\<rparr>"
  from Cons.prems have idx: "0 \<le> idx" "idx < sint (num_locks s)"
      "lock_owner (address_lock_bank s idx) = None"
    and run: "lock_all p ixs (if lock_time (address_lock_bank s idx) < m then m
          else lock_time (address_lock_bank s idx)) ?s = Inr (t, s')"
    by (auto simp: andThen_Inr lock_address_def split: if_splits)
  note IH = Cons.IH [OF run]
  have "s' = s\<lparr>address_lock_bank := taken (idx # ixs) p (address_lock_bank s)\<rparr>"
    using IH by (simp add: taken_Cons [symmetric] fun_upd_def)
  moreover have n: "idx \<notin> set ixs" using IH by fastforce
  moreover have "m \<le> t \<and> lock_time (address_lock_bank s idx) \<le> t"
    using IH by (auto split: if_splits)
  moreover have "0 \<le> i \<and> i < sint (num_locks s) \<and>
      lock_owner (address_lock_bank s i) = None \<and> lock_time (address_lock_bank s i) \<le> t"
    if "i \<in> set ixs" for i
  proof -
    from that n have "i \<noteq> idx" by blast
    with IH that show ?thesis by auto
  qed
  ultimately show ?case using idx IH by auto
qed simp

lemma atom_inv_taken:
  assumes inv: "atom_inv nl bl bank ts ph log" and td: "ts p = Some td" "index_lock_list td = []"
    and d: "distinct ixs"
    and free: "\<And>i. i \<in> set ixs \<Longrightarrow> 0 \<le> i \<and> i < sint nl \<and> lock_owner (bank i) = None \<and> lock_time (bank i) \<le> t"
    and td': "index_lock_list td' = ixs" "max_locked_timestamp td' = t" "trace_this_access td'"
      "event_indices nl bl td' \<subseteq> set ixs"
  shows "atom_inv nl bl (taken ixs p bank) (ts(p \<mapsto> td')) (ph(p := Locked)) log"
proof -
  let ?bank = "taken ixs p bank" and ?ts = "ts(p \<mapsto> td')" and ?ph = "ph(p := Locked)"
  have h: "holds_ok nl bank ts" using inv by (simp add: atom_inv_def)
  have none: "lock_owner (bank i) \<noteq> Some p" for i
    using idle_owns_none [where p = p, OF h] td by simp
  have "holds_ok nl ?bank ?ts"
    unfolding holds_ok_def
  proof (intro conjI allI impI)
    fix q td2 assume q: "?ts q = Some td2"
    have "distinct (index_lock_list td2) \<and>
        (\<forall>i \<in> set (index_lock_list td2). 0 \<le> i \<and> i < sint nl \<and> lock_owner (?bank i) = Some q)"
    proof (cases "q = p")
      case True
      with q td' d free show ?thesis by auto
    next
      case False
      with q have q': "ts q = Some td2" by simp
      have "i \<notin> set ixs" if "i \<in> set (index_lock_list td2)" for i
      proof
        assume "i \<in> set ixs"
        with free have "lock_owner (bank i) = None" by blast
        moreover from that h q' have "lock_owner (bank i) = Some q" unfolding holds_ok_def by blast
        ultimately show False by simp
      qed
      with h q' show ?thesis by (simp add: holds_ok_def)
    qed
    then show "distinct (index_lock_list td2)"
      "\<forall>i \<in> set (index_lock_list td2). 0 \<le> i \<and> i < sint nl \<and> lock_owner (?bank i) = Some q"
      by blast+
  next
    fix i q assume q: "lock_owner (?bank i) = Some q"
    show "\<exists>td. ?ts q = Some td \<and> i \<in> set (index_lock_list td)"
    proof (cases "i \<in> set ixs")
      case True
      with q td' show ?thesis by simp
    next
      case False
      with q have "lock_owner (bank i) = Some q" by simp
      moreover from this none have "q \<noteq> p" by blast
      ultimately show ?thesis using h by (simp add: holds_ok_def)
    qed
  qed
  moreover have "phase_ok nl bl ?ts ?ph"
    using inv td' by (auto simp: atom_inv_def phase_ok_def)
  moreover have "times_ok ?bank ?ts ?ph log"
  proof (rule times_ok_mono)
    show "times_ok bank ts ph log" using inv by (simp add: atom_inv_def)
    fix i
    show "lock_bound bank ts ph i \<le> lock_bound ?bank ?ts ?ph i"
    proof (cases "i \<in> set ixs")
      case True
      with free [OF True] td' show ?thesis by (simp add: lock_bound_def)
    next
      case False
      then have f: "?bank i = bank i" by (simp add: taken_def)
      have "lock_bound ?bank ?ts ?ph i = lock_bound bank ?ts ?ph i"
        unfolding lock_bound_def f by (rule refl)
      also have "\<dots> = lock_bound bank ts ph i" by (rule lock_bound_other [OF none])
      finally show ?thesis by simp
    qed
  qed
  ultimately show ?thesis using inv by (simp add: atom_inv_def)
qed

section \<open>Between the acquisition and the footer\<close>

text \<open>A failed compare-and-swap drops the write: fewer blocks, the same locks.\<close>

lemma atom_inv_fewer:
  assumes inv: "atom_inv nl bl bank ts ph log" and td: "ts p = Some td" and ph: "ph p = Locked"
    and td': "index_lock_list td' = index_lock_list td"
      "max_locked_timestamp td' = max_locked_timestamp td"
      "trace_this_access td' = trace_this_access td"
      "event_indices nl bl td' \<subseteq> event_indices nl bl td"
  shows "atom_inv nl bl bank (ts(p \<mapsto> td')) ph log"
proof -
  have "holds_ok nl bank (ts(p \<mapsto> td'))"
    using inv td td'(1)
    by (auto simp: atom_inv_def holds_ok_def) (metis option.inject)
  moreover have "if trace_this_access td then event_indices nl bl td \<subseteq> set (index_lock_list td)
      else index_lock_list td = []"
    using inv td ph by (simp add: atom_inv_def phase_ok_def)
  then have "if trace_this_access td' then event_indices nl bl td' \<subseteq> set (index_lock_list td')
      else index_lock_list td' = []"
    using td' by (cases "trace_this_access td") simp_all
  then have "phase_ok nl bl (ts(p \<mapsto> td')) ph"
    using inv ph by (simp add: atom_inv_def phase_ok_def)
  moreover have "lock_bound bank (ts(p \<mapsto> td')) ph i = lock_bound bank ts ph i" for i
    using td td'(2) ph by (simp add: lock_bound_def split: option.split)
  then have "times_ok bank (ts(p \<mapsto> td')) ph log"
    using inv times_ok_mono [of bank ts ph log] by (simp add: atom_inv_def)
  ultimately show ?thesis using inv by (simp add: atom_inv_def)
qed

text \<open>
  A footer: the access takes a time beyond everything that held one of its locks, and the thread
  moves to that time.
\<close>

lemma atom_inv_footer:
  assumes inv: "atom_inv nl bl bank ts ph log" and td: "ts p = Some td" and ph: "ph p = Locked"
    and a: "set (acc_locks a) = set (index_lock_list td)" "max_locked_timestamp td < acc_time a"
      "acc_time a \<le> lamport_timestamp td"
  shows "atom_inv nl bl bank ts (ph(p := Free)) (log @ [a])"
proof -
  have h: "holds_ok nl bank ts" and t: "times_ok bank ts ph log"
    using inv by (simp_all add: atom_inv_def)
  have own: "lock_owner (bank i) = Some p" if "i \<in> set (acc_locks a)" for i
    using h td that a(1) by (simp add: holds_ok_def)
  have mono: "lock_bound bank ts ph i \<le> lock_bound bank ts (ph(p := Free)) i" for i
    using td ph a(2,3) by (simp add: lock_bound_def split: option.split)
  have "acc_time a \<le> lock_bound bank ts (ph(p := Free)) i" if "i \<in> set (acc_locks a)" for i
    using own [OF that] td a(3) by (simp add: lock_bound_def)
  then have "times_ok bank ts (ph(p := Free)) (log @ [a])"
    using times_ok_mono [OF t mono] by (auto simp: times_ok_def)
  moreover have "acc_time b < acc_time a"
    if b: "b \<in> set log" and i: "i \<in> set (acc_locks b)" "i \<in> set (acc_locks a)" for b i
  proof -
    have "acc_time b \<le> lock_bound bank ts ph i" using t b i(1) by (simp add: times_ok_def)
    also have "\<dots> = max_locked_timestamp td"
      using own [OF i(2)] td ph by (simp add: lock_bound_def)
    finally show ?thesis using a(2) by simp
  qed
  then have "ordered (log @ [a])"
    using inv unfolding atom_inv_def ordered_def sorted_wrt_append by auto
  moreover have "phase_ok nl bl ts (ph(p := Free))"
    using inv by (auto simp: atom_inv_def phase_ok_def)
  ultimately show ?thesis using h by (simp add: atom_inv_def)
qed

end
