(* ===== verification/Atomicity.thy ===== *)
theory Atomicity
  imports Lock_Steps
begin

text \<open>
  The promise of the tool: accesses that touch a common byte are traced in the order in which
  they held the lock of its block, with increasing times. Every call keeps the invariant, so it
  holds in every reachable state.
\<close>

section \<open>Every call keeps the invariant\<close>

definition config :: "'b tracer \<Rightarrow> u64 \<times> u64 \<times> int \<times> bool" where
  "config s = (num_locks s, block_size_log s, timestamp_difference s, turn_off_locks s)"

definition keeps_inv :: "'b tracer \<Rightarrow> 'b tracer \<Rightarrow> (int \<Rightarrow> phase) \<Rightarrow> access list \<Rightarrow> bool" where
  "keeps_inv s s' ph log \<longleftrightarrow> state_inv s' ph log \<and> config s' = config s"

lemma keeps_inv_kept: "kept s s' \<Longrightarrow> state_inv s ph log \<Longrightarrow> keeps_inv s s' ph log"
  using state_inv_kept [of s s' ph log] by (simp add: keeps_inv_def config_def kept_static)

lemma keeps_inv_trans: "keeps_inv s s1 ph1 log1 \<Longrightarrow> keeps_inv s1 s2 ph log \<Longrightarrow> keeps_inv s s2 ph log"
  by (simp add: keeps_inv_def)

lemma threads_ok_set_tls:
  "threads_ok s \<Longrightarrow> tls s p = Some td \<Longrightarrow> 0 \<le> lamport_timestamp td' \<Longrightarrow> threads_ok (set_tls p td' s)"
  by (auto simp: threads_ok_def set_tls_def)

lemma threads_ok_time: "threads_ok s \<Longrightarrow> tls s p = Some td \<Longrightarrow> 0 \<le> lamport_timestamp td"
  by (simp add: threads_ok_def)

lemma threads_ok_bank: "threads_ok (s\<lparr>address_lock_bank := b\<rparr>) \<longleftrightarrow> threads_ok s"
  by (simp add: threads_ok_def)

lemma threads_ok_joined: "threads_ok s \<Longrightarrow> joined s"
  by (auto simp: threads_ok_def joined_def)

lemma keeps_inv_idle:
  assumes inv: "state_inv s ph log" and td: "tls s p = Some td" "index_lock_list td = []"
    and td': "index_lock_list td' = []" "lamport_timestamp td \<le> lamport_timestamp td'"
      "x = Locked \<Longrightarrow> \<not> trace_this_access td'"
  shows "keeps_inv s (set_tls p td' s) (ph(p := x)) log"
proof -
  have "0 \<le> lamport_timestamp td'" using inv td td' threads_ok_time [of s p td] by simp
  then have "threads_ok (set_tls p td' s)" using inv td by (blast intro: threads_ok_set_tls)
  moreover have "atom_inv (num_locks s) (block_size_log s) (address_lock_bank s)
      ((tls s)(p \<mapsto> td')) (ph(p := x)) log"
    using inv td td' by (intro atom_inv_idle) auto
  ultimately show ?thesis by (simp add: keeps_inv_def config_def set_tls_def)
qed

lemma release_keeps:
  assumes run: "release_address_locks p s = Inr s'" and inv: "state_inv s ph log"
    and ph: "ph p \<noteq> Locked"
  shows "keeps_inv s s' ph log"
    and "\<exists>td. tls s' p = Some td \<and> index_lock_list td = []"
proof -
  from run obtain td where td: "tls s p = Some td"
    and s': "s' = set_tls p (td\<lparr>index_lock_list := []\<rparr>) (s\<lparr>address_lock_bank :=
      freed (index_lock_list td) (lamport_timestamp td) (address_lock_bank s)\<rparr>)"
    by (rule release_result)
  have "threads_ok s'"
    unfolding s' using inv td threads_ok_time [of s p td]
    by (intro threads_ok_set_tls) (simp_all add: threads_ok_bank)
  moreover have "atom_inv (num_locks s) (block_size_log s)
      (freed (index_lock_list td) (lamport_timestamp td) (address_lock_bank s))
      ((tls s)(p \<mapsto> td\<lparr>index_lock_list := []\<rparr>)) ph log"
    using inv td ph by (intro atom_inv_freed) simp_all
  ultimately show "keeps_inv s s' ph log"
    by (simp add: keeps_inv_def config_def s' set_tls_def)
  show "\<exists>td. tls s' p = Some td \<and> index_lock_list td = []" by (simp add: s')
qed

lemma header_keeps:
  assumes run: "memory_access_header_a p s = Inr s'" and inv: "state_inv s ph log"
    and ph: "ph p \<noteq> Locked"
  shows "keeps_inv s s' (ph(p := Headed)) log"
proof -
  from run obtain s1 where s1: "release_address_locks p s = Inr s1"
    by (auto simp: memory_access_header_a_def andThen_Inr)
  note rel = release_keeps [OF s1 inv ph]
  from rel(2) obtain td where td: "tls s1 p = Some td" "index_lock_list td = []" by blast
  have s': "s' = set_tls p (td\<lparr>trace_this_access := (in_roi s1 \<or> \<not> require_roi s1) \<and> 0 \<le> user_threadid td,
      is_read := False, is_read2 := False, is_write := False\<rparr>) s1"
    using run s1 td by (simp add: memory_access_header_a_def)
  have "keeps_inv s1 s' (ph(p := Headed)) log"
    unfolding s' using rel(1) td by (intro keeps_inv_idle [where td = td]) (simp_all add: keeps_inv_def)
  with rel(1) show ?thesis by (rule keeps_inv_trans)
qed

lemma headed_idle:
  "state_inv s ph log \<Longrightarrow> ph p = Headed \<Longrightarrow> tls s p = Some td \<Longrightarrow> index_lock_list td = []"
  by (simp add: atom_inv_def phase_ok_def)

lemma headed_keeps:
  assumes "state_inv s ph log" "ph p = Headed" "tls s p = Some td"
    and "index_lock_list td' = index_lock_list td" "lamport_timestamp td' = lamport_timestamp td"
  shows "keeps_inv s (set_tls p td' s) (ph(p := Headed)) log"
  using assms headed_idle [OF assms(1,2,3)] by (intro keeps_inv_idle [where td = td]) simp_all

lemma same_phase: "state_inv s ph log \<Longrightarrow> ph p = x \<Longrightarrow> keeps_inv s s (ph(p := x)) log"
  by (simp add: keeps_inv_def fun_upd_idem)

lemma accesses_keep:
  assumes inv: "state_inv s ph log" and ph: "ph p = Headed"
  shows "memory_access_read1_a p a n s = Inr s' \<Longrightarrow> keeps_inv s s' (ph(p := Headed)) log"
    and "memory_access_read2_a p a s = Inr s' \<Longrightarrow> keeps_inv s s' (ph(p := Headed)) log"
    and "memory_access_write_a p a n s = Inr s' \<Longrightarrow> keeps_inv s s' (ph(p := Headed)) log"
  using headed_keeps [OF inv ph] same_phase [of s ph log p Headed, OF inv ph]
  by (auto simp: memory_access_read1_a_def memory_access_read2_a_def memory_access_write_a_def
      andThen_Inr get_tls_Inr split: if_splits)

lemma acquire_keeps:
  assumes run: "memory_access_acquire_locks_a p s = Inr s'" and inv: "state_inv s ph log"
    and ph: "ph p = Headed" and on: "\<not> turn_off_locks s"
  shows "keeps_inv s s' (ph(p := Locked)) log"
proof -
  from run obtain td where td: "tls s p = Some td"
    by (auto simp: memory_access_acquire_locks_a_def andThen_Inr get_tls_Inr)
  have e: "index_lock_list td = []" by (rule headed_idle [OF inv ph td])
  show ?thesis
  proof (cases "trace_this_access td")
    case False
    with run td have "s' = s" by (simp add: memory_access_acquire_locks_a_def)
    moreover have "keeps_inv s (set_tls p td s) (ph(p := Locked)) log"
      using inv td e False by (intro keeps_inv_idle [where td = td]) simp_all
    moreover have "set_tls p td s = s" using td by (simp add: set_tls_def fun_upd_idem)
    ultimately show ?thesis by simp
  next
    case True
    let ?is = "needed_indices s td"
    let ?td1 = "td\<lparr>index_lock_list := ?is\<rparr>"
    from run td True on obtain t s1 where
      l: "lock_all p ?is 0 (set_tls p ?td1 s) = Inr (t, s1)"
      and r: "andThen (get_tls s1 p) (\<lambda>td1.
        Inr (set_tls p (td1\<lparr>max_locked_timestamp := t\<rparr>) s1)) = Inr s'"
      by (auto simp: memory_access_acquire_locks_a_def acquire_address_locks_def andThen_Inr Let_def)
    note L = lock_all_result [OF l]
    let ?td2 = "?td1\<lparr>max_locked_timestamp := t\<rparr>"
    have s': "s' = set_tls p ?td2 (s\<lparr>address_lock_bank := taken ?is p (address_lock_bank s)\<rparr>)"
      using L r by (simp add: set_tls_def)
    have "atom_inv (num_locks s) (block_size_log s) (taken ?is p (address_lock_bank s))
        ((tls s)(p \<mapsto> ?td2)) (ph(p := Locked)) log"
    proof (rule atom_inv_taken)
      show "atom_inv (num_locks s) (block_size_log s) (address_lock_bank s) (tls s) ph log"
        using inv by simp
      show "event_indices (num_locks s) (block_size_log s) ?td2 \<subseteq> set ?is"
        by (auto simp: event_indices_def needed_indices_def)
    qed (use td e L True in \<open>auto simp: set_tls_def\<close>)
    moreover have "threads_ok s'"
      unfolding s' using inv td threads_ok_time [of s p td]
      by (intro threads_ok_set_tls [where td = td]) (simp_all add: threads_ok_bank)
    ultimately show ?thesis by (simp add: keeps_inv_def config_def s' set_tls_def)
  qed
qed

lemma cas_footer_keeps:
  assumes run: "memory_access_CAS_footer_a p flags s = Inr s'" and inv: "state_inv s ph log"
    and ph: "ph p = Locked"
  shows "keeps_inv s s' (ph(p := Locked)) log"
proof -
  from run obtain td where td: "tls s p = Some td"
    by (auto simp: memory_access_CAS_footer_a_def andThen_Inr get_tls_Inr)
  let ?td = "td\<lparr>is_write := False\<rparr>"
  have "threads_ok (set_tls p ?td s)"
    using inv td threads_ok_time [of s p td] by (intro threads_ok_set_tls [where td = td]) simp_all
  moreover have "atom_inv (num_locks s) (block_size_log s) (address_lock_bank s)
      ((tls s)(p \<mapsto> ?td)) ph log"
    using inv td ph by (intro atom_inv_fewer) (auto simp: event_indices_def)
  ultimately have "keeps_inv s (set_tls p ?td s) (ph(p := Locked)) log"
    using ph by (simp add: keeps_inv_def config_def set_tls_def fun_upd_idem)
  with run td inv ph show ?thesis
    by (auto simp: memory_access_CAS_footer_a_def Let_def same_phase split: if_splits)
qed

lemma footer_keeps:
  assumes run: "memory_access_footer_a bm p s = Inr s'" and inv: "state_inv s ph log"
    and ph: "ph p = Locked" and d: "0 \<le> timestamp_difference s"
  shows "keeps_inv s s' (ph(p := Free)) (log @ new_accesses (Footer p) s)"
proof -
  from run obtain td where td: "tls s p = Some td"
    by (auto simp: memory_access_footer_a_def andThen_Inr get_tls_Inr)
  show ?thesis
  proof (cases "trace_this_access td")
    case False
    then have "index_lock_list td = []"
      using inv td ph by (simp add: atom_inv_def phase_ok_def split: if_splits)
    then have "keeps_inv s (set_tls p td s) (ph(p := Free)) log"
      using inv td by (intro keeps_inv_idle [where td = td]) simp_all
    moreover have "s' = s" "set_tls p td s = s"
      using run td False by (simp_all add: memory_access_footer_a_def set_tls_def fun_upd_idem)
    ultimately show ?thesis using td False by simp
  next
    case True
    let ?t = "access_time td"
    define td1 where "td1 = td\<lparr>trace_stream := trace_stream td @
        [(?t, user_threadid td, access_event td)]\<rparr>"
    have c: "core td1 = core td" "lamport_timestamp td1 = lamport_timestamp td"
      by (simp_all add: td1_def core_def)
    have t: "lamport_timestamp td1 \<le> ?t" "max_locked_timestamp td < ?t"
      by (simp_all add: access_time_def c)
    have r: "touch_buffer bm p ?t False (set_tls p td1 s) = Inr s'"
      using run td True by (simp add: memory_access_footer_a_def Let_def td1_def)
    have k0: "kept s (set_tls p td1 s)" using c by (intro kept_set_tls [OF td]) simp_all
    note tb = touch_buffer_kept [OF r, of td1, OF _ t(1)]
    have k: "kept s s'"
      using tb(1) k0 d by (simp add: kept_static) (blast intro: kept_trans)
    have "\<exists>td'. tls s' p = Some td' \<and> ?t \<le> lamport_timestamp td'"
      using tb(2) k0 d by (simp add: kept_static)
    then obtain td' where td': "tls s' p = Some td'" "?t \<le> lamport_timestamp td'" by blast
    from kept_tls [OF k td] td'(1) have "core td' = core td" by force
    note f = core_fields [OF this]
    let ?a = "\<lparr>acc_time = ?t, acc_thread = p, acc_user = user_threadid td, acc_event = access_event td,
        acc_locks = index_lock_list td\<rparr>"
    have k': "keeps_inv s s' ph log" using k inv by (rule keeps_inv_kept)
    have "atom_inv (num_locks s') (block_size_log s') (address_lock_bank s') (tls s')
        (ph(p := Free)) (log @ [?a])"
      using k' td' ph t(2) f by (intro atom_inv_footer [where td = td']) (simp_all add: keeps_inv_def)
    with k' td True show ?thesis by (simp add: keeps_inv_def)
  qed
qed

section \<open>Calls outside an access\<close>

lemma release_free:
  assumes run: "release_address_locks p s = Inr s'" and inv: "state_inv s ph log"
    and ph: "ph p \<noteq> Locked"
  shows "keeps_inv s s' (ph(p := Free)) log"
    and "\<exists>td. tls s' p = Some td \<and> index_lock_list td = []"
proof -
  note rel = release_keeps [OF run inv ph]
  from rel(2) obtain td where td: "tls s' p = Some td" "index_lock_list td = []" by blast
  have "keeps_inv s' (set_tls p td s') (ph(p := Free)) log"
    using rel(1) td by (intro keeps_inv_idle [where td = td]) (simp_all add: keeps_inv_def)
  moreover have "set_tls p td s' = s'" using td by (simp add: set_tls_def fun_upd_idem)
  ultimately show "keeps_inv s s' (ph(p := Free)) log"
    using rel(1) keeps_inv_trans by metis
  show "\<exists>td. tls s' p = Some td \<and> index_lock_list td = []" by (rule rel(2))
qed

lemma config_difference: "config s' = config s \<Longrightarrow> timestamp_difference s' = timestamp_difference s"
  by (simp add: config_def)

lemma synchronised_keeps:
  assumes "trace_synchronised bm p ev s = Inr s'" "state_inv s ph log" "0 \<le> timestamp_difference s"
  shows "keeps_inv s s' ph log"
  using assms trace_synchronised_kept [of bm p ev s s'] threads_ok_joined [of s]
  by (blast intro: keeps_inv_kept)

lemma function_keeps:
  assumes "trace_function bm p ev s = Inr s'" "state_inv s ph log" "0 \<le> timestamp_difference s"
  shows "keeps_inv s s' ph log"
  using assms trace_function_kept [of bm p ev s s'] threads_ok_joined [of s]
  by (blast intro: keeps_inv_kept)

lemma release_then:
  assumes run: "andThen (release_address_locks p s) f = Inr s'" and inv: "state_inv s ph log"
    and ph: "ph p \<noteq> Locked" and d: "0 \<le> timestamp_difference s"
    and f: "\<And>s1. f s1 = Inr s' \<Longrightarrow> state_inv s1 (ph(p := Free)) log \<Longrightarrow>
      0 \<le> timestamp_difference s1 \<Longrightarrow> \<exists>td. tls s1 p = Some td \<and> index_lock_list td = [] \<Longrightarrow>
      keeps_inv s1 s' (ph(p := Free)) log"
  shows "keeps_inv s s' (ph(p := Free)) log"
proof -
  from run obtain s1 where s1: "release_address_locks p s = Inr s1" "f s1 = Inr s'"
    by (auto simp: andThen_Inr)
  note rel = release_free [OF s1(1) inv ph]
  have "keeps_inv s1 s' (ph(p := Free)) log"
    using rel d by (intro f [OF s1(2)]) (auto simp: keeps_inv_def dest: config_difference)
  with rel(1) show ?thesis by (rule keeps_inv_trans)
qed

lemma roi_keeps:
  assumes run: "change_roi_a bm p b name s = Inr s'" and inv: "state_inv s ph log"
    and ph: "ph p \<noteq> Locked" and d: "0 \<le> timestamp_difference s"
  shows "keeps_inv s s' (ph(p := Free)) log"
proof (rule release_then [OF run [unfolded change_roi_a_def] inv ph d])
  fix s1
  assume r: "trace_synchronised bm p (Change_Roi name) (s1\<lparr>in_roi := b\<rparr>) = Inr s'"
    and i: "state_inv s1 (ph(p := Free)) log" "0 \<le> timestamp_difference s1"
  have "state_inv (s1\<lparr>in_roi := b\<rparr>) (ph(p := Free)) log"
    using i(1) by (simp add: threads_ok_def)
  from synchronised_keeps [OF r this] i(2) show "keeps_inv s1 s' (ph(p := Free)) log"
    unfolding keeps_inv_def config_def by auto
qed

lemma register_keeps:
  assumes run: "register_thread_a bm p uid s = Inr s'" and inv: "state_inv s ph log"
    and ph: "ph p \<noteq> Locked" and d: "0 \<le> timestamp_difference s"
  shows "keeps_inv s s' (ph(p := Free)) log"
proof (rule release_then [OF run [unfolded register_thread_a_def] inv ph d])
  fix s1
  assume r: "(if register_threads s1 then andThen (get_tls s1 p) (\<lambda>td.
        trace_synchronised bm p Thread_Register (set_tls p (td\<lparr>user_threadid := uid\<rparr>) s1))
      else Inr s1) = Inr s'"
    and i: "state_inv s1 (ph(p := Free)) log" "0 \<le> timestamp_difference s1"
    and "\<exists>td. tls s1 p = Some td \<and> index_lock_list td = []"
  then obtain td where td: "tls s1 p = Some td" "index_lock_list td = []" by blast
  show "keeps_inv s1 s' (ph(p := Free)) log"
  proof (cases "register_threads s1")
    case True
    let ?s = "set_tls p (td\<lparr>user_threadid := uid\<rparr>) s1"
    have k: "keeps_inv s1 ?s (ph(p := Free)) log"
      using keeps_inv_idle [of s1 "ph(p := Free)" log p td "td\<lparr>user_threadid := uid\<rparr>" Free] i td
      by simp
    moreover have "keeps_inv ?s s' (ph(p := Free)) log"
      using k i(2) r td True
      by (intro synchronised_keeps [of bm p Thread_Register]) (auto simp: keeps_inv_def dest: config_difference)
    ultimately show ?thesis by (rule keeps_inv_trans)
  qed (use r i in \<open>simp add: keeps_inv_def\<close>)
qed

lemma start_keeps:
  assumes run: "thread_start_a bm g uid p s = Inr s'" and inv: "state_inv s ph log"
    and new: "tls s p = None" and d: "0 \<le> timestamp_difference s"
  shows "keeps_inv s s' (ph(p := Free)) log"
proof -
  let ?td = "new_thread_data g" and ?s = "s\<lparr>num_threads := num_threads s + 1\<rparr>"
  define td0 where "td0 = (if register_threads s then ?td\<lparr>lamport_timestamp := 0\<rparr>
    else ?td\<lparr>user_threadid := uid\<rparr>)"
  define s0 where "s0 = set_tls p td0 ?s"
  have z: "lamport_timestamp td0 = 0" "index_lock_list td0 = []"
    by (simp_all add: td0_def new_thread_data_def)
  have j: "joined s0"
    using inv z by (auto simp: joined_def threads_ok_def s0_def set_tls_def)
  have d0: "0 \<le> timestamp_difference s0" using d by (simp add: s0_def set_tls_def)
  from run obtain s2 where k: "kept s0 s2"
    and s': "s' = s2\<lparr>pin_threadid_set := List.insort_insert p (pin_threadid_set s2),
                   last_flushed := bm_insert bm p 0 (last_flushed s2)\<rparr>"
  proof (cases "register_threads s")
    case True
    with run that [of s0] show thesis
      by (simp add: thread_start_a_def Let_def s0_def td0_def set_tls_def)
  next
    case False
    with run obtain s2 where "trace_synchronised bm p Thread_Register s0 = Inr s2"
      "s' = s2\<lparr>pin_threadid_set := List.insort_insert p (pin_threadid_set s2),
                   last_flushed := bm_insert bm p 0 (last_flushed s2)\<rparr>"
      by (auto simp: thread_start_a_def Let_def s0_def td0_def set_tls_def andThen_Inr)
    with that [of s2] show thesis using trace_synchronised_kept [OF _ d0 j] by blast
  qed
  have "atom_inv (num_locks s) (block_size_log s) (address_lock_bank s)
      ((tls s)(p \<mapsto> td0)) (ph(p := Free)) log"
    using inv new z by (intro atom_inv_idle) auto
  then have a0: "atom_inv (num_locks s) (block_size_log s) (address_lock_bank s)
      (tls s0) (ph(p := Free)) log"
    by (simp add: s0_def set_tls_def)
  have "atom_inv (num_locks s) (block_size_log s) (address_lock_bank s)
      (tls s2) (ph(p := Free)) log"
    by (rule atom_inv_grows [OF a0 kept_grows [OF k]])
  then have "atom_inv (num_locks s') (block_size_log s') (address_lock_bank s')
      (tls s') (ph(p := Free)) log"
    by (simp add: s' kept_static [OF k]) (simp add: s0_def set_tls_def)
  moreover have "threads_ok s'"
  proof -
    have pins: "pin_threadid_set s2 = pin_threadid_set s"
      by (simp add: kept_static [OF k]) (simp add: s0_def set_tls_def)
    have none: "tls s2 q = None \<longleftrightarrow> q \<noteq> p \<and> tls s q = None" for q
      using kept_dom [OF k, of q] by (simp add: s0_def set_tls_def)
    have pos: "0 \<le> lamport_timestamp td2" if "tls s2 q = Some td2" for q td2
    proof -
      from grows_back [OF kept_grows [OF k] that] obtain td where td: "tls s0 q = Some td"
        "lamport_timestamp td \<le> lamport_timestamp td2" by metis
      have "0 \<le> lamport_timestamp td"
        using td(1) inv z by (auto simp: s0_def set_tls_def threads_ok_def split: if_splits)
      with td(2) show ?thesis by simp
    qed
    have "q \<in> insert p (set (pin_threadid_set s)) \<longleftrightarrow> tls s2 q \<noteq> None" for q
      using inv none [of q] by (auto simp: threads_ok_def)
    moreover have "distinct (List.insort_insert p (pin_threadid_set s))"
      using inv by (simp add: threads_ok_def distinct_insort_insert)
    ultimately show ?thesis
      using pos by (simp add: threads_ok_def s' pins set_insort_insert)
  qed
  moreover have "config s' = config s"
    by (simp add: s' config_def kept_static [OF k]) (simp add: s0_def set_tls_def)
  ultimately show ?thesis by (simp add: keeps_inv_def)
qed

lemma fini_keeps:
  assumes run: "thread_fini_a bm p s = Inr s'" and inv: "state_inv s ph log"
    and ph: "ph p \<noteq> Locked" and d: "0 \<le> timestamp_difference s"
  shows "keeps_inv s s' (ph(p := Free)) log"
proof (rule release_then [OF run [unfolded thread_fini_a_def] inv ph d])
  fix s1
  assume i: "state_inv s1 (ph(p := Free)) log" "0 \<le> timestamp_difference s1"
    and ex: "\<exists>td. tls s1 p = Some td \<and> index_lock_list td = []"
    and r: "andThen (get_tls s1 p) (\<lambda>td.
      andThen (if 0 \<le> user_threadid td then trace_synchronised bm p Thread_Finish s1 else Inr s1)
        (\<lambda>s2. let s3 = s2\<lparr>pin_threadid_set := remove1 p (pin_threadid_set s2)\<rparr> in
          andThen (get_tls s3 p) (\<lambda>td3.
          andThen (if 0 < buffered_entries td3
              then andThen (write_file (trace_stream td3) s3) (\<lambda>s4.
                   Inr (s4\<lparr>last_flushed := bm_erase bm p (last_flushed s4)\<rparr>))
              else Inr s3)
            (\<lambda>s5. Inr (s5\<lparr>tls := (tls s5)(p := None)\<rparr>))))) = Inr s'"
  from ex obtain td where td: "tls s1 p = Some td" "index_lock_list td = []" by blast
  with r obtain s2 where s2: "(if 0 \<le> user_threadid td then trace_synchronised bm p Thread_Finish s1
      else Inr s1) = Inr s2"
    and r2: "andThen (get_tls s2 p) (\<lambda>td3.
      andThen (if 0 < buffered_entries td3
          then andThen (write_file (trace_stream td3)
              (s2\<lparr>pin_threadid_set := remove1 p (pin_threadid_set s2)\<rparr>)) (\<lambda>s4.
                Inr (s4\<lparr>last_flushed := bm_erase bm p (last_flushed s4)\<rparr>))
          else Inr (s2\<lparr>pin_threadid_set := remove1 p (pin_threadid_set s2)\<rparr>))
        (\<lambda>s5. Inr (s5\<lparr>tls := (tls s5)(p := None)\<rparr>))) = Inr s'"
    by (auto simp: andThen_Inr get_tls_def Let_def)
  have k: "keeps_inv s1 s2 (ph(p := Free)) log"
  proof (cases "0 \<le> user_threadid td")
    case True
    with s2 have "trace_synchronised bm p Thread_Finish s1 = Inr s2" by simp
    from this i show ?thesis by (rule synchronised_keeps)
  qed (use s2 i in \<open>simp add: keeps_inv_def\<close>)
  have g: "grows (tls s1) (tls s2)"
  proof (cases "0 \<le> user_threadid td")
    case True
    with s2 have "trace_synchronised bm p Thread_Finish s1 = Inr s2" by simp
    from trace_synchronised_kept [OF this i(2) threads_ok_joined] i(1) show ?thesis
      by (simp add: kept_grows)
  qed (use s2 in \<open>simp add: grows_def\<close>)
  obtain td2 where td2: "tls s2 p = Some td2" "core td2 = core td"
    by (metis grows_Some [OF g td(1)])
  have idle2: "idle (tls s2 p)" using td2(1) td(2) core_fields(2) [OF td2(2)] by simp
  have eqs: "tls s' = (tls s2)(p := None)" "address_lock_bank s' = address_lock_bank s2"
    "pin_threadid_set s' = remove1 p (pin_threadid_set s2)" "config s' = config s2"
    using r2 td2(1) by (auto simp: andThen_Inr write_file_Inr config_def split: if_splits)
  have "atom_inv (num_locks s2) (block_size_log s2) (address_lock_bank s2)
      ((tls s2)(p := None)) ((ph(p := Free))(p := Free)) log"
    by (rule atom_inv_idle) (use k idle2 in \<open>simp_all add: keeps_inv_def\<close>)
  moreover have "threads_ok s'"
    using k by (auto simp: keeps_inv_def threads_ok_def eqs)
  ultimately show "keeps_inv s1 s' (ph(p := Free)) log"
    using k eqs by (simp add: keeps_inv_def config_def)
qed

lemma other_keeps:
  assumes run: "run_call bm c s = Inr s'" and inv: "state_inv s ph log"
    and ph: "next_phase c (ph (caller c)) = Some Free" "\<And>q. c \<noteq> Footer q"
    and st: "start_ok c s" and d: "0 \<le> timestamp_difference s"
  shows "keeps_inv s s' (ph(caller c := Free)) log"
proof (cases c)
  case (Release p)
  with run inv ph show ?thesis
    by (auto simp: memory_access_release_a_def split: if_splits intro: release_free(1))
next
  case (Call name p sp a1 a2 a3)
  have "ph p \<noteq> Locked" using ph Call by (simp split: if_splits)
  moreover from run Call have "andThen (release_address_locks p s)
      (trace_function bm p (Function_Call name sp a1 a2 a3)) = Inr s'"
    by (simp add: function_call_a_def)
  ultimately show ?thesis
    using release_then [OF _ inv _ d] function_keeps Call by (metis caller.simps(9))
next
  case (Return name p sp v)
  have "ph p \<noteq> Locked" using ph Return by (simp split: if_splits)
  moreover from run Return have "andThen (release_address_locks p s)
      (trace_function bm p (Function_Return name sp v)) = Inr s'"
    by (simp add: function_return_a_def)
  ultimately show ?thesis
    using release_then [OF _ inv _ d] function_keeps Return by (metis caller.simps(10))
next
  case (Roi p b name)
  with run inv ph d show ?thesis by (auto split: if_splits intro: roi_keeps)
next
  case (Register p uid)
  with run inv ph d show ?thesis by (auto split: if_splits intro: register_keeps)
next
  case (Start g uid p)
  with run inv st d show ?thesis by (auto intro: start_keeps)
next
  case (Fini p)
  with run inv ph d show ?thesis by (auto split: if_splits intro: fini_keeps)
next
  case (Ctxt_Change p)
  have ph': "ph p \<noteq> Locked" using ph Ctxt_Change by (simp split: if_splits)
  from run Ctxt_Change have r: "ctxt_change_release bm p s = Inr s'" by simp
  have "keeps_inv s s' (ph(p := Free)) log"
  proof (rule release_then [OF r [unfolded ctxt_change_release_def] inv ph' d])
    fix s1
    assume i: "state_inv s1 (ph(p := Free)) log" "0 \<le> timestamp_difference s1"
      and r: "andThen (get_tls s1 p) (\<lambda>td.
        let time = lamport_timestamp td + 1;
            td1 = td\<lparr>trace_stream := trace_stream td @ [(time, user_threadid td, Context_Change)]\<rparr>
        in touch_buffer bm p time False (set_tls p td1 s1)) = Inr s'"
    then obtain td where td: "tls s1 p = Some td" by (auto simp: andThen_Inr get_tls_Inr)
    let ?td = "td\<lparr>trace_stream := trace_stream td @
        [(lamport_timestamp td + 1, user_threadid td, Context_Change)]\<rparr>"
    have t: "touch_buffer bm p (lamport_timestamp td + 1) False (set_tls p ?td s1) = Inr s'"
      using r td by (simp add: Let_def)
    have k0: "kept s1 (set_tls p ?td s1)"
      by (rule kept_set_tls [OF td]) (simp_all add: core_def)
    have "kept (set_tls p ?td s1) s'"
      by (rule touch_buffer_kept(1) [OF t, of ?td]) (use i k0 in \<open>simp_all add: kept_static\<close>)
    with k0 have "kept s1 s'" by (rule kept_trans)
    from this i(1) show "keeps_inv s1 s' (ph(p := Free)) log" by (rule keeps_inv_kept)
  qed
  with Ctxt_Change show ?thesis by simp
qed (use ph in \<open>auto split: if_splits\<close>)

section \<open>Reachable states\<close>

lemma step_keeps:
  assumes run: "run_call bm c s = Inr s'" and inv: "state_inv s ph log"
    and ph: "next_phase c (ph (caller c)) = Some x" and st: "start_ok c s"
    and d: "0 \<le> timestamp_difference s" and on: "\<not> turn_off_locks s"
  shows "keeps_inv s s' (ph(caller c := x)) (log @ new_accesses c s)"
proof (cases c)
  case (Header p)
  with run inv ph show ?thesis by (auto split: if_splits intro: header_keeps)
next
  case (Read1 p a n)
  with run inv ph show ?thesis by (auto split: if_splits intro: accesses_keep(1))
next
  case (Read2 p a)
  with run inv ph show ?thesis by (auto split: if_splits intro: accesses_keep(2))
next
  case (Write p a n)
  with run inv ph show ?thesis by (auto split: if_splits intro: accesses_keep(3))
next
  case (Acquire p)
  with run inv ph on show ?thesis by (auto split: if_splits intro: acquire_keeps)
next
  case (Cas_Footer p f)
  with run inv ph show ?thesis by (auto split: if_splits intro: cas_footer_keeps)
next
  case (Footer p)
  with run inv ph d have "keeps_inv s s' (ph(p := Free)) (log @ new_accesses (Footer p) s)"
    by (intro footer_keeps) (auto split: if_splits)
  with Footer ph show ?thesis by (auto split: if_splits)
qed (use other_keeps [OF run inv _ _ st d] ph in \<open>auto split: if_splits\<close>)

text \<open>The bytes of an entry; the size of a second read is that of the first.\<close>

fun event_touches :: "event \<Rightarrow> u64 \<Rightarrow> bool" where
  "event_touches (Memory r r2 w) b =
     ((case r of None \<Rightarrow> False
       | Some (a, n) \<Rightarrow> touches a n b \<or> (case r2 of None \<Rightarrow> False | Some a2 \<Rightarrow> touches a2 n b)) \<or>
      (case w of None \<Rightarrow> False | Some (a, n) \<Rightarrow> touches a n b))"
| "event_touches ev b = False"

fun event_in_range :: "event \<Rightarrow> bool" where
  "event_in_range (Memory r r2 w) =
     ((case r of None \<Rightarrow> True
       | Some (a, n) \<Rightarrow> in_range a n \<and> (case r2 of None \<Rightarrow> True | Some a2 \<Rightarrow> in_range a2 n)) \<and>
      (case w of None \<Rightarrow> True | Some (a, n) \<Rightarrow> in_range a n))"
| "event_in_range ev = True"

lemma event_locked:
  assumes N: "0 < sint nl" and r: "event_in_range (access_event td)"
    and t: "event_touches (access_event td) b"
  shows "lock_of nl bl b \<in> event_indices nl bl td"
  using r t
  by (auto simp: access_event_def event_indices_def split: if_splits intro: byte_covered [OF N])

definition log_ok :: "u64 \<Rightarrow> u64 \<Rightarrow> access list \<Rightarrow> bool" where
  "log_ok nl bl log \<longleftrightarrow>
     (\<forall>a \<in> set log. \<forall>b. event_in_range (acc_event a) \<longrightarrow> event_touches (acc_event a) b \<longrightarrow>
        lock_of nl bl b \<in> set (acc_locks a))"

lemma log_ok_new:
  assumes "log_ok nl bl log" and N: "0 < sint nl"
    and ph: "phase_ok nl bl (tls s) ph" "next_phase c (ph (caller c)) = Some x"
  shows "log_ok nl bl (log @ new_accesses c s)"
proof -
  have "lock_of nl bl b \<in> set (acc_locks a)"
    if a: "a \<in> set (new_accesses c s)" "event_in_range (acc_event a)" "event_touches (acc_event a) b"
    for a b
  proof -
    from a(1) obtain p td where c: "c = Footer p" and td: "tls s p = Some td" "trace_this_access td"
      and a': "acc_event a = access_event td" "acc_locks a = index_lock_list td"
      by (cases c) (force split: option.splits if_splits)+
    have "event_indices nl bl td \<subseteq> set (index_lock_list td)"
      using ph c td by (simp add: phase_ok_def split: if_splits)
    with event_locked [OF N, of td b bl] a a' show ?thesis by auto
  qed
  with assms(1) show ?thesis by (auto simp: log_ok_def)
qed

lemma tracer_main_state:
  assumes "tracer_main bm k = Inr s"
  shows "state_inv s (\<lambda>_. Free) []" "0 < sint (num_locks s)"
    "config s = (knob_num_address_locks k, binary_log (knob_block_size k),
       knob_timestamp_difference k, knob_turn_off k)"
  using assms
  by (auto simp: tracer_main_def atom_inv_def holds_ok_def phase_ok_def times_ok_def ordered_def
      threads_ok_def config_def is_power_2_def split: if_splits)

lemma reachable_inv:
  assumes "reachable bm k r" and d: "0 \<le> knob_timestamp_difference k" and on: "\<not> knob_turn_off k"
  shows "state_inv (run_state r) (run_phase r) (run_log r) \<and>
    log_ok (num_locks (run_state r)) (block_size_log (run_state r)) (run_log r) \<and>
    0 < sint (num_locks (run_state r)) \<and>
    config (run_state r) = (knob_num_address_locks k, binary_log (knob_block_size k),
       knob_timestamp_difference k, knob_turn_off k)"
  using assms(1)
proof (induction rule: reachable.induct)
  case (start s)
  from tracer_main_state [OF this] show ?case by (simp add: log_ok_def)
next
  case (more r c r')
  from more.hyps(2) obtain s' x where s': "run_call bm c (run_state r) = Inr s'"
      "next_phase c (run_phase r (caller c)) = Some x" "start_ok c (run_state r)"
    and r': "r' = \<lparr>run_state = s', run_phase = (run_phase r)(caller c := x),
       run_log = run_log r @ new_accesses c (run_state r)\<rparr>"
    by (rule run_stepE)
  have c: "0 \<le> timestamp_difference (run_state r)" "\<not> turn_off_locks (run_state r)"
    using more.IH d on by (simp_all add: config_def)
  have k: "keeps_inv (run_state r) s' ((run_phase r)(caller c := x))
      (run_log r @ new_accesses c (run_state r))"
    using step_keeps [where ph = "run_phase r" and log = "run_log r", OF s'(1) _ s'(2,3) c] more.IH
    by blast
  have "phase_ok (num_locks (run_state r)) (block_size_log (run_state r)) (tls (run_state r)) (run_phase r)"
    using more.IH by (simp add: atom_inv_def)
  from log_ok_new [OF _ _ this s'(2)] more.IH
  have "log_ok (num_locks (run_state r)) (block_size_log (run_state r))
      (run_log r @ new_accesses c (run_state r))" by blast
  with k more.IH show ?case
    unfolding r' keeps_inv_def config_def by (simp del: fun_upd_apply) metis
qed

text \<open>Runs of a given list of calls, to evaluate examples.\<close>

definition do_call :: "'b bimap_ops \<Rightarrow> call \<Rightarrow> 'b run \<Rightarrow> 'b run option" where
  "do_call bm c r =
     (case run_call bm c (run_state r) of
        Inl e \<Rightarrow> None
      | Inr s' \<Rightarrow>
        (case next_phase c (run_phase r (caller c)) of
           None \<Rightarrow> None
         | Some x \<Rightarrow>
             if start_ok c (run_state r)
             then Some \<lparr>run_state = s', run_phase = (run_phase r)(caller c := x),
                        run_log = run_log r @ new_accesses c (run_state r)\<rparr>
             else None))"

fun do_calls :: "'b bimap_ops \<Rightarrow> call list \<Rightarrow> 'b run \<Rightarrow> 'b run option" where
  "do_calls bm [] r = Some r"
| "do_calls bm (c # cs) r = (case do_call bm c r of None \<Rightarrow> None | Some r' \<Rightarrow> do_calls bm cs r')"

definition do_run :: "'b bimap_ops \<Rightarrow> knobs \<Rightarrow> call list \<Rightarrow> 'b run option" where
  "do_run bm k cs =
     (case tracer_main bm k of
        Inl e \<Rightarrow> None
      | Inr s \<Rightarrow> do_calls bm cs \<lparr>run_state = s, run_phase = (\<lambda>_. Free), run_log = []\<rparr>)"

lemma do_call_step: "do_call bm c r = Some r' \<Longrightarrow> run_step bm r c r'"
  by (auto simp: do_call_def split: sum.splits option.splits if_splits intro: step)

lemma do_calls_reachable: "do_calls bm cs r = Some r' \<Longrightarrow> reachable bm k r \<Longrightarrow> reachable bm k r'"
  by (induction cs arbitrary: r) (auto split: option.splits intro: more do_call_step)

lemma do_run_reachable: "do_run bm k cs = Some r \<Longrightarrow> reachable bm k r"
  by (auto simp: do_run_def split: sum.splits intro: do_calls_reachable start)

definition blank_thread :: thread_data where
  "blank_thread =
     \<lparr>user_threadid = 0, event_count = 0, memory_instruction_count = 0, index_lock_list = [],
      trace_this_access = False, is_read = False, is_read2 = False, is_write = False,
      read_size = 0, write_size = 0, read1_address = 0, read2_address = 0, write_address = 0,
      max_locked_timestamp = 0, flush_others = [], trace_stream = [], buffered_entries = 0,
      lamport_timestamp = 0\<rparr>"

end
