(* ===== verification/Trace_Output.thy ===== *)
theory Trace_Output
  imports Atomicity "HOL-Library.Multiset"
begin

text \<open>
  Where the traced accesses are: in the file or in the buffer of a running thread. Flushing moves
  them, nothing loses or doubles one.
\<close>

section \<open>The traced accesses\<close>

fun is_access :: "event \<Rightarrow> bool" where
  "is_access (Memory r r2 w) = True"
| "is_access ev = False"

definition accesses :: "entry list \<Rightarrow> entry multiset" where
  "accesses es = filter_mset (\<lambda>e. is_access (snd (snd e))) (mset es)"

definition buffered :: "thread_data option \<Rightarrow> entry multiset" where
  "buffered t = (case t of None \<Rightarrow> {#} | Some td \<Rightarrow> accesses (trace_stream td))"

definition traced :: "'b tracer \<Rightarrow> entry multiset" where
  "traced s = accesses (trace_file s) + (\<Sum>q \<in> dom (tls s). buffered (tls s q))"

text \<open>The entry count of a thread is the length of its buffer.\<close>

definition counted :: "thread_data option \<Rightarrow> bool" where
  "counted t = (case t of None \<Rightarrow> True | Some td \<Rightarrow> buffered_entries td = int (length (trace_stream td)))"

definition buffers_ok :: "'b tracer \<Rightarrow> bool" where
  "buffers_ok s \<longleftrightarrow> finite (dom (tls s)) \<and> (\<forall>q. counted (tls s q))"

definition same_trace :: "'b tracer \<Rightarrow> 'b tracer \<Rightarrow> bool" where
  "same_trace s s' \<longleftrightarrow> (buffers_ok s \<longrightarrow> buffers_ok s' \<and> traced s' = traced s)"

lemma accesses_simps [simp]:
  "accesses [] = {#}" "accesses (es @ es') = accesses es + accesses es'"
  "is_access ev \<Longrightarrow> accesses [(t, u, ev)] = {#(t, u, ev)#}"
  "\<not> is_access ev \<Longrightarrow> accesses [(t, u, ev)] = {#}"
  by (simp_all add: accesses_def)

lemma buffered_simps [simp]: "buffered None = {#}" "buffered (Some td) = accesses (trace_stream td)"
  by (simp_all add: buffered_def)

lemma counted_simps [simp]: "counted None"
  "counted (Some td) \<longleftrightarrow> buffered_entries td = int (length (trace_stream td))"
  by (simp_all add: counted_def)

lemma same_trace_refl [simp]: "same_trace s s"
  by (simp add: same_trace_def)

lemma same_trace_trans: "same_trace s t \<Longrightarrow> same_trace t u \<Longrightarrow> same_trace s u"
  by (simp add: same_trace_def)

lemma sum_buffered_upd:
  assumes "finite (dom ts)"
  shows "(\<Sum>q \<in> dom (ts(p := t')). buffered ((ts(p := t')) q)) + buffered (ts p) =
    (\<Sum>q \<in> dom ts. buffered (ts q)) + buffered t'"
proof -
  have split: "(\<Sum>q \<in> dom u. buffered (u q)) =
      buffered (u p) + (\<Sum>q \<in> dom u - {p}. buffered (u q))" if "finite (dom u)" for u
  proof (cases "p \<in> dom u")
    case True
    with that show ?thesis by (simp add: sum.remove)
  next
    case False
    then have "u p = None" by (simp add: dom_def)
    with False show ?thesis by simp
  qed
  have f: "finite (dom (ts(p := t')))"
    using assms by (cases t') simp_all
  have "(\<Sum>q \<in> dom (ts(p := t')) - {p}. buffered ((ts(p := t')) q)) =
      (\<Sum>q \<in> dom ts - {p}. buffered (ts q))"
    by (rule sum.cong) auto
  with split [OF f] split [OF assms] show ?thesis by simp
qed

lemma traced_set_tls:
  assumes "finite (dom (tls s))"
  shows "traced (set_tls p td s) + buffered (tls s p) = traced s + accesses (trace_stream td)"
  using sum_buffered_upd [OF assms, of p "Some td"] by (simp add: traced_def set_tls_def)

lemma buffers_okD:
  "buffers_ok s \<Longrightarrow> tls s p = Some td \<Longrightarrow> buffered_entries td = int (length (trace_stream td))"
  unfolding buffers_ok_def by (metis counted_simps(2))

lemma buffers_ok_set_tls:
  "buffers_ok s \<Longrightarrow> buffered_entries td = int (length (trace_stream td)) \<Longrightarrow>
   buffers_ok (set_tls p td s)"
  by (simp add: buffers_ok_def)

lemma buffers_ok_finite: "buffers_ok s \<Longrightarrow> finite (dom (tls s))"
  by (simp add: buffers_ok_def)

lemma same_trace_set_tls:
  assumes "tls s p = Some td" "trace_stream td' = trace_stream td"
    "buffered_entries td' = buffered_entries td"
  shows "same_trace s (set_tls p td' s)"
  using assms traced_set_tls [of s p td']
  by (auto simp: same_trace_def buffers_ok_finite buffers_ok_set_tls buffers_okD)

lemma same_trace_other:
  "same_trace s (s\<lparr>address_lock_bank := b\<rparr>)" "same_trace s (s\<lparr>in_roi := r\<rparr>)"
  "same_trace s (s\<lparr>num_threads := n\<rparr>)" "same_trace s (s\<lparr>pin_threadid_set := ps\<rparr>)"
  "same_trace s (s\<lparr>last_flushed := lf\<rparr>)" "same_trace s (s\<lparr>last_flushed_cache := c\<rparr>)"
  by (simp_all add: same_trace_def buffers_ok_def traced_def)

section \<open>Flushing\<close>

lemma attempt_flush_one_trace:
  assumes run: "attempt_flush_one bm t p s = Inr s'"
  shows "same_trace s s'"
proof (cases "p \<in> set (pin_threadid_set s)")
  case False
  with run show ?thesis by (simp add: attempt_flush_one_def)
next
  case True
  with run obtain td where td: "tls s p = Some td"
    by (auto simp: attempt_flush_one_def andThen_Inr get_tls_Inr)
  define td2 where "td2 = sync_thread t td"
  have a: "accesses (trace_stream td2) = accesses (trace_stream td)"
    and n: "buffered_entries td = int (length (trace_stream td)) \<Longrightarrow>
      buffered_entries td2 = int (length (trace_stream td2))"
    by (simp_all add: td2_def sync_thread_def)
  from run True td consider
    (flush) "0 < buffered_entries td2"
      "s' = set_tls p (td2\<lparr>buffered_entries := 0, trace_stream := []\<rparr>)
        (s\<lparr>trace_file := trace_file s @ trace_stream td2,
           last_flushed := bm_insert bm p t (bm_erase bm p (last_flushed s))\<rparr>)"
    | (sync) "s' = set_tls p td2 s" | (no) "s' = s"
    by (auto simp: attempt_flush_one_def Let_def td2_def andThen_Inr write_file_Inr split: if_splits)
  then show ?thesis
  proof cases
    case flush
    let ?s = "s\<lparr>trace_file := trace_file s @ trace_stream td2,
           last_flushed := bm_insert bm p t (bm_erase bm p (last_flushed s))\<rparr>"
    have "traced ?s = traced s + accesses (trace_stream td2)"
      by (simp add: traced_def)
    with flush(2) td a traced_set_tls [of ?s p "td2\<lparr>buffered_entries := 0, trace_stream := []\<rparr>"]
    show ?thesis by (auto simp: same_trace_def buffers_ok_def)
  next
    case sync
    with td a n traced_set_tls [of s p td2] show ?thesis
      by (auto simp: same_trace_def buffers_ok_finite buffers_ok_set_tls buffers_okD)
  qed simp
qed

lemma attempt_flush_others_trace: "attempt_flush_others bm t ps s = Inr s' \<Longrightarrow> same_trace s s'"
proof (induction ps arbitrary: s)
  case (Cons p ps)
  then show ?case by (auto simp: andThen_Inr dest!: attempt_flush_one_trace intro: same_trace_trans)
qed simp

lemma check_last_flushed_trace:
  "check_last_flushed bm t s = Inr (ps, s') \<Longrightarrow>
   same_trace s s' \<and> tls s' = tls s \<and> trace_file s' = trace_file s"
  by (auto simp: check_last_flushed_def Let_def same_trace_other
      split: if_splits list.splits prod.splits)

lemma touch_buffer_trace:
  assumes run: "touch_buffer bm p t force (set_tls p td1 s) = Inr s'" and ok: "buffers_ok s"
    and td: "tls s p = Some td"
    and td1: "trace_stream td1 = trace_stream td @ [e]" "buffered_entries td1 = buffered_entries td"
  shows "buffers_ok s' \<and> traced s' = traced s + accesses [e]"
proof -
  let ?s = "set_tls p td1 s"
  define td2 where "td2 = td1\<lparr>lamport_timestamp := t, flush_others := [],
    buffered_entries := buffered_entries td1 + 1\<rparr>"
  have n: "buffered_entries td2 = int (length (trace_stream td2))" "trace_stream td2 = trace_stream td1"
    using buffers_okD [OF ok td] td1 by (simp_all add: td2_def)
  let ?mid = "if accesses_flush ?s \<le> buffered_entries td2 \<or> force then
        andThen (write_file (trace_stream td2) ?s) (\<lambda>s1.
          andThen (check_last_flushed bm t (s1\<lparr>last_flushed :=
              bm_insert bm p t (bm_erase bm p (last_flushed s1))\<rparr>))
            (\<lambda>(ps, s2). Inr (ps, set_tls p
               (td2\<lparr>buffered_entries := 0, trace_stream := [], flush_others := ps\<rparr>) s2)))
        else Inr ([], set_tls p td2 ?s)"
  have g: "get_tls ?s p = Inr td1" by simp
  from run have "andThen ?mid (\<lambda>(ps, s3).
      if ps \<noteq> [] then attempt_flush_others bm t ps s3 else Inr s3) = Inr s'"
    unfolding touch_buffer_def g andThen_simps Let_def td2_def .
  then obtain ps s3 where mid: "?mid = Inr (ps, s3)"
    and fin: "(if ps \<noteq> [] then attempt_flush_others bm t ps s3 else Inr s3) = Inr s'"
    unfolding andThen_Inr [of ?mid] by auto
  have "buffers_ok s3 \<and> traced s3 = traced s + accesses [e]"
  proof (cases "accesses_flush ?s \<le> buffered_entries td2 \<or> force")
    case True
    let ?td3 = "td2\<lparr>buffered_entries := 0, trace_stream := [], flush_others := ps\<rparr>"
    from True mid obtain s2 where s2: "check_last_flushed bm t
        (?s\<lparr>trace_file := trace_file ?s @ trace_stream td2,
           last_flushed := bm_insert bm p t (bm_erase bm p (last_flushed ?s))\<rparr>) = Inr (ps, s2)"
      "s3 = set_tls p ?td3 s2"
      by (auto simp: andThen_Inr write_file_Inr)
    from check_last_flushed_trace [OF s2(1)]
    have e: "tls s2 = (tls s)(p \<mapsto> td1)" "trace_file s2 = trace_file s @ trace_stream td2"
      by (simp_all add: set_tls_def)
    have ok3: "buffers_ok s3"
      using ok by (simp add: s2(2) buffers_ok_def e)
    have "traced s2 = traced ?s + accesses (trace_stream td2)"
      by (simp add: traced_def e) (simp add: set_tls_def)
    moreover have "finite (dom (tls s2))" using ok by (simp add: e buffers_ok_def)
    from traced_set_tls [OF this, of p ?td3]
    have "traced s3 + accesses (trace_stream td1) = traced s2" by (simp add: s2(2) e)
    ultimately have "traced s3 = traced ?s" using n(2) by simp
    with ok3 traced_set_tls [OF buffers_ok_finite [OF ok], of p td1] td td1 show ?thesis by simp
  next
    case False
    with mid have s3: "s3 = set_tls p td2 s" by (simp add: set_tls_def)
    with traced_set_tls [OF buffers_ok_finite [OF ok], of p td2] td td1 n
    show ?thesis by (simp add: buffers_ok_set_tls [OF ok])
  qed
  with fin show ?thesis
    by (auto split: if_splits dest!: attempt_flush_others_trace simp: same_trace_def)
qed

section \<open>The routines\<close>

lemma set_thread_times_trace: "set_thread_times ps t s = Inr s' \<Longrightarrow> same_trace s s'"
proof (induction ps arbitrary: s)
  case (Cons p ps)
  then obtain td where td: "tls s p = Some td"
    and r: "set_thread_times ps t (set_tls p (td\<lparr>lamport_timestamp := t\<rparr>) s) = Inr s'"
    by (auto simp: andThen_Inr get_tls_Inr)
  have "same_trace s (set_tls p (td\<lparr>lamport_timestamp := t\<rparr>) s)"
    by (rule same_trace_set_tls [OF td]) simp_all
  then show ?case using Cons.IH [OF r] by (rule same_trace_trans)
qed simp

lemma release_trace:
  assumes "release_address_locks p s = Inr s'" shows "same_trace s s'"
proof -
  from assms obtain td where td: "tls s p = Some td"
    and s': "s' = set_tls p (td\<lparr>index_lock_list := []\<rparr>) (s\<lparr>address_lock_bank :=
      freed (index_lock_list td) (lamport_timestamp td) (address_lock_bank s)\<rparr>)"
    by (rule release_result)
  have "same_trace (s\<lparr>address_lock_bank :=
      freed (index_lock_list td) (lamport_timestamp td) (address_lock_bank s)\<rparr>) s'"
    unfolding s' by (rule same_trace_set_tls [where td = td]) (simp_all add: td)
  then show ?thesis using same_trace_other(1) same_trace_trans by blast
qed

text \<open>A routine that traces one more entry.\<close>

definition adds_trace :: "entry multiset \<Rightarrow> 'b tracer \<Rightarrow> 'b tracer \<Rightarrow> bool" where
  "adds_trace m s s' \<longleftrightarrow> (buffers_ok s \<longrightarrow> buffers_ok s' \<and> traced s' = traced s + m)"

lemma same_trace_adds: "same_trace s s' \<longleftrightarrow> adds_trace {#} s s'"
  by (simp add: same_trace_def adds_trace_def)

lemma adds_trace_trans: "adds_trace m s t \<Longrightarrow> adds_trace n t u \<Longrightarrow> adds_trace (m + n) s u"
  by (simp add: adds_trace_def)

lemma same_trace_trans1: "same_trace s t \<Longrightarrow> adds_trace n t u \<Longrightarrow> adds_trace n s u"
  and same_trace_trans2: "adds_trace n s t \<Longrightarrow> same_trace t u \<Longrightarrow> adds_trace n s u"
  by (simp_all add: adds_trace_def same_trace_def)

lemma trace_synchronised_trace:
  assumes run: "trace_synchronised bm p ev s = Inr s'" and ev: "\<not> is_access ev"
  shows "same_trace s s'"
proof -
  from run obtain t td where td: "tls s p = Some td"
    and t: "acquire_all_thread_locks s = Inr t"
    by (auto simp: trace_synchronised_def andThen_Inr get_tls_Inr)
  let ?td = "td\<lparr>trace_stream := trace_stream td @ [(t + 1, user_threadid td, ev)]\<rparr>"
  from run td t obtain s1 where
    s1: "touch_buffer bm p (t + 1) True (set_tls p ?td s) = Inr s1"
    and s': "release_all_thread_locks (t + 1) s1 = Inr s'"
    by (auto simp: trace_synchronised_def andThen_Inr Let_def)
  have "same_trace s s1"
    unfolding same_trace_def using touch_buffer_trace [OF s1 _ td] ev by simp
  moreover have "same_trace s1 s'"
    using s' by (auto simp: release_all_thread_locks_def intro: set_thread_times_trace)
  ultimately show ?thesis by (rule same_trace_trans)
qed

lemma trace_function_trace:
  assumes run: "trace_function bm p ev s = Inr s'" and ev: "\<not> is_access ev"
  shows "same_trace s s'"
proof -
  from run obtain td where td: "tls s p = Some td"
    by (auto simp: trace_function_def andThen_Inr get_tls_Inr)
  from run td obtain t where t: "(if 0 \<le> user_threadid td then Inr (lamport_timestamp td)
      else acquire_all_thread_locks s) = Inr t"
    by (auto simp: trace_function_def andThen_Inr Let_def)
  let ?td = "td\<lparr>lamport_timestamp := t + 1,
    trace_stream := trace_stream td @ [(t + 1, user_threadid td, ev)]\<rparr>"
  from run td t obtain s1 where
    s1: "touch_buffer bm p (t + 1) (\<not> 0 \<le> user_threadid td) (set_tls p ?td s) = Inr s1"
    and s': "(if 0 \<le> user_threadid td then Inr s1 else release_all_thread_locks (t + 1) s1) = Inr s'"
    by (auto simp: trace_function_def andThen_Inr Let_def)
  have "same_trace s s1"
    unfolding same_trace_def using touch_buffer_trace [OF s1 _ td] ev by simp
  moreover have "same_trace s1 s'"
    using s' by (auto simp: release_all_thread_locks_def intro: set_thread_times_trace split: if_splits)
  ultimately show ?thesis by (rule same_trace_trans)
qed

lemma same_trace_then:
  "andThen (release_address_locks p s) f = Inr s' \<Longrightarrow>
   (\<And>s1. f s1 = Inr s' \<Longrightarrow> same_trace s1 s') \<Longrightarrow> same_trace s s'"
  by (auto simp: andThen_Inr dest!: release_trace intro: same_trace_trans)

lemma header_trace:
  assumes "memory_access_header_a p s = Inr s'" shows "same_trace s s'"
  by (rule same_trace_then [OF assms [unfolded memory_access_header_a_def]])
    (auto simp: andThen_Inr get_tls_Inr Let_def intro: same_trace_set_tls)

lemma accesses_trace:
  "memory_access_read1_a p a n s = Inr s' \<Longrightarrow> same_trace s s'"
  "memory_access_read2_a p a s = Inr s' \<Longrightarrow> same_trace s s'"
  "memory_access_write_a p a n s = Inr s' \<Longrightarrow> same_trace s s'"
  "memory_access_CAS_footer_a p f s = Inr s' \<Longrightarrow> same_trace s s'"
  by (auto simp: memory_access_read1_a_def memory_access_read2_a_def memory_access_write_a_def
      memory_access_CAS_footer_a_def Let_def andThen_Inr get_tls_Inr split: if_splits
      intro: same_trace_set_tls)

lemma acquire_trace:
  assumes run: "memory_access_acquire_locks_a p s = Inr s'"
  shows "same_trace s s'"
proof -
  from run obtain td where td: "tls s p = Some td"
    by (auto simp: memory_access_acquire_locks_a_def andThen_Inr get_tls_Inr)
  show ?thesis
  proof (cases "trace_this_access td \<and> \<not> turn_off_locks s")
    case True
    let ?td = "td\<lparr>index_lock_list := needed_indices s td\<rparr>"
    from run td True obtain t s1 where
      l: "lock_all p (needed_indices s td) 0 (set_tls p ?td s) = Inr (t, s1)"
      and r: "andThen (get_tls s1 p) (\<lambda>td1.
        Inr (set_tls p (td1\<lparr>max_locked_timestamp := t\<rparr>) s1)) = Inr s'"
      by (auto simp: memory_access_acquire_locks_a_def acquire_address_locks_def andThen_Inr Let_def)
    have "same_trace s (set_tls p ?td s)" by (rule same_trace_set_tls [OF td]) simp_all
    moreover have "same_trace (set_tls p ?td s) s1"
      using lock_all_result [OF l] by (simp add: same_trace_other)
    moreover have "same_trace s1 s'"
      using r by (auto simp: andThen_Inr get_tls_Inr intro: same_trace_set_tls)
    ultimately show ?thesis by (blast intro: same_trace_trans)
  next
    case False
    with run td show ?thesis
      by (auto simp: memory_access_acquire_locks_a_def intro: same_trace_set_tls split: if_splits)
  qed
qed

lemma start_trace:
  assumes run: "thread_start_a bm g uid p s = Inr s'" and new: "tls s p = None"
  shows "same_trace s s'"
proof -
  let ?td = "new_thread_data g" and ?s = "s\<lparr>num_threads := num_threads s + 1\<rparr>"
  define td0 where "td0 = (if register_threads s then ?td\<lparr>lamport_timestamp := 0\<rparr>
    else ?td\<lparr>user_threadid := uid\<rparr>)"
  have z: "trace_stream td0 = []" "buffered_entries td0 = 0"
    by (simp_all add: td0_def new_thread_data_def)
  have "same_trace ?s (set_tls p td0 ?s)"
    using traced_set_tls [of ?s p td0] z new by (auto simp: same_trace_def buffers_ok_def)
  with same_trace_other(3) have s0: "same_trace s (set_tls p td0 ?s)"
    by (blast intro: same_trace_trans)
  from run obtain s2 where k: "same_trace (set_tls p td0 ?s) s2"
    and s': "s' = s2\<lparr>pin_threadid_set := List.insort_insert p (pin_threadid_set s2),
                   last_flushed := bm_insert bm p 0 (last_flushed s2)\<rparr>"
  proof (cases "register_threads s")
    case True
    with run that [of "set_tls p td0 ?s"] show thesis
      by (simp add: thread_start_a_def Let_def td0_def set_tls_def)
  next
    case False
    with run obtain s2 where "trace_synchronised bm p Thread_Register (set_tls p td0 ?s) = Inr s2"
      "s' = s2\<lparr>pin_threadid_set := List.insort_insert p (pin_threadid_set s2),
                   last_flushed := bm_insert bm p 0 (last_flushed s2)\<rparr>"
      by (auto simp: thread_start_a_def Let_def td0_def set_tls_def andThen_Inr)
    with that [of s2] show thesis using trace_synchronised_trace by fastforce
  qed
  have "same_trace s2 s'"
    by (simp add: s' same_trace_def buffers_ok_def traced_def)
  with s0 k show ?thesis by (blast intro: same_trace_trans)
qed

text \<open>The end of a thread writes what its buffer holds before the buffer goes.\<close>

lemma fini_trace:
  assumes run: "thread_fini_a bm p s = Inr s'"
  shows "same_trace s s'"
proof (rule same_trace_then [OF run [unfolded thread_fini_a_def]])
  fix s1
  assume r: "andThen (get_tls s1 p) (\<lambda>td.
      andThen (if 0 \<le> user_threadid td then trace_synchronised bm p Thread_Finish s1 else Inr s1)
        (\<lambda>s2. let s3 = s2\<lparr>pin_threadid_set := remove1 p (pin_threadid_set s2)\<rparr> in
          andThen (get_tls s3 p) (\<lambda>td3.
          andThen (if 0 < buffered_entries td3
              then andThen (write_file (trace_stream td3) s3) (\<lambda>s4.
                   Inr (s4\<lparr>last_flushed := bm_erase bm p (last_flushed s4)\<rparr>))
              else Inr s3)
            (\<lambda>s5. Inr (s5\<lparr>tls := (tls s5)(p := None)\<rparr>))))) = Inr s'"
  then obtain td where td: "tls s1 p = Some td" by (auto simp: andThen_Inr get_tls_Inr)
  with r obtain s2 where s2: "(if 0 \<le> user_threadid td then trace_synchronised bm p Thread_Finish s1
      else Inr s1) = Inr s2"
    and r2: "andThen (get_tls s2 p) (\<lambda>td3.
      andThen (if 0 < buffered_entries td3
          then andThen (write_file (trace_stream td3)
              (s2\<lparr>pin_threadid_set := remove1 p (pin_threadid_set s2)\<rparr>)) (\<lambda>s4.
                Inr (s4\<lparr>last_flushed := bm_erase bm p (last_flushed s4)\<rparr>))
          else Inr (s2\<lparr>pin_threadid_set := remove1 p (pin_threadid_set s2)\<rparr>))
        (\<lambda>s5. Inr (s5\<lparr>tls := (tls s5)(p := None)\<rparr>))) = Inr s'"
    by (auto simp: andThen_Inr get_tls_def Let_def)
  have k: "same_trace s1 s2"
    using s2 trace_synchronised_trace [of bm p Thread_Finish s1 s2] by (auto split: if_splits)
  from r2 obtain td2 where td2: "tls s2 p = Some td2" by (auto simp: andThen_Inr get_tls_Inr)
  have "buffers_ok s' \<and> traced s' = traced s2" if ok: "buffers_ok s2"
  proof -
    have n: "buffered_entries td2 = int (length (trace_stream td2))" by (rule buffers_okD [OF ok td2])
    have e: "tls s' = (tls s2)(p := None)" "trace_file s' = trace_file s2 @ trace_stream td2"
      using r2 td2 n by (auto simp: andThen_Inr write_file_Inr split: if_splits)
    have "traced s' = traced s2"
      using sum_buffered_upd [OF buffers_ok_finite [OF ok], of p None] td2
      by (simp add: traced_def e add.commute)
    with ok show ?thesis by (simp add: buffers_ok_def e)
  qed
  with k show "same_trace s1 s'" by (simp add: same_trace_def)
qed

text \<open>What a call traces: the access of a footer, and no other access.\<close>

definition access_entry :: "access \<Rightarrow> entry" where
  "access_entry a = (acc_time a, acc_user a, acc_event a)"

lemma is_access_event [simp]: "is_access (access_event td)"
  by (simp add: access_event_def)

lemma footer_trace:
  assumes run: "memory_access_footer_a bm p s = Inr s'"
  shows "adds_trace (mset (map access_entry (new_accesses (Footer p) s))) s s'"
proof -
  from run obtain td where td: "tls s p = Some td"
    by (auto simp: memory_access_footer_a_def andThen_Inr get_tls_Inr)
  show ?thesis
  proof (cases "trace_this_access td")
    case True
    with run td have "touch_buffer bm p (access_time td) False (set_tls p
        (td\<lparr>trace_stream := trace_stream td @
           [(access_time td, user_threadid td, access_event td)]\<rparr>) s) = Inr s'"
      by (simp add: memory_access_footer_a_def Let_def)
    from touch_buffer_trace [OF this _ td] td True show ?thesis
      by (simp add: adds_trace_def access_entry_def)
  next
    case False
    with run td show ?thesis by (simp add: memory_access_footer_a_def adds_trace_def)
  qed
qed

lemma run_call_trace:
  assumes run: "run_call bm c s = Inr s'" and st: "start_ok c s"
  shows "adds_trace (mset (map access_entry (new_accesses c s))) s s'"
proof (cases c)
  case (Footer p)
  with run footer_trace [of bm p s s'] show ?thesis by simp
next
  case (Register p uid)
  from run Register have r: "register_thread_a bm p uid s = Inr s'" by simp
  have "same_trace s s'"
  proof (rule same_trace_then [OF r [unfolded register_thread_a_def]])
    fix s1
    assume r: "(if register_threads s1 then andThen (get_tls s1 p) (\<lambda>td.
        trace_synchronised bm p Thread_Register (set_tls p (td\<lparr>user_threadid := uid\<rparr>) s1))
      else Inr s1) = Inr s'"
    show "same_trace s1 s'"
    proof (cases "register_threads s1")
      case True
      with r obtain td where td: "tls s1 p = Some td"
        "trace_synchronised bm p Thread_Register (set_tls p (td\<lparr>user_threadid := uid\<rparr>) s1) = Inr s'"
        by (auto simp: andThen_Inr get_tls_Inr)
      have "same_trace s1 (set_tls p (td\<lparr>user_threadid := uid\<rparr>) s1)"
        by (rule same_trace_set_tls [OF td(1)]) simp_all
      with trace_synchronised_trace [OF td(2)] show ?thesis by (auto intro: same_trace_trans)
    qed (use r in simp)
  qed
  with Register show ?thesis by (simp add: same_trace_adds)
next
  case (Roi p b name)
  from run Roi have r: "change_roi_a bm p b name s = Inr s'" by simp
  have "same_trace s s'"
    by (rule same_trace_then [OF r [unfolded change_roi_a_def]])
      (auto intro: same_trace_trans same_trace_other(2) dest!: trace_synchronised_trace)
  with Roi show ?thesis by (simp add: same_trace_adds)
next
  case (Ctxt_Change p)
  from run Ctxt_Change have r: "ctxt_change_release bm p s = Inr s'" by simp
  have "same_trace s s'"
  proof (rule same_trace_then [OF r [unfolded ctxt_change_release_def]])
    fix s1
    assume r: "andThen (get_tls s1 p) (\<lambda>td.
        let time = lamport_timestamp td + 1;
            td1 = td\<lparr>trace_stream := trace_stream td @ [(time, user_threadid td, Context_Change)]\<rparr>
        in touch_buffer bm p time False (set_tls p td1 s1)) = Inr s'"
    then obtain td where td: "tls s1 p = Some td" by (auto simp: andThen_Inr get_tls_Inr)
    with r have t: "touch_buffer bm p (lamport_timestamp td + 1) False (set_tls p
        (td\<lparr>trace_stream := trace_stream td @
           [(lamport_timestamp td + 1, user_threadid td, Context_Change)]\<rparr>) s1) = Inr s'"
      by (simp add: Let_def)
    from touch_buffer_trace [OF t _ td] show "same_trace s1 s'" by (simp add: same_trace_def)
  qed
  with Ctxt_Change show ?thesis by (simp add: same_trace_adds)
next
  case (Call name p sp a b d)
  from run Call have r: "andThen (release_address_locks p s)
      (trace_function bm p (Function_Call name sp a b d)) = Inr s'"
    by (simp add: function_call_a_def)
  have "same_trace s s'"
    by (rule same_trace_then [OF r]) (simp add: trace_function_trace)
  with Call show ?thesis by (simp add: same_trace_adds)
next
  case (Return name p sp v)
  from run Return have r: "andThen (release_address_locks p s)
      (trace_function bm p (Function_Return name sp v)) = Inr s'"
    by (simp add: function_return_a_def)
  have "same_trace s s'"
    by (rule same_trace_then [OF r]) (simp add: trace_function_trace)
  with Return show ?thesis by (simp add: same_trace_adds)
qed (use run st in \<open>auto simp: same_trace_adds [symmetric] memory_access_release_a_def
  intro: header_trace accesses_trace acquire_trace release_trace start_trace fini_trace\<close>)

lemma reachable_trace:
  assumes "reachable bm k r"
  shows "buffers_ok (run_state r) \<and> traced (run_state r) = mset (map access_entry (run_log r))"
  using assms
proof (induction rule: reachable.induct)
  case (start s)
  then show ?case by (auto simp: tracer_main_def buffers_ok_def traced_def split: if_splits)
next
  case (more r c r')
  from more.hyps(2) obtain s' x where s': "run_call bm c (run_state r) = Inr s'"
      "start_ok c (run_state r)"
    and r': "r' = \<lparr>run_state = s', run_phase = (run_phase r)(caller c := x),
       run_log = run_log r @ new_accesses c (run_state r)\<rparr>"
    by (rule run_stepE)
  from run_call_trace [OF s'] more.IH show ?case by (simp add: r' adds_trace_def)
qed

end
