(* ===== verification/Fifo_Interface.thy ===== *)
theory Fifo_Interface
  imports Prelude
begin

text \<open>
  The interface between the merge loop and the queue it keeps per thread: a first-in first-out
  queue of lines with strictly increasing timestamps, whose operations can fail. \<open>entries\<close> is
  the abstract contents, \<open>top_time\<close> the largest timestamp ever accepted, \<open>closed\<close> says that no
  line may follow, \<open>room\<close> bounds the length of a line that is always accepted.
\<close>

locale timed_fifo =
  fixes inv :: "'q \<Rightarrow> bool"
    and entries :: "'q \<Rightarrow> (int \<times> string) list"
    and closed :: "'q \<Rightarrow> bool"
    and top_time :: "'q \<Rightarrow> int"
    and room :: "'q \<Rightarrow> nat"
    and enq :: "'q \<Rightarrow> int \<Rightarrow> string \<Rightarrow> (bool \<times> 'q) result"
    and deq :: "'q \<Rightarrow> char_array \<Rightarrow> ((int \<times> nat \<times> char_array) option \<times> 'q) result"
    and head_time :: "'q \<Rightarrow> int"
  assumes enq_law: "inv q \<Longrightarrow> top_time q < t \<Longrightarrow> \<not> closed q \<Longrightarrow> length s \<le> room q \<Longrightarrow>
      \<exists>q'. enq q t s = Inr (entries q = [], q') \<and> inv q' \<and> entries q' = entries q @ [(t, s)] \<and>
        top_time q' = t \<and> \<not> closed q' \<and> room q \<le> room q'"
    and deq_law: "inv q \<Longrightarrow> entries q = (t, s) # rest \<Longrightarrow> length s \<le> extent a \<Longrightarrow>
      \<exists>a' q'. deq q a = Inr (Some (t, length s, a'), q') \<and>
        extent a' = extent a \<and> array_text a' (length s) = Some s \<and> inv q' \<and> entries q' = rest \<and>
        top_time q' = top_time q \<and> closed q' = closed q \<and> room q' = room q"
    and deq_empty_law: "inv q \<Longrightarrow> entries q = [] \<Longrightarrow> deq q a = Inr (None, q)"
    and head_law: "inv q \<Longrightarrow> head_time q = (case entries q of [] \<Rightarrow> -1 | (t, s) # _ \<Rightarrow> t)"
    and times_increase: "inv q \<Longrightarrow> sorted_wrt (<) (map fst (entries q))"
    and times_bounded: "inv q \<Longrightarrow> e \<in> set (entries q) \<Longrightarrow> 0 < fst e \<and> fst e \<le> top_time q"
begin

lemma head_Cons: "inv q \<Longrightarrow> entries q = (t, s) # rest \<Longrightarrow> head_time q = t"
  by (simp add: head_law)

lemma head_empty: "inv q \<Longrightarrow> head_time q = -1 \<longleftrightarrow> entries q = []"
  using times_bounded [of q] by (cases "entries q") (fastforce simp: head_law)+

lemma head_nonempty: "inv q \<Longrightarrow> 0 \<le> head_time q \<longleftrightarrow> entries q \<noteq> []"
  using times_bounded [of q] by (cases "entries q") (fastforce simp: head_law)+

lemma head_least: "inv q \<Longrightarrow> e \<in> set (entries q) \<Longrightarrow> head_time q \<le> fst e"
  using times_increase [of q] by (cases "entries q") (auto simp: head_law order_le_less)

lemma rest_later:
  "inv q \<Longrightarrow> entries q = (t, s) # rest \<Longrightarrow> e \<in> set rest \<Longrightarrow> t < fst e"
  using times_increase [of q] by auto

text \<open>A line put into an empty queue comes out again, unchanged.\<close>

lemma enq_deq:
  assumes "inv q" "entries q = []" "top_time q < t" "\<not> closed q" "length s \<le> room q"
    and "length s \<le> extent a"
  shows "\<exists>q1 a' q2. enq q t s = Inr (True, q1) \<and> deq q1 a = Inr (Some (t, length s, a'), q2) \<and>
    array_text a' (length s) = Some s \<and> entries q2 = []"
proof -
  obtain q1 where q1: "enq q t s = Inr (True, q1)" "inv q1" "entries q1 = [(t, s)]"
    using enq_law [OF assms(1,3-5)] assms(2) by auto
  with deq_law [OF q1(2,3) assms(6)] show ?thesis by auto
qed

end

end
