(* ===== verification/Thread_Queue.thy ===== *)
theory Thread_Queue
  imports Fifo_Interface
begin

text \<open>
  The per-thread queue of \<open>src/src/merge.cpp\<close> (class \<open>thread_queue_t\<close>, lines 62 to 217): the trace
  lines of one thread, held back to back in a circular character buffer, with a queue of
  (timestamp, length) pairs beside it. The operations are the code's own (the two-part
  \<open>memcpy\<close> that wraps, the growth by four), the abstraction \<open>tq_entries\<close> reads the lines back,
  and the interface \<open>timed_fifo\<close> states what the merge relies on.
\<close>

section \<open>State and operations\<close>

record thread_queue =
  buffer :: char_array
  buffer_capacity :: nat
  buffer_size :: nat
  buffer_next_insert :: nat
  buffer_next_pop :: nat
  time_size_queue :: "(int \<times> nat) list"
  max_timestamp :: int
  thread_finished :: bool

definition initial_capacity :: nat where
  "initial_capacity = 1024 * 1024"

definition new_thread_queue :: "nat \<Rightarrow> thread_queue" where
  "new_thread_queue cap =
     \<lparr>buffer = new_array cap, buffer_capacity = cap, buffer_size = 0,
      buffer_next_insert = 0, buffer_next_pop = 0, time_size_queue = [],
      max_timestamp = 0, thread_finished = False\<rparr>"

definition enlargen_char_buffer :: "thread_queue \<Rightarrow> thread_queue result" where
  "enlargen_char_buffer q =
     (let new_capacity = 4 * buffer_capacity q;
          new_buffer = new_array new_capacity;
          copy1_len = min (buffer_size q) (buffer_capacity q - buffer_next_pop q);
          copy2_len = buffer_size q - copy1_len
      in case memcpy new_buffer 0 (buffer q) (buffer_next_pop q) copy1_len of
           Inl f \<Rightarrow> Inl f
         | Inr b1 \<Rightarrow>
           (case memcpy b1 copy1_len (buffer q) 0 copy2_len of
              Inl f \<Rightarrow> Inl f
            | Inr b2 \<Rightarrow>
              Inr (q\<lparr>buffer := b2, buffer_next_pop := 0, buffer_next_insert := buffer_size q,
                     buffer_capacity := new_capacity\<rparr>)))"

text \<open>The copy of a line into the ring and the update of the counters.\<close>

definition ring_insert :: "thread_queue \<Rightarrow> int \<Rightarrow> string \<Rightarrow> thread_queue result" where
  "ring_insert q timestamp s =
     (let copy1_idx = buffer_next_insert q;
          copy1_len = min (buffer_capacity q - copy1_idx) (length s);
          copy2_len = length s - copy1_len
      in case memcpy (buffer q) copy1_idx (array_of s) 0 copy1_len of
           Inl f \<Rightarrow> Inl f
         | Inr b1 \<Rightarrow>
           (case memcpy b1 0 (array_of s) copy1_len copy2_len of
              Inl f \<Rightarrow> Inl f
            | Inr b2 \<Rightarrow>
              Inr (q\<lparr>buffer := b2,
                     buffer_size := buffer_size q + length s,
                     buffer_next_insert :=
                       (buffer_next_insert q + length s) mod buffer_capacity q,
                     time_size_queue := time_size_queue q @ [(timestamp, length s)]\<rparr>)))"

text \<open>
  \<open>enqueue\<close>: the two assertions, the test for room (\<open>length > _buffer_capacity - _buffer_size\<close>,
  written without the subtraction), the insertion. The result says whether the queue had
  been empty.
\<close>

definition enqueue :: "thread_queue \<Rightarrow> int \<Rightarrow> string \<Rightarrow> (bool \<times> thread_queue) result" where
  "enqueue q timestamp s =
     (if \<not> max_timestamp q < timestamp then Inl (Assertion ''timestamp > _max_timestamp'')
      else if thread_finished q then Inl (Assertion ''!_thread_finished'')
      else
        let ret = (time_size_queue q = []);
            q1 = q\<lparr>max_timestamp := timestamp\<rparr>
        in case (if buffer_capacity q1 < buffer_size q1 + length s
                 then enlargen_char_buffer q1 else Inr q1) of
             Inl f \<Rightarrow> Inl f
           | Inr q2 \<Rightarrow>
             (case ring_insert q2 timestamp s of
                Inl f \<Rightarrow> Inl f
              | Inr q3 \<Rightarrow> Inr (ret, q3)))"

text \<open>
  \<open>dequeue\<close> writes the text into the caller's array \<open>out\<close>; it returns the timestamp, the
  length and the array, or None where the queue is empty.
\<close>

definition dequeue ::
  "thread_queue \<Rightarrow> char_array \<Rightarrow> ((int \<times> nat \<times> char_array) option \<times> thread_queue) result" where
  "dequeue q out =
     (case time_size_queue q of
        [] \<Rightarrow> Inr (None, q)
      | (timestamp, len) # rest \<Rightarrow>
        (let copy1_idx = buffer_next_pop q;
             copy1_len = min len (buffer_capacity q - copy1_idx);
             copy2_len = len - copy1_len
         in case memcpy out 0 (buffer q) copy1_idx copy1_len of
              Inl f \<Rightarrow> Inl f
            | Inr o1 \<Rightarrow>
              (case memcpy o1 copy1_len (buffer q) 0 copy2_len of
                 Inl f \<Rightarrow> Inl f
               | Inr o2 \<Rightarrow>
                 Inr (Some (timestamp, len, o2),
                      q\<lparr>time_size_queue := rest,
                        buffer_size := buffer_size q - len,
                        buffer_next_pop := (buffer_next_pop q + len) mod buffer_capacity q\<rparr>))))"

definition peek :: "thread_queue \<Rightarrow> int" where
  "peek q = (case time_size_queue q of [] \<Rightarrow> -1 | (t, n) # _ \<Rightarrow> t)"

definition finish :: "thread_queue \<Rightarrow> thread_queue" where
  "finish q = q\<lparr>thread_finished := True\<rparr>"

definition is_finished :: "thread_queue \<Rightarrow> bool" where
  "is_finished q = thread_finished q"

text \<open>
  The debug check \<open>_assert_repinv\<close>: the loop that pops a copy of the queue and sums the sizes,
  then the comparison with \<open>_buffer_size\<close>.
\<close>

fun repinv_loop :: "(int \<times> nat) list \<Rightarrow> nat \<Rightarrow> nat" where
  "repinv_loop [] sz = sz"
| "repinv_loop (p # copy_q) sz = repinv_loop copy_q (sz + snd p)"

definition assert_repinv :: "thread_queue \<Rightarrow> bool" where
  "assert_repinv q = (repinv_loop (time_size_queue q) 0 = buffer_size q)"

section \<open>Reading the lines back\<close>

text \<open>The \<open>k\<close>-th occupied cell of the ring, and the text of the occupied part.\<close>

definition ring_cell :: "thread_queue \<Rightarrow> nat \<Rightarrow> char option" where
  "ring_cell q k = cell (buffer q) ((buffer_next_pop q + k) mod buffer_capacity q)"

definition tq_text :: "thread_queue \<Rightarrow> string" where
  "tq_text q = map (\<lambda>k. the (ring_cell q k)) [0..<buffer_size q]"

fun cut :: "string \<Rightarrow> (int \<times> nat) list \<Rightarrow> (int \<times> string) list" where
  "cut s [] = []"
| "cut s ((t, n) # ts) = (t, take n s) # cut (drop n s) ts"

definition tq_entries :: "thread_queue \<Rightarrow> (int \<times> string) list" where
  "tq_entries q = cut (tq_text q) (time_size_queue q)"

text \<open>
  The representation invariant: the counters agree with each other and with the array, every
  occupied cell was written, the sizes add up (the code's own \<open>_assert_repinv\<close>), and the
  timestamps are positive, strictly increasing and bounded by \<open>_max_timestamp\<close>.
\<close>

definition tq_inv :: "thread_queue \<Rightarrow> bool" where
  "tq_inv q \<longleftrightarrow>
     0 < buffer_capacity q \<and> extent (buffer q) = buffer_capacity q \<and>
     buffer_size q \<le> buffer_capacity q \<and> buffer_next_pop q < buffer_capacity q \<and>
     buffer_next_insert q = (buffer_next_pop q + buffer_size q) mod buffer_capacity q \<and>
     (\<forall>k < buffer_size q. ring_cell q k \<noteq> None) \<and>
     sum_list (map snd (time_size_queue q)) = buffer_size q \<and>
     sorted_wrt (<) (map fst (time_size_queue q)) \<and>
     (\<forall>t \<in> fst ` set (time_size_queue q). 0 < t \<and> t \<le> max_timestamp q) \<and>
     0 \<le> max_timestamp q"

section \<open>The ring\<close>

lemma mod_wrap: "(a::nat) < 2 * c \<Longrightarrow> a mod c = (if a < c then a else a - c)"
  by (auto simp: not_less le_mod_geq)

lemma tq_inv_bounds:
  assumes "tq_inv q"
  shows "0 < buffer_capacity q" "extent (buffer q) = buffer_capacity q"
    "buffer_size q \<le> buffer_capacity q" "buffer_next_pop q < buffer_capacity q"
    "buffer_next_insert q = (buffer_next_pop q + buffer_size q) mod buffer_capacity q"
    "buffer_next_insert q < buffer_capacity q"
  using assms by (simp_all add: tq_inv_def)

lemma ring_cell_written: "tq_inv q \<Longrightarrow> k < buffer_size q \<Longrightarrow> ring_cell q k = Some (tq_text q ! k)"
  by (auto simp: tq_inv_def tq_text_def)

lemma length_tq_text [simp]: "length (tq_text q) = buffer_size q"
  by (simp add: tq_text_def)

lemma tq_text_eqI:
  "buffer_size q = length s \<Longrightarrow> (\<And>k. k < length s \<Longrightarrow> ring_cell q k = Some (s ! k)) \<Longrightarrow> tq_text q = s"
  by (rule nth_equalityI) (simp_all add: tq_text_def)

text \<open>
  Positions in the ring: \<open>p\<close> the first occupied cell, \<open>n\<close> the occupied length, \<open>ins\<close> the next
  free cell, \<open>c1\<close> and \<open>c2\<close> the parts of a line of length \<open>l\<close> before and after the wrap, \<open>i\<close> the
  array index of the \<open>k\<close>-th cell.
\<close>

lemma ring_positions:
  fixes p n c l k i ins c1 c2 :: nat
  assumes "p < c" "n + l \<le> c" "k < n + l" "c1 + c2 = l"
    and i: "p + k < c \<and> i = p + k \<or> c \<le> p + k \<and> i + c = p + k"
    and ins: "p + n < c \<and> ins = p + n \<or> c \<le> p + n \<and> ins + c = p + n"
    and c1: "ins + l \<le> c \<and> c1 = l \<or> c < ins + l \<and> ins + c1 = c"
  shows "k < n \<Longrightarrow> \<not> i < c2 \<and> (i < ins \<or> ins + c1 \<le> i)"
    and "n \<le> k \<Longrightarrow> i < c2 \<and> c1 + i + n = k \<or> c2 \<le> i \<and> ins \<le> i \<and> i < ins + c1 \<and> i + n = ins + k"
  using i ins c1 assms(1-4) by (elim disjE conjE; simp)+

lemma wrap_cases:
  "(a::nat) < 2 * c \<Longrightarrow> a < c \<and> a mod c = a \<or> c \<le> a \<and> a mod c + c = a"
  by (auto simp: mod_wrap)

text \<open>What the two copies of an insertion leave in the array, cell by cell.\<close>

lemma ring_insert_cells:
  assumes inv: "tq_inv q" and room: "buffer_size q + length s \<le> buffer_capacity q"
  obtains b where
    "ring_insert q t s =
       Inr (q\<lparr>buffer := b, buffer_size := buffer_size q + length s,
              buffer_next_insert := (buffer_next_insert q + length s) mod buffer_capacity q,
              time_size_queue := time_size_queue q @ [(t, length s)]\<rparr>)"
    "extent b = buffer_capacity q"
    "\<And>k. k < buffer_size q + length s \<Longrightarrow>
       cell b ((buffer_next_pop q + k) mod buffer_capacity q) =
         (if k < buffer_size q then ring_cell q k else Some (s ! (k - buffer_size q)))"
proof -
  note B = tq_inv_bounds [OF inv]
  define ins where "ins = buffer_next_insert q"
  define c1 where "c1 = min (buffer_capacity q - ins) (length s)"
  define c2 where "c2 = length s - c1"
  define b1 where "b1 = (buffer q)\<lparr>cell := (\<lambda>i. if ins \<le> i \<and> i < ins + c1
    then cell (array_of s) (0 + (i - ins)) else cell (buffer q) i)\<rparr>"
  define b where "b = b1\<lparr>cell := (\<lambda>i. if 0 \<le> i \<and> i < 0 + c2
    then cell (array_of s) (c1 + (i - 0)) else cell b1 i)\<rparr>"
  have lens: "c1 + c2 = length s" "c1 \<le> length s"
    by (simp_all add: c1_def c2_def)
  have ins_lt: "ins < buffer_capacity q"
    using B(6) by (simp add: ins_def)
  have m1: "memcpy (buffer q) ins (array_of s) 0 c1 = Inr b1"
    unfolding b1_def using B(2) ins_lt by (intro memcpy_ok) (auto simp: c1_def)
  have m2: "memcpy b1 0 (array_of s) c1 c2 = Inr b"
    unfolding b_def using B(2) lens room by (intro memcpy_ok) (auto simp: b1_def)
  have insert: "ring_insert q t s =
       Inr (q\<lparr>buffer := b, buffer_size := buffer_size q + length s,
              buffer_next_insert := (buffer_next_insert q + length s) mod buffer_capacity q,
              time_size_queue := time_size_queue q @ [(t, length s)]\<rparr>)"
    using m1 m2 by (simp add: ring_insert_def Let_def flip: ins_def c1_def c2_def)
  have cells: "cell b ((buffer_next_pop q + k) mod buffer_capacity q) =
      (if k < buffer_size q then ring_cell q k else Some (s ! (k - buffer_size q)))"
    if k: "k < buffer_size q + length s" for k
  proof -
    define i where "i = (buffer_next_pop q + k) mod buffer_capacity q"
    have at: "cell b i = (if i < c2 then cell (array_of s) (c1 + i)
        else if ins \<le> i \<and> i < ins + c1 then cell (array_of s) (i - ins) else cell (buffer q) i)"
      by (simp add: b_def b1_def)
    have i: "buffer_next_pop q + k < buffer_capacity q \<and> i = buffer_next_pop q + k \<or>
        buffer_capacity q \<le> buffer_next_pop q + k \<and>
        i + buffer_capacity q = buffer_next_pop q + k"
      using wrap_cases [of "buffer_next_pop q + k" "buffer_capacity q"] B(4) k room
      by (auto simp: i_def)
    have n: "buffer_next_pop q + buffer_size q < buffer_capacity q \<and>
          ins = buffer_next_pop q + buffer_size q \<or>
        buffer_capacity q \<le> buffer_next_pop q + buffer_size q \<and>
          ins + buffer_capacity q = buffer_next_pop q + buffer_size q"
      using wrap_cases [of "buffer_next_pop q + buffer_size q" "buffer_capacity q"] B(3-5)
      by (auto simp: ins_def)
    have c: "ins + length s \<le> buffer_capacity q \<and> c1 = length s \<or>
        buffer_capacity q < ins + length s \<and> ins + c1 = buffer_capacity q"
      using ins_lt by (auto simp: c1_def)
    note pos = ring_positions [OF B(4) room k lens(1) i n c]
    show ?thesis
    proof (cases "k < buffer_size q")
      case True
      with pos(1) show ?thesis
        unfolding i_def [symmetric] at by (auto simp: ring_cell_def i_def)
    next
      case False
      with pos(2) have "i < c2 \<and> c1 + i = k - buffer_size q \<or>
          \<not> i < c2 \<and> ins \<le> i \<and> i < ins + c1 \<and> i - ins = k - buffer_size q"
        by (simp add: not_less) linarith
      with False k show ?thesis
        unfolding i_def [symmetric] at by (auto simp: array_of_def)
    qed
  qed
  have "extent b = buffer_capacity q"
    using B(2) by (simp add: b_def b1_def)
  from that [OF insert this cells] show thesis .
qed

section \<open>Correctness of the operations\<close>

lemma tq_inv_new: "0 < cap \<Longrightarrow> tq_inv (new_thread_queue cap)"
  by (simp add: tq_inv_def new_thread_queue_def)

lemma tq_entries_new: "tq_entries (new_thread_queue cap) = []"
  by (simp add: tq_entries_def new_thread_queue_def)

lemma repinv_loop_sum: "repinv_loop ts n = n + sum_list (map snd ts)"
  by (induction ts arbitrary: n) auto

lemma assert_repinv_iff: "assert_repinv q \<longleftrightarrow> sum_list (map snd (time_size_queue q)) = buffer_size q"
  by (simp add: assert_repinv_def repinv_loop_sum)

lemma tq_inv_raise_max:
  "tq_inv q \<Longrightarrow> max_timestamp q \<le> t \<Longrightarrow> tq_inv (q\<lparr>max_timestamp := t\<rparr>)"
  by (fastforce simp: tq_inv_def ring_cell_def)

lemma tq_inv_finish [simp]: "tq_inv (finish q) = tq_inv q"
  by (simp add: tq_inv_def ring_cell_def finish_def)

lemma tq_entries_finish [simp]: "tq_entries (finish q) = tq_entries q"
  by (simp add: tq_entries_def tq_text_def ring_cell_def finish_def)

lemma finish_sel [simp]:
  "thread_finished (finish q)" "max_timestamp (finish q) = max_timestamp q"
  "buffer_capacity (finish q) = buffer_capacity q" "time_size_queue (finish q) = time_size_queue q"
  by (simp_all add: finish_def)

text \<open>Growing moves the text to the front of an array four times as large and keeps the rest.\<close>

lemma enlargen_ok:
  assumes inv: "tq_inv q"
  obtains q' where "enlargen_char_buffer q = Inr q'" "tq_inv q'" "tq_text q' = tq_text q"
    "time_size_queue q' = time_size_queue q" "max_timestamp q' = max_timestamp q"
    "thread_finished q' = thread_finished q" "buffer_size q' = buffer_size q"
    "buffer_capacity q' = 4 * buffer_capacity q"
proof -
  note B = tq_inv_bounds [OF inv]
  define c1 where "c1 = min (buffer_size q) (buffer_capacity q - buffer_next_pop q)"
  define c2 where "c2 = buffer_size q - c1"
  define b1 where "b1 = (new_array (4 * buffer_capacity q))\<lparr>cell := (\<lambda>i. if 0 \<le> i \<and> i < 0 + c1
    then cell (buffer q) (buffer_next_pop q + (i - 0))
    else cell (new_array (4 * buffer_capacity q)) i)\<rparr>"
  define b where "b = b1\<lparr>cell := (\<lambda>i. if c1 \<le> i \<and> i < c1 + c2
    then cell (buffer q) (0 + (i - c1)) else cell b1 i)\<rparr>"
  define q' where "q' = q\<lparr>buffer := b, buffer_next_pop := 0,
    buffer_next_insert := buffer_size q, buffer_capacity := 4 * buffer_capacity q\<rparr>"
  have c: "c1 \<le> buffer_size q" "c1 + c2 = buffer_size q"
    "buffer_next_pop q + c1 \<le> buffer_capacity q" "c2 \<le> buffer_capacity q"
    using B(3,4) by (auto simp: c1_def c2_def)
  have m1: "memcpy (new_array (4 * buffer_capacity q)) 0 (buffer q) (buffer_next_pop q) c1 = Inr b1"
    unfolding b1_def using B(2,3) c by (intro memcpy_ok) auto
  have m2: "memcpy b1 c1 (buffer q) 0 c2 = Inr b"
    unfolding b_def using B(2,3) c by (intro memcpy_ok) (auto simp: b1_def)
  have run: "enlargen_char_buffer q = Inr q'"
    using m1 m2 by (simp add: enlargen_char_buffer_def Let_def q'_def flip: c1_def c2_def)
  have cells: "ring_cell q' k = ring_cell q k" if k: "k < buffer_size q" for k
  proof -
    have "k < c1 \<and> (buffer_next_pop q + k) mod buffer_capacity q = buffer_next_pop q + k \<or>
        c1 \<le> k \<and> (buffer_next_pop q + k) mod buffer_capacity q = k - c1"
      using wrap_cases [of "buffer_next_pop q + k" "buffer_capacity q"] B(3,4) k
      by (auto simp: c1_def)
    then show ?thesis
      using k B(3) c by (auto simp: ring_cell_def q'_def b_def b1_def)
  qed
  have str: "tq_text q' = tq_text q"
    using cells by (simp add: tq_text_def q'_def)
  have "tq_inv q'"
    using inv cells B(3) unfolding tq_inv_def
    by (auto simp: q'_def b_def b1_def)
  from that [OF run this str] show thesis by (simp add: q'_def)
qed

lemma cut_append:
  "sum_list (map snd ts) = length a \<Longrightarrow> cut (a @ s) (ts @ [(t, length s)]) = cut a ts @ [(t, s)]"
proof (induction ts arbitrary: a)
  case (Cons p ts)
  obtain t' n where p: "p = (t', n)" by (cases p)
  with Cons.prems have n: "n \<le> length a" by simp
  have "cut (drop n a @ s) (ts @ [(t, length s)]) = cut (drop n a) ts @ [(t, s)]"
    using Cons.prems p n by (intro Cons.IH) simp
  with n p show ?case by simp
qed simp

lemma times_cut [simp]: "map fst (cut s ts) = map fst ts"
  by (induction s ts rule: cut.induct) auto

lemma times_entries [simp]: "map fst (tq_entries q) = map fst (time_size_queue q)"
  by (simp add: tq_entries_def)

lemma length_entries [simp]: "length (tq_entries q) = length (time_size_queue q)"
  by (metis length_map times_entries)

lemma entries_Nil: "tq_entries q = [] \<longleftrightarrow> time_size_queue q = []"
  using length_entries [of q] by (metis length_0_conv)

text \<open>An insertion with room appends the entry.\<close>

lemma ring_insert_ok:
  assumes inv: "tq_inv q" and room: "buffer_size q + length s \<le> buffer_capacity q"
    and times: "\<forall>t' \<in> fst ` set (time_size_queue q). t' < t" "0 < t" "max_timestamp q = t"
  obtains q' where "ring_insert q t s = Inr q'" "tq_inv q'"
    "tq_entries q' = tq_entries q @ [(t, s)]"
    "max_timestamp q' = t" "thread_finished q' = thread_finished q"
    "buffer_capacity q' = buffer_capacity q"
proof -
  obtain b where
    run: "ring_insert q t s =
       Inr (q\<lparr>buffer := b, buffer_size := buffer_size q + length s,
              buffer_next_insert := (buffer_next_insert q + length s) mod buffer_capacity q,
              time_size_queue := time_size_queue q @ [(t, length s)]\<rparr>)" (is "_ = Inr ?q")
    and ext: "extent b = buffer_capacity q"
    and cells: "\<And>k. k < buffer_size q + length s \<Longrightarrow>
       cell b ((buffer_next_pop q + k) mod buffer_capacity q) =
         (if k < buffer_size q then ring_cell q k else Some (s ! (k - buffer_size q)))"
    by (rule ring_insert_cells [OF inv room, of t]) blast
  note B = tq_inv_bounds [OF inv]
  have cell': "ring_cell ?q k = Some ((tq_text q @ s) ! k)" if "k < buffer_size q + length s" for k
    using cells [OF that] ring_cell_written [OF inv]
    by (auto simp: ring_cell_def nth_append)
  then have str: "tq_text ?q = tq_text q @ s"
    by (intro tq_text_eqI) simp_all
  have inv': "tq_inv ?q"
    using inv cell' ext room times
    unfolding tq_inv_def B(5)
    by (auto simp: mod_add_left_eq add.assoc sorted_wrt_append)
  have "tq_entries ?q = tq_entries q @ [(t, s)]"
    using inv str by (simp add: tq_entries_def cut_append tq_inv_def)
  from that [OF run inv' this] times(3) show thesis by simp
qed

lemma times_le_max: "tq_inv q \<Longrightarrow> t \<in> fst ` set (tq_entries q) \<Longrightarrow> 0 < t \<and> t \<le> max_timestamp q"
  by (metis set_map times_entries tq_inv_def)

lemma enqueue_ok:
  assumes inv: "tq_inv q" and later: "max_timestamp q < t" and open_: "\<not> thread_finished q"
    and fits: "length s \<le> 3 * buffer_capacity q"
  obtains q' where "enqueue q t s = Inr (tq_entries q = [], q')" "tq_inv q'"
    "tq_entries q' = tq_entries q @ [(t, s)]" "max_timestamp q' = t" "\<not> thread_finished q'"
    "buffer_capacity q \<le> buffer_capacity q'"
proof -
  define q1 where "q1 = q\<lparr>max_timestamp := t\<rparr>"
  have q1: "tq_inv q1" "tq_entries q1 = tq_entries q" "buffer_capacity q1 = buffer_capacity q"
    "buffer_size q1 = buffer_size q" "\<not> thread_finished q1" "max_timestamp q1 = t"
    "time_size_queue q1 = time_size_queue q"
    using tq_inv_raise_max [OF inv] later open_
    by (simp_all add: q1_def tq_entries_def tq_text_def ring_cell_def)
  have times: "\<forall>t' \<in> fst ` set (time_size_queue q). t' < t" "0 < t"
    using inv later by (fastforce simp: tq_inv_def)+
  obtain q2 where q2: "(if buffer_capacity q1 < buffer_size q1 + length s
      then enlargen_char_buffer q1 else Inr q1) = Inr q2"
    "tq_inv q2" "tq_entries q2 = tq_entries q" "\<not> thread_finished q2" "max_timestamp q2 = t"
    "time_size_queue q2 = time_size_queue q" "buffer_size q2 = buffer_size q"
    "buffer_capacity q \<le> buffer_capacity q2" "buffer_size q + length s \<le> buffer_capacity q2"
  proof (cases "buffer_capacity q1 < buffer_size q1 + length s")
    case True
    obtain g where g: "enlargen_char_buffer q1 = Inr g" "tq_inv g" "tq_text g = tq_text q1"
      "time_size_queue g = time_size_queue q1" "max_timestamp g = max_timestamp q1"
      "thread_finished g = thread_finished q1" "buffer_size g = buffer_size q1"
      "buffer_capacity g = 4 * buffer_capacity q1"
      by (rule enlargen_ok [OF q1(1)]) blast
    show thesis
      by (rule that [of g])
        (use True g q1 fits tq_inv_bounds(3) [OF inv] in \<open>auto simp: tq_entries_def\<close>)
  next
    case False
    show thesis
      by (rule that [of q1]) (use False q1 in auto)
  qed
  obtain q3 where q3: "ring_insert q2 t s = Inr q3" "tq_inv q3"
    "tq_entries q3 = tq_entries q2 @ [(t, s)]" "max_timestamp q3 = t"
    "thread_finished q3 = thread_finished q2" "buffer_capacity q3 = buffer_capacity q2"
    by (rule ring_insert_ok [OF q2(2), of s t]) (use q2 times in auto)
  show thesis
  proof (rule that [of q3])
    show "enqueue q t s = Inr (tq_entries q = [], q3)"
      using later open_ q2(1) q3(1) by (simp add: enqueue_def Let_def entries_Nil flip: q1_def)
  qed (use q2 q3 in auto)
qed

lemma enqueue_stale:
  "t \<le> max_timestamp q \<Longrightarrow> enqueue q t s = Inl (Assertion ''timestamp > _max_timestamp'')"
  by (simp add: enqueue_def)

lemma enqueue_finished:
  "max_timestamp q < t \<Longrightarrow> thread_finished q \<Longrightarrow>
   enqueue q t s = Inl (Assertion ''!_thread_finished'')"
  by (simp add: enqueue_def)

lemma dequeue_empty: "tq_entries q = [] \<Longrightarrow> dequeue q a = Inr (None, q)"
  by (simp add: dequeue_def entries_Nil)

lemma peek_entries: "peek q = (case tq_entries q of [] \<Rightarrow> -1 | (t, s) # _ \<Rightarrow> t)"
  by (cases "time_size_queue q") (auto simp: peek_def tq_entries_def)

lemma tq_text_take:
  assumes "tq_inv q" and "n \<le> buffer_size q"
  shows "k < n \<Longrightarrow> cell (buffer q) ((buffer_next_pop q + k) mod buffer_capacity q) =
    Some (take n (tq_text q) ! k)"
  using ring_cell_written [OF assms(1), of k] assms(2) by (simp add: ring_cell_def)

text \<open>
  A removal hands out the oldest entry and leaves the others. The caller's array must hold the
  text, the code's own requirement on its argument.
\<close>

lemma dequeue_ok:
  assumes inv: "tq_inv q" and head: "tq_entries q = (t, s) # rest" and fits: "length s \<le> extent a"
  obtains a' q' where "dequeue q a = Inr (Some (t, length s, a'), q')"
    "extent a' = extent a" "array_text a' (length s) = Some s"
    "tq_inv q'" "tq_entries q' = rest"
    "max_timestamp q' = max_timestamp q" "thread_finished q' = thread_finished q"
    "buffer_capacity q' = buffer_capacity q"
proof -
  note B = tq_inv_bounds [OF inv]
  from head obtain n ts where tsq: "time_size_queue q = (t, n) # ts"
    by (cases "time_size_queue q") (auto simp: tq_entries_def)
  with head have s: "s = take n (tq_text q)" and rest: "rest = cut (drop n (tq_text q)) ts"
    by (simp_all add: tq_entries_def)
  have n: "n \<le> buffer_size q" "length s = n"
    using inv tsq s by (auto simp: tq_inv_def)
  define p where "p = buffer_next_pop q"
  define c1 where "c1 = min n (buffer_capacity q - p)"
  define c2 where "c2 = n - c1"
  define a1 where "a1 = a\<lparr>cell := (\<lambda>i. if 0 \<le> i \<and> i < 0 + c1
    then cell (buffer q) (p + (i - 0)) else cell a i)\<rparr>"
  define a' where "a' = a1\<lparr>cell := (\<lambda>i. if c1 \<le> i \<and> i < c1 + c2
    then cell (buffer q) (0 + (i - c1)) else cell a1 i)\<rparr>"
  define q' where "q' = q\<lparr>time_size_queue := ts, buffer_size := buffer_size q - n,
    buffer_next_pop := (p + n) mod buffer_capacity q\<rparr>"
  have c: "c1 + c2 = n" "p + c1 \<le> buffer_capacity q" "c2 \<le> buffer_capacity q"
    using B(3,4) n by (auto simp: c1_def c2_def p_def)
  have m1: "memcpy a 0 (buffer q) p c1 = Inr a1"
    unfolding a1_def using B(2) c fits n by (intro memcpy_ok) auto
  have m2: "memcpy a1 c1 (buffer q) 0 c2 = Inr a'"
    unfolding a'_def using B(2) c fits n by (intro memcpy_ok) (auto simp: a1_def)
  have run: "dequeue q a = Inr (Some (t, length s, a'), q')"
    using tsq m1 m2 n(2) by (simp add: dequeue_def Let_def q'_def flip: c1_def c2_def p_def)
  have ext: "extent a' = extent a"
    by (simp add: a'_def a1_def)
  have cells: "cell a' k = Some (s ! k)" if k: "k < length s" for k
  proof -
    have "k < c1 \<and> (p + k) mod buffer_capacity q = p + k \<or>
        c1 \<le> k \<and> (p + k) mod buffer_capacity q = k - c1"
      using wrap_cases [of "p + k" "buffer_capacity q"] B(3,4) k n
      by (auto simp: c1_def p_def)
    then have "cell a' k = cell (buffer q) ((p + k) mod buffer_capacity q)"
      using k n(2) c by (auto simp: a'_def a1_def)
    with tq_text_take [OF inv n(1), of k] k n(2) s show ?thesis by (simp add: p_def)
  qed
  have "array_text a' (length s) = Some s"
    using cells fits ext by (intro array_text_eq) auto
  moreover have ring': "ring_cell q' k = ring_cell q (n + k)" for k
    by (simp add: ring_cell_def q'_def p_def mod_add_left_eq add.assoc)
  then have str: "tq_text q' = drop n (tq_text q)"
    by (intro tq_text_eqI)
      (use n inv in \<open>auto simp: q'_def ring_cell_written\<close>)
  moreover have "((p + n) mod buffer_capacity q + (buffer_size q - n)) mod buffer_capacity q =
      (p + n + (buffer_size q - n)) mod buffer_capacity q"
    by (rule mod_add_left_eq)
  with n have idx: "buffer_next_insert q' = (buffer_next_pop q' + buffer_size q') mod buffer_capacity q'"
    using B(5) by (simp add: q'_def p_def)
  have "tq_inv q'"
    unfolding tq_inv_def ring' idx [symmetric]
    using inv tsq n B(1) by (auto simp: tq_inv_def q'_def)
  ultimately show thesis
    using that [OF run ext] rest by (simp add: q'_def tq_entries_def)
qed

lemma dequeue_overflow:
  assumes inv: "tq_inv q" and head: "tq_entries q = (t, s) # rest" and small: "extent a < length s"
  shows "dequeue q a = Inl (Undefined ''memcpy out of bounds'')"
proof -
  from head obtain n ts where tsq: "time_size_queue q = (t, n) # ts" "s = take n (tq_text q)"
    by (cases "time_size_queue q") (auto simp: tq_entries_def)
  with small have "extent a < n" by simp
  with tsq show ?thesis
    by (auto simp: dequeue_def Let_def memcpy_def)
qed

section \<open>The queue implements the interface\<close>

definition tq_room :: "thread_queue \<Rightarrow> nat" where
  "tq_room q = 3 * buffer_capacity q"

interpretation tq: timed_fifo tq_inv tq_entries is_finished max_timestamp tq_room enqueue dequeue peek
proof unfold_locales
  fix q :: thread_queue and t :: int and s :: string
  assume a: "tq_inv q" "max_timestamp q < t" "\<not> is_finished q" "length s \<le> tq_room q"
  obtain q' where "enqueue q t s = Inr (tq_entries q = [], q')" "tq_inv q'"
    "tq_entries q' = tq_entries q @ [(t, s)]" "max_timestamp q' = t" "\<not> thread_finished q'"
    "buffer_capacity q \<le> buffer_capacity q'"
    by (rule enqueue_ok [of q t s]) (use a in \<open>simp_all add: is_finished_def tq_room_def\<close>)
  then show "\<exists>q'. enqueue q t s = Inr (tq_entries q = [], q') \<and> tq_inv q' \<and>
      tq_entries q' = tq_entries q @ [(t, s)] \<and> max_timestamp q' = t \<and> \<not> is_finished q' \<and>
      tq_room q \<le> tq_room q'"
    by (auto simp: is_finished_def tq_room_def)
next
  fix q :: thread_queue and t :: int and s :: string and rest and a :: char_array
  assume a: "tq_inv q" "tq_entries q = (t, s) # rest" "length s \<le> extent a"
  obtain a' q' where "dequeue q a = Inr (Some (t, length s, a'), q')"
    "extent a' = extent a" "array_text a' (length s) = Some s" "tq_inv q'" "tq_entries q' = rest"
    "max_timestamp q' = max_timestamp q" "thread_finished q' = thread_finished q"
    "buffer_capacity q' = buffer_capacity q"
    by (rule dequeue_ok [OF a]) blast
  then show "\<exists>a' q'. dequeue q a = Inr (Some (t, length s, a'), q') \<and> extent a' = extent a \<and>
      array_text a' (length s) = Some s \<and> tq_inv q' \<and> tq_entries q' = rest \<and>
      max_timestamp q' = max_timestamp q \<and> is_finished q' = is_finished q \<and> tq_room q' = tq_room q"
    by (auto simp: is_finished_def tq_room_def)
next
  fix q :: thread_queue
  assume "tq_inv q"
  then show "sorted_wrt (<) (map fst (tq_entries q))"
    by (simp add: tq_inv_def)
next
  fix q :: thread_queue and e
  assume "tq_inv q" "e \<in> set (tq_entries q)"
  then show "0 < fst e \<and> fst e \<le> max_timestamp q"
    using times_le_max [of q "fst e"] by simp
qed (simp_all add: dequeue_empty peek_entries)

end
