(* ===== verification/Safe_Timestamp.thy ===== *)
theory Safe_Timestamp
  imports Prelude
begin

text \<open>
  Class \<open>safe_timestamp_t\<close> of \<open>src/src/merge.cpp\<close> (lines 249 to 329): for every registered thread
  the greatest timestamp read so far, and a cached minimum over the threads. An entry no later
  than the minimum can be written: no thread can still produce an earlier one. The interface
  \<open>watermark\<close> states what the merge relies on.
\<close>

section \<open>State and operations\<close>

record safe_timestamp =
  safe_timestamp_cache :: int
  tt_list :: "(int \<times> int) list"

definition new_safe_timestamp :: safe_timestamp where
  "new_safe_timestamp = \<lparr>safe_timestamp_cache = 0, tt_list = []\<rparr>"

definition timestamp :: "safe_timestamp \<Rightarrow> int" where
  "timestamp st = safe_timestamp_cache st"

fun min_loop :: "int \<Rightarrow> (int \<times> int) list \<Rightarrow> int" where
  "min_loop m [] = m"
| "min_loop m (p # ps) = min_loop (min m (snd p)) ps"

definition update_cache :: "safe_timestamp \<Rightarrow> safe_timestamp" where
  "update_cache st =
     (case tt_list st of
        [] \<Rightarrow> st
      | p # ps \<Rightarrow> st\<lparr>safe_timestamp_cache := min_loop (snd p) (p # ps)\<rparr>)"

text \<open>
  \<open>set_time\<close>: the thread's pair is found (the first one, as \<open>find_if\<close> does) and replaced, or
  appended where there is none; the minimum is computed again only where it may have changed.
\<close>

definition set_time :: "safe_timestamp \<Rightarrow> int \<Rightarrow> int \<Rightarrow> safe_timestamp" where
  "set_time st threadid t =
     (case map_of (tt_list st) threadid of
        None \<Rightarrow> update_cache (st\<lparr>tt_list := tt_list st @ [(threadid, t)]\<rparr>)
      | Some old \<Rightarrow>
        (let need_update = old \<le> safe_timestamp_cache st;
             st1 = st\<lparr>tt_list := AList.update threadid t (tt_list st)\<rparr>
         in if need_update then update_cache st1 else st1))"

fun erase_first :: "int \<Rightarrow> (int \<times> int) list \<Rightarrow> (int \<times> int) list" where
  "erase_first i [] = []"
| "erase_first i (p # ps) = (if fst p = i then ps else p # erase_first i ps)"

definition finish_thread :: "safe_timestamp \<Rightarrow> int \<Rightarrow> safe_timestamp result" where
  "finish_thread st threadid =
     (case map_of (tt_list st) threadid of
        None \<Rightarrow> Inl (Assertion ''it != _tt_list.end()'')
      | Some old \<Rightarrow> Inr (update_cache (st\<lparr>tt_list := erase_first threadid (tt_list st)\<rparr>)))"

section \<open>The interface\<close>

locale watermark =
  fixes inv :: "'s \<Rightarrow> bool"
    and last :: "'s \<Rightarrow> int \<Rightarrow> int option"
    and mark :: "'s \<Rightarrow> int"
    and set_last :: "'s \<Rightarrow> int \<Rightarrow> int \<Rightarrow> 's"
    and drop_last :: "'s \<Rightarrow> int \<Rightarrow> 's result"
  assumes set_law: "inv s \<Longrightarrow> (\<And>old. last s i = Some old \<Longrightarrow> old \<le> t) \<Longrightarrow>
      inv (set_last s i t) \<and> last (set_last s i t) = (last s)(i \<mapsto> t)"
    and drop_law: "inv s \<Longrightarrow> last s i = Some t \<Longrightarrow>
      \<exists>s'. drop_last s i = Inr s' \<and> inv s' \<and> last s' = (last s)(i := None)"
    and finite_law: "inv s \<Longrightarrow> finite (dom (last s))"
    and mark_lower: "inv s \<Longrightarrow> last s i = Some t \<Longrightarrow> mark s \<le> t"
    and mark_attained: "inv s \<Longrightarrow> last s i = Some t \<Longrightarrow> \<exists>j. last s j = Some (mark s)"
begin

text \<open>A bound on every thread's time is a bound on the mark, and the other way round.\<close>

lemma mark_greatest:
  "inv s \<Longrightarrow> last s i = Some t \<Longrightarrow> (\<And>j u. last s j = Some u \<Longrightarrow> b \<le> u) \<Longrightarrow> b \<le> mark s"
  using mark_attained by blast

lemma below_mark: "inv s \<Longrightarrow> b \<le> mark s \<Longrightarrow> last s i = Some t \<Longrightarrow> b \<le> t"
  using mark_lower by fastforce

text \<open>Later timestamps of the threads already present never lower the mark.\<close>

lemma mark_mono:
  assumes "inv s" "last s i = Some old" "old \<le> t"
  shows "mark s \<le> mark (set_last s i t)"
proof -
  have new: "inv (set_last s i t)" "last (set_last s i t) = (last s)(i \<mapsto> t)"
    using set_law [OF assms(1), of i t] assms by auto
  then obtain j where "last (set_last s i t) j = Some (mark (set_last s i t))"
    using mark_attained [OF new(1), of i t] by auto
  with new(2) assms mark_lower [OF assms(1)] show ?thesis
    by (auto split: if_splits dest: order_trans)
qed

end

section \<open>The code implements the interface\<close>

definition st_inv :: "safe_timestamp \<Rightarrow> bool" where
  "st_inv st \<longleftrightarrow> distinct (map fst (tt_list st)) \<and>
     (tt_list st \<noteq> [] \<longrightarrow> safe_timestamp_cache st = Min (snd ` set (tt_list st)))"

definition st_last :: "safe_timestamp \<Rightarrow> int \<Rightarrow> int option" where
  "st_last st = map_of (tt_list st)"

lemma min_loop_Min: "min_loop m ps = Min (insert m (snd ` set ps))"
proof (induction ps arbitrary: m)
  case (Cons p ps)
  have "Min (insert (min m (snd p)) (snd ` set ps)) = Min (insert m (insert (snd p) (snd ` set ps)))"
    by (cases "set ps = {}") (auto simp: min.assoc)
  with Cons show ?case by simp
qed simp

lemma update_cache_sel [simp]: "tt_list (update_cache st) = tt_list st"
  by (simp add: update_cache_def split: list.split)

lemma update_cache_inv: "distinct (map fst (tt_list st)) \<Longrightarrow> st_inv (update_cache st)"
  by (cases "tt_list st") (simp_all add: st_inv_def update_cache_def min_loop_Min)

lemma map_of_erase_first:
  "distinct (map fst ps) \<Longrightarrow> map_of (erase_first i ps) = (map_of ps)(i := None)"
  by (induction ps) (auto simp: fun_eq_iff map_of_eq_None_iff)

lemma keys_erase_first: "set (map fst (erase_first i ps)) \<subseteq> set (map fst ps)"
  by (induction ps) auto

lemma distinct_erase_first: "distinct (map fst ps) \<Longrightarrow> distinct (map fst (erase_first i ps))"
  using keys_erase_first by (induction ps) fastforce+

lemma map_of_snoc: "map_of ps i = None \<Longrightarrow> [i \<mapsto> t] ++ map_of ps = (map_of ps)(i \<mapsto> t)"
  by (auto simp: fun_eq_iff map_add_def split: option.split)

text \<open>
  Where the old time is above the cached minimum, the minimum is held by another thread, and a
  later time of this one leaves it alone: the code's test for recomputing is enough.
\<close>

lemma set_time_skip:
  assumes "st_inv st" "map_of (tt_list st) i = Some old" "safe_timestamp_cache st < old" "old \<le> t"
  shows "Min (snd ` set (AList.update i t (tt_list st))) = safe_timestamp_cache st"
proof -
  let ?l = "tt_list st"
  have d: "distinct (map fst ?l)" and ne: "?l \<noteq> []"
    and c: "safe_timestamp_cache st = Min (snd ` set ?l)"
    using assms(1,2) by (auto simp: st_inv_def)
  have d': "distinct (map fst (AList.update i t ?l))"
    using d by (simp add: distinct_update)
  have mem: "(j, u) \<in> set (AList.update i t ?l) \<longleftrightarrow> (if j = i then u = t else (j, u) \<in> set ?l)" for j u
    unfolding map_of_eq_Some_iff [OF d', symmetric] map_of_eq_Some_iff [OF d, symmetric]
    by (auto simp: update_conv)
  have "Min (snd ` set ?l) \<in> snd ` set ?l"
    using ne by (intro Min_in) auto
  then obtain p where p: "Min (snd ` set ?l) = snd p" "p \<in> set ?l"
    by (rule imageE)
  have "safe_timestamp_cache st = snd p"
    by (rule trans [OF c p(1)])
  then have k: "(fst p, safe_timestamp_cache st) \<in> set ?l"
    using p(2) by (simp only: prod.collapse)
  then have "fst p \<noteq> i" using assms(2,3) map_of_is_SomeI [OF d k] by auto
  with k mem have "(fst p, safe_timestamp_cache st) \<in> set (AList.update i t ?l)" by simp
  then have "safe_timestamp_cache st \<in> snd ` set (AList.update i t ?l)"
    by (metis image_eqI snd_conv)
  moreover have "safe_timestamp_cache st \<le> u" if u: "u \<in> snd ` set (AList.update i t ?l)" for u
  proof -
    from u obtain j where j: "(j, u) \<in> set (AList.update i t ?l)" by auto
    show ?thesis
    proof (cases "j = i")
      case True
      with j mem assms(3,4) show ?thesis by auto
    next
      case False
      with j mem have "u \<in> snd ` set ?l" by (metis image_eqI snd_conv)
      then show ?thesis unfolding c by (intro Min_le) auto
    qed
  qed
  ultimately show ?thesis by (intro Min_eqI) auto
qed

lemma set_time_ok:
  assumes inv: "st_inv st" and mono: "\<And>old. st_last st i = Some old \<Longrightarrow> old \<le> t"
  shows "st_inv (set_time st i t)" "st_last (set_time st i t) = (st_last st)(i \<mapsto> t)"
proof -
  have d: "distinct (map fst (tt_list st))"
    using inv by (simp add: st_inv_def)
  show "st_last (set_time st i t) = (st_last st)(i \<mapsto> t)"
    by (cases "map_of (tt_list st) i")
      (auto simp: st_last_def set_time_def Let_def map_of_snoc update_conv')
  show "st_inv (set_time st i t)"
  proof (cases "map_of (tt_list st) i")
    case None
    then have "i \<notin> set (map fst (tt_list st))"
      by (simp add: map_of_eq_None_iff)
    with None d show ?thesis
      by (auto simp: set_time_def intro!: update_cache_inv)
  next
    case (Some old)
    then have "old \<le> t" using mono by (simp add: st_last_def)
    have d': "distinct (map fst (AList.update i t (tt_list st)))"
      using d by (simp add: distinct_update)
    show ?thesis
    proof (cases "old \<le> safe_timestamp_cache st")
      case True
      with Some d' show ?thesis
        by (simp add: set_time_def update_cache_inv)
    next
      case False
      with Some d' \<open>old \<le> t\<close> set_time_skip [OF inv Some] show ?thesis
        by (simp add: set_time_def st_inv_def)
    qed
  qed
qed

lemma finish_thread_ok:
  assumes "st_inv st" "st_last st i = Some t"
  shows "\<exists>st'. finish_thread st i = Inr st' \<and> st_inv st' \<and> st_last st' = (st_last st)(i := None)"
proof -
  have d: "distinct (map fst (tt_list st))"
    using assms(1) by (simp add: st_inv_def)
  then have "st_inv (update_cache (st\<lparr>tt_list := erase_first i (tt_list st)\<rparr>))"
    by (intro update_cache_inv) (simp add: distinct_erase_first)
  with assms(2) d show ?thesis
    by (simp add: finish_thread_def st_last_def map_of_erase_first)
qed

lemma finish_thread_unknown:
  "st_last st i = None \<Longrightarrow> finish_thread st i = Inl (Assertion ''it != _tt_list.end()'')"
  by (simp add: finish_thread_def st_last_def)

interpretation wm: watermark st_inv st_last timestamp set_time finish_thread
proof unfold_locales
  fix st i t
  assume st: "st_inv st" "st_last st i = Some t"
  then have ne: "tt_list st \<noteq> []" "(i, t) \<in> set (tt_list st)"
    by (auto simp: st_last_def dest: map_of_SomeD)
  with st(1) have c: "timestamp st = Min (snd ` set (tt_list st))"
    by (simp add: st_inv_def timestamp_def)
  then show "timestamp st \<le> t"
    using ne(2) by (force intro: Min_le)
  have "timestamp st \<in> snd ` set (tt_list st)"
    using ne(1) c Min_in [of "snd ` set (tt_list st)"] by simp
  then show "\<exists>j. st_last st j = Some (timestamp st)"
    using st(1) by (force simp: st_inv_def st_last_def)
qed (simp_all add: set_time_ok finish_thread_ok, simp add: st_last_def finite_dom_map_of)

lemma st_inv_new: "st_inv new_safe_timestamp"
  by (simp add: st_inv_def new_safe_timestamp_def)

lemma st_last_new: "st_last new_safe_timestamp = Map.empty"
  by (simp add: st_last_def new_safe_timestamp_def)

end
