(* ===== verification/Merge.thy ===== *)
theory Merge
  imports Thread_Queue Safe_Timestamp Trace_Line
begin

text \<open>
  The merge program \<open>src/src/merge.cpp\<close>: the globals, the loop \<open>merge()\<close> (lines 359 to 397) and
  \<open>main\<close> (lines 399 to 454). Its input is the whole of standard input as a string, its result
  the text written to standard output, or the assertion that stops it.
\<close>

section \<open>The priority queue\<close>

text \<open>
  \<open>time_threadid_min\<close> is a \<open>std::priority_queue\<close> whose comparison looks at the times only. The
  standard says that \<open>top\<close> is an element with no smaller one; which of several with the same time
  is left open. The contents are a list, the choice is the argument \<open>pick\<close> of the model, and
  \<open>heap_choice\<close> is what the standard promises of it.
\<close>

type_synonym time_threadid = "int \<times> int"

locale heap_choice =
  fixes pick :: "time_threadid list \<Rightarrow> time_threadid"
  assumes pick_mem: "h \<noteq> [] \<Longrightarrow> pick h \<in> set h"
    and pick_least: "e \<in> set h \<Longrightarrow> fst (pick h) \<le> fst e"
begin

lemma pick_pop: "h \<noteq> [] \<Longrightarrow> mset (remove1 (pick h) h) + {#pick h#} = mset h"
  using pick_mem by simp

end

text \<open>\<open>compare_first_greater_t\<close>: the smallest time comes out first.\<close>

definition compare_first_greater :: "time_threadid \<Rightarrow> time_threadid \<Rightarrow> bool" where
  "compare_first_greater x y \<longleftrightarrow> fst x > fst y"

text \<open>One concrete choice: of the elements no other precedes, the first in the list.\<close>

fun first_min :: "time_threadid list \<Rightarrow> time_threadid" where
  "first_min [] = (0, 0)"
| "first_min [e] = e"
| "first_min (e # es) =
     (let m = first_min es in if compare_first_greater e m then m else e)"

lemma first_min_mem: "h \<noteq> [] \<Longrightarrow> first_min h \<in> set h"
  by (induction h rule: first_min.induct) (auto simp: Let_def)

lemma first_min_least: "e \<in> set h \<Longrightarrow> fst (first_min h) \<le> fst e"
  by (induction h rule: first_min.induct)
    (fastforce simp: Let_def compare_first_greater_def)+

interpretation fm: heap_choice first_min
  by unfold_locales (simp_all add: first_min_mem first_min_least)

section \<open>The state\<close>

text \<open>
  \<open>written\<close> is the log of the calls of \<open>std::cout.write\<close>, each with the timestamp just popped;
  the text on standard output is \<open>stdout_text\<close>.
\<close>

record merge_state =
  thread_queue_map :: "(int \<times> thread_queue) list"
  time_threadid_min :: "time_threadid list"
  safe_times :: safe_timestamp
  active_threads :: int
  merge_buf :: char_array
  written :: "(int \<times> string) list"
  line_count :: int

definition new_merge_state :: merge_state where
  "new_merge_state =
     \<lparr>thread_queue_map = [], time_threadid_min = [], safe_times = new_safe_timestamp,
      active_threads = 0, merge_buf = new_array 128, written = [], line_count = 0\<rparr>"

definition lines_text :: "string list \<Rightarrow> string" where
  "lines_text ls = concat (map (\<lambda>l. l @ [NL]) ls)"

definition stdout_text :: "merge_state \<Rightarrow> string" where
  "stdout_text s = lines_text (map snd (written s))"

section \<open>\<open>merge()\<close>\<close>

text \<open>The body for one entry: dequeue, write, drop a finished empty queue, push the next head.\<close>

definition merge_entry :: "time_threadid \<Rightarrow> merge_state \<Rightarrow> merge_state result" where
  "merge_entry min_entry s =
     (let h = remove1 min_entry (time_threadid_min s) in
      case map_of (thread_queue_map s) (snd min_entry) of
        None \<Rightarrow> Inl (Assertion ''it != thread_queue_map.end()'')
      | Some q \<Rightarrow>
        (case dequeue q (merge_buf s) of
           Inl f \<Rightarrow> Inl f
         | Inr (None, q') \<Rightarrow> Inl (Assertion ''not_empty'')
         | Inr (Some (popped_time, popped_length, buf), q') \<Rightarrow>
             if popped_time \<noteq> fst min_entry
             then Inl (Assertion ''popped_time == min_entry.first'')
             else
               (case array_text buf popped_length of
                  None \<Rightarrow> Inl (Undefined ''read of an unwritten character'')
                | Some txt \<Rightarrow>
                  let next_time = peek q' in
                  Inr (s\<lparr>merge_buf := buf,
                         written := written s @ [(popped_time, txt)],
                         thread_queue_map :=
                           (if next_time = -1 \<and> is_finished q'
                            then AList.delete (snd min_entry) (thread_queue_map s)
                            else AList.update (snd min_entry) q' (thread_queue_map s)),
                         time_threadid_min :=
                           (if 0 \<le> next_time then (next_time, snd min_entry) # h else h)\<rparr>))))"

definition queued :: "merge_state \<Rightarrow> nat" where
  "queued s = alist_sum (\<lambda>q. length (time_size_queue q)) (thread_queue_map s)"

lemma dequeue_shorter:
  "dequeue q a = Inr (Some r, q') \<Longrightarrow> length (time_size_queue q') < length (time_size_queue q)"
  by (auto simp: dequeue_def Let_def split: list.splits sum.splits)

lemma merge_entry_queued: "merge_entry e s = Inr s' \<Longrightarrow> queued s' < queued s"
proof -
  assume m: "merge_entry e s = Inr s'"
  then obtain q r q' where q: "map_of (thread_queue_map s) (snd e) = Some q"
    "dequeue q (merge_buf s) = Inr (Some r, q')"
    and s': "thread_queue_map s' = AList.delete (snd e) (thread_queue_map s) \<or>
      thread_queue_map s' = AList.update (snd e) q' (thread_queue_map s)"
    by (auto simp: merge_entry_def Let_def split: option.splits sum.splits if_splits)
  from q(2) have "length (time_size_queue q') < length (time_size_queue q)"
    by (rule dequeue_shorter)
  with s' show ?thesis
    using alist_sum_delete_le [OF q(1), of "\<lambda>q. length (time_size_queue q)"]
      alist_sum_update [OF q(1), of "\<lambda>q. length (time_size_queue q)" q']
    by (auto simp: queued_def)
qed

text \<open>
  The loop. \<open>top()\<close> of an empty priority queue is undefined behaviour; each round that goes on
  takes one entry out of a queue, so the loop ends.
\<close>

function merge :: "(time_threadid list \<Rightarrow> time_threadid) \<Rightarrow> merge_state \<Rightarrow> merge_state result" where
  "merge pick s =
     (if time_threadid_min s = [] then Inl (Undefined ''top of an empty priority queue'')
      else
        let min_entry = pick (time_threadid_min s);
            any_threads_active = 0 < active_threads s;
            all_threads_observed = timestamp (safe_times s);
            keep_merging = \<not> any_threads_active \<or> fst min_entry \<le> all_threads_observed
        in if keep_merging
           then (case merge_entry min_entry s of
                   Inl f \<Rightarrow> Inl f
                 | Inr s' \<Rightarrow> if time_threadid_min s' = [] then Inr s' else merge pick s')
           else Inr s)"
  by pat_completeness auto
termination
  by (relation "measure (\<lambda>(pick, s). queued s)") (auto simp: merge_entry_queued)

declare merge.simps [simp del]

section \<open>\<open>main\<close>\<close>

text \<open>The thread counts and the safe timestamp (lines 412 to 421).\<close>

definition note_thread :: "parsed_line \<Rightarrow> merge_state \<Rightarrow> merge_state result" where
  "note_thread p s =
     (case (if is_thread_register p then Inr (s\<lparr>active_threads := active_threads s + 1\<rparr>)
            else if is_thread_finish p then
              (case finish_thread (safe_times s) (line_thread p) of
                 Inl f \<Rightarrow> Inl f
               | Inr st \<Rightarrow>
                   Inr (s\<lparr>active_threads := active_threads s - 1, safe_times := st\<rparr>))
            else Inr s) of
        Inl f \<Rightarrow> Inl f
      | Inr s1 \<Rightarrow>
          Inr (if \<not> is_thread_finish p \<and> 0 \<le> line_thread p
               then s1\<lparr>safe_times := set_time (safe_times s1) (line_thread p) (line_time p)\<rparr>
               else s1))"

text \<open>The line is put into the queue of its thread (lines 425 to 448).\<close>

definition enqueue_line ::
  "nat \<Rightarrow> parsed_line \<Rightarrow> string \<Rightarrow> merge_state \<Rightarrow> merge_state result" where
  "enqueue_line cap p txt s =
     (let q = (case map_of (thread_queue_map s) (line_thread p) of
                 None \<Rightarrow> new_thread_queue cap
               | Some q \<Rightarrow> q)
      in case enqueue q (line_time p) txt of
           Inl f \<Rightarrow> Inl f
         | Inr (was_empty, q1) \<Rightarrow>
             (let q2 = (if is_thread_finish p then finish q1 else q1) in
              Inr (s\<lparr>thread_queue_map := AList.update (line_thread p) q2 (thread_queue_map s),
                     time_threadid_min :=
                       (if was_empty then (line_time p, line_thread p) # time_threadid_min s
                        else time_threadid_min s)\<rparr>)))"

text \<open>The text that is kept of a line: all of it, or without the timestamp and its tab.\<close>

definition kept_text :: "bool \<Rightarrow> parsed_line \<Rightarrow> string \<Rightarrow> string" where
  "kept_text keep_timestamps p buf = (if keep_timestamps then buf else drop (pos1 p + 1) buf)"

text \<open>\<open>continue\<close>: a sync line of a registered thread is not queued.\<close>

definition skipped :: "parsed_line \<Rightarrow> bool" where
  "skipped p \<longleftrightarrow> \<not> is_thread_finish p \<and> 0 \<le> line_thread p \<and> is_sync p"

definition process_line ::
  "(time_threadid list \<Rightarrow> time_threadid) \<Rightarrow> nat \<Rightarrow> bool \<Rightarrow> string \<Rightarrow> merge_state \<Rightarrow>
   merge_state result" where
  "process_line pick cap keep_timestamps buf s =
     (case parse_line buf of
        Inl f \<Rightarrow> Inl f
      | Inr p \<Rightarrow>
        (case note_thread p (s\<lparr>line_count := line_count s + 1\<rparr>) of
           Inl f \<Rightarrow> Inl f
         | Inr s1 \<Rightarrow>
             if skipped p then Inr s1
             else
               (case enqueue_line cap p (kept_text keep_timestamps p buf) s1 of
                  Inl f \<Rightarrow> Inl f
                | Inr s2 \<Rightarrow> merge pick s2)))"

text \<open>
  The reading loop: \<open>buf\<close> has 128 characters, and \<open>parse_line\<close> and \<open>strlen\<close> read it as a C
  string.
\<close>

function read_lines ::
  "(time_threadid list \<Rightarrow> time_threadid) \<Rightarrow> nat \<Rightarrow> bool \<Rightarrow> string \<Rightarrow> merge_state \<Rightarrow>
   merge_state result" where
  "read_lines pick cap keep_timestamps inp s =
     (case getline 128 inp of
        None \<Rightarrow> Inr s
      | Some (l, rest) \<Rightarrow>
        (case process_line pick cap keep_timestamps (c_string l) s of
           Inl f \<Rightarrow> Inl f
         | Inr s' \<Rightarrow> read_lines pick cap keep_timestamps rest s'))"
  by pat_completeness auto
termination
  by (relation "measure (\<lambda>(pick, cap, keep_timestamps, inp, s). length inp)")
    (auto dest: length_getline)

declare read_lines.simps [simp del]

definition merge_main ::
  "(time_threadid list \<Rightarrow> time_threadid) \<Rightarrow> nat \<Rightarrow> bool \<Rightarrow> string \<Rightarrow> string result" where
  "merge_main pick cap keep_timestamps inp =
     (case read_lines pick cap keep_timestamps inp new_merge_state of
        Inl f \<Rightarrow> Inl f
      | Inr s \<Rightarrow> if time_threadid_min s = [] then Inr (stdout_text s)
                 else Inl (Assertion ''time_threadid_min.empty()''))"

text \<open>The program as it is built: its argument \<open>-t\<close> and its initial capacity.\<close>

definition merge_program ::
  "(time_threadid list \<Rightarrow> time_threadid) \<Rightarrow> string list \<Rightarrow> string \<Rightarrow> string result" where
  "merge_program pick argv inp =
     merge_main pick initial_capacity (1 < length argv \<and> argv ! 1 = ''-t'') inp"

end
