(* ===== verification/Merge_Correct.thy ===== *)
theory Merge_Correct
  imports Merge "HOL-Library.Sublist"
begin

text \<open>
  Correctness of the merge program. The contract \<open>accepted\<close> says what the pintool promises of
  its trace file (a thread's times increase; a thread starts, and an unregistered thread
  speaks, later than everything before); under it no assertion fails, no undefined behaviour
  is reached, and the output is the input's lines in the order of their timestamps.
\<close>

declare map_of_eq_Some_iff [simp del]

section \<open>The contract of the input\<close>

text \<open>
  \<open>live\<close> maps every thread that has registered and not finished to its last time, \<open>ended\<close> holds
  the finished ones, \<open>latest\<close> is the greatest time so far.
\<close>

record history =
  live :: "int \<Rightarrow> int option"
  ended :: "int list"
  latest :: int

definition no_history :: history where
  "no_history = \<lparr>live = Map.empty, ended = [], latest = 0\<rparr>"

definition line_ok :: "history \<Rightarrow> parsed_line \<Rightarrow> bool" where
  "line_ok h p \<longleftrightarrow>
     (if is_thread_register p
      then 0 \<le> line_thread p \<and> live h (line_thread p) = None \<and> line_thread p \<notin> set (ended h) \<and>
           latest h < line_time p \<and> \<not> is_thread_finish p \<and> \<not> is_sync p
      else if line_thread p < 0
      then latest h < line_time p \<and> \<not> is_thread_finish p
      else case live h (line_thread p) of
             None \<Rightarrow> False
           | Some t \<Rightarrow> t < line_time p)"

definition advance :: "history \<Rightarrow> parsed_line \<Rightarrow> history" where
  "advance h p =
     h\<lparr>live := (if is_thread_finish p then (live h)(line_thread p := None)
                else if 0 \<le> line_thread p then (live h)(line_thread p \<mapsto> line_time p)
                else live h),
       ended := (if is_thread_finish p then line_thread p # ended h else ended h),
       latest := max (latest h) (line_time p)\<rparr>"

fun accepted :: "history \<Rightarrow> parsed_line list \<Rightarrow> bool" where
  "accepted h [] = True"
| "accepted h (p # ps) = (line_ok h p \<and> accepted (advance h p) ps)"

definition final_history :: "parsed_line list \<Rightarrow> history" where
  "final_history ps = foldl advance no_history ps"

section \<open>The invariant\<close>

definition queue_ok :: "history \<Rightarrow> int \<Rightarrow> thread_queue \<Rightarrow> bool" where
  "queue_ok h i q \<longleftrightarrow>
     tq_inv q \<and> 127 \<le> tq_room q \<and> (\<forall>e \<in> set (tq_entries q). length (snd e) \<le> 127) \<and>
     max_timestamp q \<le> latest h \<and>
     (if i < 0 then \<not> is_finished q
      else case live h i of
             Some t \<Rightarrow> \<not> is_finished q \<and> max_timestamp q \<le> t
           | None \<Rightarrow> is_finished q \<and> tq_entries q \<noteq> [] \<and> i \<in> set (ended h))"

text \<open>The heap holds the head of every queue that has one, once.\<close>

definition heap_ok :: "(int \<times> thread_queue) list \<Rightarrow> time_threadid list \<Rightarrow> bool" where
  "heap_ok m hp \<longleftrightarrow> distinct hp \<and>
     (\<forall>t i. (t, i) \<in> set hp \<longleftrightarrow> (\<exists>q. map_of m i = Some q \<and> 0 \<le> peek q \<and> t = peek q))"

text \<open>What has been written is in order and precedes everything that is or may come in.\<close>

definition written_ok :: "history \<Rightarrow> merge_state \<Rightarrow> bool" where
  "written_ok h s \<longleftrightarrow>
     sorted (map fst (written s)) \<and>
     (\<forall>t \<in> fst ` set (written s).
        t \<le> latest h \<and> (\<forall>i u. live h i = Some u \<longrightarrow> t \<le> u) \<and>
        (\<forall>i q. map_of (thread_queue_map s) i = Some q \<longrightarrow>
           (\<forall>e \<in> set (tq_entries q). t \<le> fst e)))"

definition history_ok :: "history \<Rightarrow> bool" where
  "history_ok h \<longleftrightarrow> 0 \<le> latest h \<and>
     (\<forall>i t. live h i = Some t \<longrightarrow> 0 \<le> i \<and> 0 < t \<and> t \<le> latest h \<and> i \<notin> set (ended h)) \<and>
     (\<forall>i \<in> set (ended h). 0 \<le> i)"

definition merge_inv :: "history \<Rightarrow> merge_state \<Rightarrow> bool" where
  "merge_inv h s \<longleftrightarrow>
     history_ok h \<and>
     distinct (map fst (thread_queue_map s)) \<and>
     (\<forall>i q. map_of (thread_queue_map s) i = Some q \<longrightarrow> queue_ok h i q) \<and>
     heap_ok (thread_queue_map s) (time_threadid_min s) \<and>
     st_inv (safe_times s) \<and> st_last (safe_times s) = live h \<and>
     active_threads s = int (card (dom (live h))) \<and>
     extent (merge_buf s) = 128 \<and> written_ok h s"

text \<open>Every line that was queued is either written or waiting.\<close>

definition waiting :: "merge_state \<Rightarrow> (int \<times> string) multiset" where
  "waiting s = alist_sum (\<lambda>q. mset (tq_entries q)) (thread_queue_map s)"

definition handled :: "merge_state \<Rightarrow> (int \<times> string) multiset" where
  "handled s = mset (written s) + waiting s"

lemma merge_inv_queue:
  "merge_inv h s \<Longrightarrow> map_of (thread_queue_map s) i = Some q \<Longrightarrow> queue_ok h i q"
  by (simp add: merge_inv_def)

lemma heap_entry:
  assumes "merge_inv h s" "(t, i) \<in> set (time_threadid_min s)"
  obtains q ln rest where "map_of (thread_queue_map s) i = Some q" "queue_ok h i q"
    "tq_entries q = (t, ln) # rest" "peek q = t" "length ln \<le> 127"
proof -
  from assms obtain q where q: "map_of (thread_queue_map s) i = Some q" "0 \<le> peek q" "t = peek q"
    by (auto simp: merge_inv_def heap_ok_def)
  have ok: "queue_ok h i q"
    using assms(1) q(1) by (rule merge_inv_queue)
  then have inv: "tq_inv q" by (simp add: queue_ok_def)
  from q(2) tq.head_nonempty [OF inv] have "tq_entries q \<noteq> []" by simp
  then obtain t' ln rest where e: "tq_entries q = (t', ln) # rest"
    by (cases "tq_entries q") auto
  with tq.head_Cons [OF inv e] q(3) have "t' = t" by simp
  with e ok have "length ln \<le> 127"
    by (auto simp: queue_ok_def)
  show thesis
    by (rule that [OF q(1) ok _ _ \<open>length ln \<le> 127\<close>, of rest])
      (simp_all add: e \<open>t' = t\<close> q(3) [symmetric])
qed

text \<open>A least head is no later than any waiting entry.\<close>

lemma least_head:
  assumes inv: "merge_inv h s" and least: "\<And>e. e \<in> set (time_threadid_min s) \<Longrightarrow> t \<le> fst e"
    and q: "map_of (thread_queue_map s) i = Some q" and e: "e \<in> set (tq_entries q)"
  shows "t \<le> fst e"
proof -
  have tqi: "tq_inv q"
    using merge_inv_queue [OF inv q] by (simp add: queue_ok_def)
  have "0 \<le> peek q"
    using tq.head_nonempty [OF tqi] e by auto
  with inv q have "(peek q, i) \<in> set (time_threadid_min s)"
    by (auto simp: merge_inv_def heap_ok_def)
  with least have "t \<le> peek q" by fastforce
  with tq.head_least [OF tqi e] show ?thesis by simp
qed

section \<open>One round of the merge loop\<close>

text \<open>The map after a round: the queue of the entry's thread is updated, or dropped.\<close>

lemma heap_ok_pop:
  assumes hp: "heap_ok m hp" and d: "distinct (map fst m)" and q: "map_of m i = Some q"
    and m': "map_of m' = (map_of m)(i := (if drop_it then None else Some q'))"
    and drop: "drop_it \<Longrightarrow> peek q' = -1"
    and t: "t = peek q" "0 \<le> t"
  shows "heap_ok m' (if 0 \<le> peek q' then (peek q', i) # remove1 (t, i) hp else remove1 (t, i) hp)"
proof -
  have dist: "distinct hp" and mem: "\<And>t' j. (t', j) \<in> set hp \<longleftrightarrow>
      (\<exists>q. map_of m j = Some q \<and> 0 \<le> peek q \<and> t' = peek q)"
    using hp by (auto simp: heap_ok_def)
  have r: "set (remove1 (t, i) hp) = set hp - {(t, i)}" "distinct (remove1 (t, i) hp)"
    using dist by simp_all
  have r_mem: "(t', j) \<in> set (remove1 (t, i) hp) \<longleftrightarrow> j \<noteq> i \<and> (t', j) \<in> set hp" for t' j
    using r(1) q t mem by auto
  show ?thesis
    unfolding heap_ok_def using r(2) r_mem mem m' drop
    by (auto simp: if_distrib split: if_splits)
qed

lemma merge_entry_ok:
  assumes inv: "merge_inv h s" and e: "(t, i) \<in> set (time_threadid_min s)"
    and least: "\<And>e. e \<in> set (time_threadid_min s) \<Longrightarrow> t \<le> fst e"
    and safe: "\<And>j u. live h j = Some u \<Longrightarrow> t \<le> u"
  obtains s' ln where "merge_entry (t, i) s = Inr s'" "merge_inv h s'"
    "written s' = written s @ [(t, ln)]" "handled s' = handled s"
    "active_threads s' = active_threads s" "safe_times s' = safe_times s"
proof -
  obtain q ln rest where q: "map_of (thread_queue_map s) i = Some q" and ok: "queue_ok h i q"
    and ent: "tq_entries q = (t, ln) # rest" and peek_q: "peek q = t" and len: "length ln \<le> 127"
    by (rule heap_entry [OF inv e]) blast
  have tqi: "tq_inv q" using ok by (simp add: queue_ok_def)
  have buf: "length ln \<le> extent (merge_buf s)"
    using inv len by (simp add: merge_inv_def)
  obtain a' q' where deq: "dequeue q (merge_buf s) = Inr (Some (t, length ln, a'), q')"
    "extent a' = extent (merge_buf s)" "array_text a' (length ln) = Some ln"
    "tq_inv q'" "tq_entries q' = rest" "max_timestamp q' = max_timestamp q"
    "is_finished q' = is_finished q" "tq_room q' = tq_room q"
    using tq.deq_law [OF tqi ent buf] by blast
  have t_pos: "0 < t"
    using tq.times_bounded [OF tqi, of "(t, ln)"] ent by simp
  define gone where "gone = (peek q' = -1 \<and> is_finished q')"
  define m' where "m' = (if gone then AList.delete i (thread_queue_map s)
    else AList.update i q' (thread_queue_map s))"
  define hp' where "hp' = (if 0 \<le> peek q' then (peek q', i) # remove1 (t, i) (time_threadid_min s)
    else remove1 (t, i) (time_threadid_min s))"
  define s' where "s' = s\<lparr>merge_buf := a', written := written s @ [(t, ln)],
    thread_queue_map := m', time_threadid_min := hp'\<rparr>"
  have run: "merge_entry (t, i) s = Inr s'"
    using q deq by (simp add: merge_entry_def Let_def s'_def m'_def hp'_def gone_def)
  have d: "distinct (map fst (thread_queue_map s))"
    using inv by (simp add: merge_inv_def)
  have m'_map: "map_of m' = (map_of (thread_queue_map s))(i := (if gone then None else Some q'))"
    by (auto simp: m'_def update_conv' delete_conv')
  have gone_iff: "gone \<longleftrightarrow> rest = [] \<and> is_finished q"
    using tq.head_empty [OF deq(4)] deq(5,7) by (simp add: gone_def)
  have ok': "queue_ok h j r" if "map_of m' j = Some r" for j r
  proof (cases "j = i")
    case True
    with that m'_map have r: "r = q'" "\<not> gone" by (auto split: if_splits)
    have "\<forall>e \<in> set rest. length (snd e) \<le> 127"
      using ok ent by (simp add: queue_ok_def)
    with ok deq r gone_iff ent True show ?thesis
      by (auto simp: queue_ok_def split: option.splits)
  next
    case False
    with that m'_map inv show ?thesis by (simp add: merge_inv_queue)
  qed
  have heap: "heap_ok m' hp'"
    unfolding hp'_def
    by (rule heap_ok_pop [OF _ d q m'_map])
      (use inv peek_q t_pos in \<open>auto simp: merge_inv_def gone_def\<close>)
  have t_least: "t \<le> fst x" if "map_of m' j = Some r" "x \<in> set (tq_entries r)" for j r x
  proof (cases "j = i")
    case True
    with that m'_map deq(5) have "x \<in> set (tq_entries q)"
      using ent by (auto split: if_splits)
    with least_head [OF inv least q] show ?thesis by blast
  next
    case False
    with that m'_map have "map_of (thread_queue_map s) j = Some r" by simp
    with least_head [OF inv least] that(2) show ?thesis by blast
  qed
  have t_latest: "t \<le> latest h"
    using tq.times_bounded [OF tqi, of "(t, ln)"] ent ok by (simp add: queue_ok_def)
  have old: "u \<le> fst x" if "u \<in> fst ` set (written s)" "map_of m' j = Some r" "x \<in> set (tq_entries r)"
    for u j r x
  proof (cases "j = i")
    case True
    with that m'_map deq(5) have "x \<in> set (tq_entries q)"
      using ent by (auto split: if_splits)
    with inv that(1) q show ?thesis by (auto simp: merge_inv_def written_ok_def)
  next
    case False
    with that m'_map have "map_of (thread_queue_map s) j = Some r" by simp
    with inv that show ?thesis by (auto simp: merge_inv_def written_ok_def)
  qed
  have "u \<le> t" if "u \<in> fst ` set (written s)" for u
    using inv that q ent by (fastforce simp: merge_inv_def written_ok_def)
  then have wr: "written_ok h s'"
    using inv t_least t_latest safe old
    unfolding written_ok_def merge_inv_def s'_def
    by (auto simp: sorted_append)
  have inv': "merge_inv h s'"
    using inv ok' heap wr deq(2) d
    by (simp add: merge_inv_def s'_def m'_def distinct_update distinct_delete)
  have "handled s' = handled s"
  proof -
    let ?f = "\<lambda>q. mset (tq_entries q)"
    have "add_mset (t, ln) (alist_sum ?f m') = alist_sum ?f (thread_queue_map s)"
    proof (cases gone)
      case True
      with alist_sum_delete [OF d q, of ?f] gone_iff ent show ?thesis
        by (simp add: m'_def)
    next
      case False
      with alist_sum_update [OF q, of ?f q'] ent deq(5) show ?thesis
        by (simp add: m'_def)
    qed
    then show ?thesis by (simp add: handled_def waiting_def s'_def)
  qed
  from that [OF run inv' _ this] show thesis by (simp add: s'_def)
qed

section \<open>The merge loop\<close>

lemma in_alist_sum_mset:
  "e \<in># alist_sum (\<lambda>q. mset (f q)) m \<longleftrightarrow> (\<exists>i q. (i, q) \<in> set m \<and> e \<in> set (f q))"
  by (induction m) (simp, force)

lemma in_waiting:
  assumes "merge_inv h s"
  shows "e \<in># waiting s \<longleftrightarrow>
    (\<exists>i q. map_of (thread_queue_map s) i = Some q \<and> e \<in> set (tq_entries q))"
proof -
  have "distinct (map fst (thread_queue_map s))"
    using assms by (simp add: merge_inv_def)
  then show ?thesis
    by (simp add: waiting_def in_alist_sum_mset map_of_eq_Some_iff)
qed

lemma waiting_empty:
  assumes "merge_inv h s" "time_threadid_min s = []"
  shows "waiting s = {#}"
proof -
  have "e \<notin># waiting s" for e
    unfolding in_waiting [OF assms(1)]
  proof (intro notI, elim exE conjE)
    fix i q
    assume q: "map_of (thread_queue_map s) i = Some q" and e: "e \<in> set (tq_entries q)"
    have "tq_inv q"
      using merge_inv_queue [OF assms(1) q] by (simp add: queue_ok_def)
    with e have "0 \<le> peek q"
      using tq.head_nonempty by (metis empty_iff empty_set)
    with q assms(1) have "(peek q, i) \<in> set (time_threadid_min s)"
      by (auto simp: merge_inv_def heap_ok_def)
    with assms(2) show False by simp
  qed
  then show ?thesis by blast
qed

text \<open>
  What the loop leaves: nothing that could be written is still waiting. With no active thread
  everything has been written; otherwise the rest is later than the safe timestamp.
\<close>

definition settled :: "merge_state \<Rightarrow> bool" where
  "settled s \<longleftrightarrow> (\<forall>e. e \<in># waiting s \<longrightarrow> 0 < active_threads s \<and> timestamp (safe_times s) < fst e)"

lemma no_active:
  assumes "merge_inv h s" "\<not> 0 < active_threads s"
  shows "live h = Map.empty"
proof -
  have "finite (dom (live h))"
    using assms(1) wm.finite_law [of "safe_times s"] by (simp add: merge_inv_def)
  moreover have "card (dom (live h)) = 0"
    using assms by (simp add: merge_inv_def)
  ultimately show ?thesis by simp
qed

context heap_choice
begin

lemma merge_ok:
  assumes "merge_inv h s" "time_threadid_min s \<noteq> []"
  shows "\<exists>s'. merge pick s = Inr s' \<and> merge_inv h s' \<and> handled s' = handled s \<and> settled s' \<and>
    active_threads s' = active_threads s \<and> safe_times s' = safe_times s \<and>
    prefix (written s) (written s')"
  using assms
proof (induction "queued s" arbitrary: s rule: less_induct)
  case less
  note inv = less.prems(1) and ne = less.prems(2)
  obtain t i where e: "pick (time_threadid_min s) = (t, i)"
    by fastforce
  have mem: "(t, i) \<in> set (time_threadid_min s)"
    using pick_mem [OF ne] e by simp
  have least: "t \<le> fst x" if "x \<in> set (time_threadid_min s)" for x
    using pick_least [OF that] e by simp
  show ?case
  proof (cases "\<not> 0 < active_threads s \<or> t \<le> timestamp (safe_times s)")
    case stop: False
    then have "settled s"
      using least_head [OF inv least] unfolding settled_def in_waiting [OF inv] by fastforce
    with stop inv ne e show ?thesis
      by (simp add: merge.simps [of pick s] Let_def)
  next
    case go: True
    have safe: "t \<le> u" if u: "live h j = Some u" for j u
    proof -
      have "0 < active_threads s"
        using no_active [OF inv] u by (cases "0 < active_threads s") simp_all
      with go have "t \<le> timestamp (safe_times s)" by simp
      moreover have "st_inv (safe_times s)" "st_last (safe_times s) j = Some u"
        using inv u by (simp_all add: merge_inv_def)
      ultimately show ?thesis using wm.below_mark by blast
    qed
    obtain s1 ln where s1: "merge_entry (t, i) s = Inr s1" "merge_inv h s1"
      "written s1 = written s @ [(t, ln)]" "handled s1 = handled s"
      "active_threads s1 = active_threads s" "safe_times s1 = safe_times s"
      by (rule merge_entry_ok [OF inv mem least safe]) blast
    show ?thesis
    proof (cases "time_threadid_min s1 = []")
      case True
      with waiting_empty [OF s1(2)] have "settled s1"
        by (simp add: settled_def)
      with True s1 go ne e show ?thesis
        by (auto simp: merge.simps [of pick s] Let_def)
    next
      case False
      from less.hyps [OF merge_entry_queued [OF s1(1)] s1(2) False] obtain s' where
        "merge pick s1 = Inr s'" "merge_inv h s'" "handled s' = handled s1" "settled s'"
        "active_threads s' = active_threads s1" "safe_times s' = safe_times s1"
        "prefix (written s1) (written s')" by blast
      with False s1 go ne e show ?thesis
        by (auto simp: merge.simps [of pick s] Let_def intro: append_prefixD)
    qed
  qed
qed

end

section \<open>One line of input\<close>

lemma history_advance:
  assumes "history_ok h" "line_ok h p"
  shows "history_ok (advance h p)" "0 < line_time p"
proof -
  have "(\<exists>t. live h (line_thread p) = Some t \<and> t < line_time p) \<or> latest h < line_time p"
    using assms(2) by (auto simp: line_ok_def split: if_splits option.splits)
  then show pos: "0 < line_time p"
    using assms(1) by (fastforce simp: history_ok_def)
  show "history_ok (advance h p)"
    using assms pos
    by (auto simp: history_ok_def advance_def line_ok_def le_max_iff_disj
        split: if_splits option.splits)
qed

lemma written_before:
  assumes "merge_inv h s" "line_ok h p" "t \<in> fst ` set (written s)"
  shows "t \<le> line_time p"
proof -
  have "t \<le> latest h" "\<And>i u. live h i = Some u \<Longrightarrow> t \<le> u"
    using assms(1,3) by (auto simp: merge_inv_def written_ok_def)
  with assms(2) show ?thesis
    by (fastforce simp: line_ok_def split: if_splits option.splits)
qed

lemma card_dom_upd:
  "finite (dom m) \<Longrightarrow> card (dom (m(i \<mapsto> t))) = (if m i = None then card (dom m) + 1 else card (dom m))"
  by (auto simp: card_insert_if insert_absorb domIff)

lemma card_dom_del:
  "finite (dom m) \<Longrightarrow> m i \<noteq> None \<Longrightarrow> card (dom (m(i := None))) = card (dom m) - 1 \<and> 0 < card (dom m)"
  by (auto simp: card_gt_0_iff card_Diff_singleton domIff)

text \<open>The counts and the safe timestamp follow the history.\<close>

lemma note_thread_ok:
  assumes inv: "merge_inv h s" and ok: "line_ok h p"
  obtains s1 where "note_thread p s = Inr s1"
    "st_inv (safe_times s1)" "st_last (safe_times s1) = live (advance h p)"
    "active_threads s1 = int (card (dom (live (advance h p))))"
    "thread_queue_map s1 = thread_queue_map s" "time_threadid_min s1 = time_threadid_min s"
    "merge_buf s1 = merge_buf s" "written s1 = written s"
proof -
  have st: "st_inv (safe_times s)" "st_last (safe_times s) = live h"
    "active_threads s = int (card (dom (live h)))"
    using inv by (simp_all add: merge_inv_def)
  have fin: "finite (dom (live h))"
    using wm.finite_law [OF st(1)] st(2) by simp
  consider (fin) t where "is_thread_finish p" "\<not> is_thread_register p" "0 \<le> line_thread p"
      "live h (line_thread p) = Some t"
    | (reg) "is_thread_register p" "\<not> is_thread_finish p" "0 \<le> line_thread p"
      "live h (line_thread p) = None"
    | (known) t where "\<not> is_thread_register p" "\<not> is_thread_finish p" "0 \<le> line_thread p"
      "live h (line_thread p) = Some t" "t < line_time p"
    | (other) "\<not> is_thread_register p" "\<not> is_thread_finish p" "line_thread p < 0"
    using ok by (auto simp: line_ok_def split: if_splits option.splits)
  then show thesis
  proof cases
    case (fin t)
    then obtain st' where st': "finish_thread (safe_times s) (line_thread p) = Inr st'"
      "st_inv st'" "st_last st' = (live h)(line_thread p := None)"
      using wm.drop_law [OF st(1)] st(2) by auto
    show ?thesis
      by (rule that [of "s\<lparr>active_threads := active_threads s - 1, safe_times := st'\<rparr>"])
        (use fin st st' card_dom_del [OF \<open>finite (dom (live h))\<close>, of "line_thread p"]
          in \<open>auto simp: note_thread_def advance_def of_nat_diff\<close>)
  next
    case reg
    then have "st_inv (set_time (safe_times s) (line_thread p) (line_time p))"
      "st_last (set_time (safe_times s) (line_thread p) (line_time p)) =
        (live h)(line_thread p \<mapsto> line_time p)"
      using wm.set_law [OF st(1), of "line_thread p" "line_time p"] st(2) by auto
    with reg st card_dom_upd [OF fin] show ?thesis
      by (intro that [of "s\<lparr>active_threads := active_threads s + 1,
          safe_times := set_time (safe_times s) (line_thread p) (line_time p)\<rparr>"])
        (auto simp: note_thread_def advance_def)
  next
    case (known t)
    then have "st_inv (set_time (safe_times s) (line_thread p) (line_time p))"
      "st_last (set_time (safe_times s) (line_thread p) (line_time p)) =
        (live h)(line_thread p \<mapsto> line_time p)"
      using wm.set_law [OF st(1), of "line_thread p" "line_time p"] st(2) by auto
    with known st card_dom_upd [OF fin] show ?thesis
      by (intro that [of "s\<lparr>safe_times := set_time (safe_times s) (line_thread p) (line_time p)\<rparr>"])
        (auto simp: note_thread_def advance_def)
  next
    case other
    with st show ?thesis
      by (intro that [of s]) (auto simp: note_thread_def advance_def)
  qed
qed

text \<open>The line's queue, old or new, takes it.\<close>

definition queue_for :: "nat \<Rightarrow> merge_state \<Rightarrow> int \<Rightarrow> thread_queue" where
  "queue_for cap s i = (case map_of (thread_queue_map s) i of
     None \<Rightarrow> new_thread_queue cap | Some q \<Rightarrow> q)"

lemma queue_for_ready:
  assumes inv: "merge_inv h s" and ok: "line_ok h p" and cap: "43 \<le> cap"
  defines "q \<equiv> queue_for cap s (line_thread p)"
  shows "tq_inv q" "127 \<le> tq_room q" "\<forall>e \<in> set (tq_entries q). length (snd e) \<le> 127"
    "max_timestamp q < line_time p" "\<not> is_finished q"
proof -
  have h: "history_ok h" using inv by (simp add: merge_inv_def)
  have "tq_inv q \<and> 127 \<le> tq_room q \<and> (\<forall>e \<in> set (tq_entries q). length (snd e) \<le> 127) \<and>
    max_timestamp q < line_time p \<and> \<not> is_finished q"
  proof (cases "map_of (thread_queue_map s) (line_thread p)")
    case None
    have "tq_entries q = []" "q = new_thread_queue cap"
      using None by (simp_all add: q_def queue_for_def tq_entries_new)
    with cap tq_inv_new [of cap] history_advance(2) [OF h ok] show ?thesis
      by (simp add: tq_room_def is_finished_def) (simp add: new_thread_queue_def)
  next
    case (Some r)
    with inv have r: "q = r" "queue_ok h (line_thread p) r"
      by (simp_all add: q_def queue_for_def merge_inv_queue)
    with ok show ?thesis
      by (auto simp: queue_ok_def line_ok_def split: if_splits option.splits)
  qed
  then show "tq_inv q" "127 \<le> tq_room q" "\<forall>e \<in> set (tq_entries q). length (snd e) \<le> 127"
    "max_timestamp q < line_time p" "\<not> is_finished q" by simp_all
qed

lemma queue_ok_other:
  "queue_ok h j r \<Longrightarrow> j \<noteq> line_thread p \<Longrightarrow> queue_ok (advance h p) j r"
  by (auto simp: queue_ok_def advance_def split: option.splits)

lemma heap_ok_push:
  assumes hp: "heap_ok m hp" and m': "map_of m' = (map_of m)(i \<mapsto> q')"
    and old: "\<And>q. map_of m i = Some q \<Longrightarrow> 0 \<le> peek q \<longleftrightarrow> \<not> fresh"
      "\<And>q. map_of m i = Some q \<Longrightarrow> \<not> fresh \<Longrightarrow> peek q' = peek q" "map_of m i = None \<Longrightarrow> fresh"
    and new: "0 \<le> peek q'" "fresh \<Longrightarrow> peek q' = t"
  shows "heap_ok m' (if fresh then (t, i) # hp else hp)"
proof (cases fresh)
  case True
  then have "(u, i) \<notin> set hp" for u
    using hp old(1) by (auto simp: heap_ok_def)
  with True hp m' new show ?thesis
    by (auto simp: heap_ok_def)
next
  case False
  then obtain q where "map_of m i = Some q" "0 \<le> peek q" "peek q' = peek q"
    using old by (cases "map_of m i") auto
  with False hp m' show ?thesis
    by (auto simp: heap_ok_def)
qed

lemma alist_sum_upsert:
  "alist_sum f (AList.update i w m) + (case map_of m i of None \<Rightarrow> 0 | Some v \<Rightarrow> f v) =
   alist_sum f m + f w"
  by (cases "map_of m i") (simp_all add: alist_sum_update alist_sum_update_new)

lemma enqueue_line_ok:
  assumes inv: "merge_inv h s" and ok: "line_ok h p" and cap: "43 \<le> cap"
    and len: "length ln \<le> 127"
    and s1: "st_inv (safe_times s1)" "st_last (safe_times s1) = live (advance h p)"
    "active_threads s1 = int (card (dom (live (advance h p))))"
    "thread_queue_map s1 = thread_queue_map s" "time_threadid_min s1 = time_threadid_min s"
    "merge_buf s1 = merge_buf s" "written s1 = written s"
  obtains s2 where "enqueue_line cap p ln s1 = Inr s2" "merge_inv (advance h p) s2"
    "time_threadid_min s2 \<noteq> []" "handled s2 = handled s + {#(line_time p, ln)#}"
    "written s2 = written s" "active_threads s2 = active_threads s1"
    "safe_times s2 = safe_times s1"
proof -
  define i where "i = line_thread p"
  define q where "q = queue_for cap s i"
  note ready = queue_for_ready [OF inv ok cap, folded i_def, folded q_def]
  have room: "length ln \<le> tq_room q" using len ready(2) by simp
  obtain q1 where q1: "enqueue q (line_time p) ln = Inr (tq_entries q = [], q1)" "tq_inv q1"
    "tq_entries q1 = tq_entries q @ [(line_time p, ln)]" "max_timestamp q1 = line_time p"
    "\<not> is_finished q1" "tq_room q \<le> tq_room q1"
    using tq.enq_law [OF ready(1,4,5) room] by blast
  define q2 where "q2 = (if is_thread_finish p then finish q1 else q1)"
  have q2: "tq_inv q2" "tq_entries q2 = tq_entries q1" "max_timestamp q2 = line_time p"
    "is_finished q2 = is_thread_finish p" "tq_room q2 = tq_room q1"
    using q1 by (auto simp: q2_def is_finished_def tq_room_def)
  define s2 where "s2 = s1\<lparr>thread_queue_map := AList.update i q2 (thread_queue_map s1),
    time_threadid_min := (if tq_entries q = [] then (line_time p, i) # time_threadid_min s1
                          else time_threadid_min s1)\<rparr>"
  have run: "enqueue_line cap p ln s1 = Inr s2"
    using q1(1) s1(4)
    by (simp add: enqueue_line_def Let_def s2_def i_def q_def queue_for_def q2_def)
  have m': "map_of (thread_queue_map s2) = (map_of (thread_queue_map s))(i \<mapsto> q2)"
    using s1(4) by (simp add: s2_def update_conv')
  have q_old: "q = r" if "map_of (thread_queue_map s) i = Some r" for r
    using that by (simp add: q_def queue_for_def)
  have q_new: "tq_entries q = []" if "map_of (thread_queue_map s) i = None"
    using that by (simp add: q_def queue_for_def tq_entries_new)
  have "queue_ok (advance h p) i q2"
    using ready q1 q2 len ok inv
    by (auto simp: queue_ok_def advance_def line_ok_def i_def split: if_splits option.splits)
  with inv m' have queues: "queue_ok (advance h p) j r"
    if "map_of (thread_queue_map s2) j = Some r" for j r
    using that by (cases "j = i") (auto simp: merge_inv_queue i_def intro: queue_ok_other)
  have peek_q2: "peek q2 = (if tq_entries q = [] then line_time p else peek q)"
    using ready(1) q2 q1(3) by (cases "tq_entries q") (simp_all add: tq.head_law)
  have heap: "heap_ok (thread_queue_map s2)
      (if tq_entries q = [] then (line_time p, i) # time_threadid_min s else time_threadid_min s)"
  proof (rule heap_ok_push [OF _ m'])
    show "heap_ok (thread_queue_map s) (time_threadid_min s)"
      using inv by (simp add: merge_inv_def)
    show "0 \<le> peek q2"
      using tq.head_nonempty [OF q2(1)] q2(2) q1(3) by simp
  qed (use tq.head_nonempty [OF ready(1)] q_old q_new peek_q2 in auto)
  have wr: "written_ok (advance h p) s2"
    unfolding written_ok_def
  proof (intro conjI ballI allI impI)
    show "sorted (map fst (written s2))"
      using inv s1(7) by (simp add: merge_inv_def written_ok_def s2_def)
  next
    fix t assume "t \<in> fst ` set (written s2)"
    then have t: "t \<in> fst ` set (written s)" using s1(7) by (simp add: s2_def)
    note before = written_before [OF inv ok t]
    from before show "t \<le> latest (advance h p)" by (simp add: advance_def)
    fix j u assume "live (advance h p) j = Some u"
    with before inv t show "t \<le> u"
      by (auto simp: advance_def merge_inv_def written_ok_def split: if_splits)
  next
    fix t j r e assume t': "t \<in> fst ` set (written s2)"
      and r: "map_of (thread_queue_map s2) j = Some r" and e: "e \<in> set (tq_entries r)"
    from t' have t: "t \<in> fst ` set (written s)" using s1(7) by (simp add: s2_def)
    have known: "t \<le> fst e" if "map_of (thread_queue_map s) k = Some w" "e \<in> set (tq_entries w)" for k w
      using inv t that by (auto simp: merge_inv_def written_ok_def)
    show "t \<le> fst e"
    proof (cases "j = i")
      case True
      with r m' e q2(2) q1(3) have "e \<in> set (tq_entries q) \<or> e = (line_time p, ln)" by auto
      then show ?thesis
        using written_before [OF inv ok t] known q_old q_new
        by (cases "map_of (thread_queue_map s) i") auto
    next
      case False
      with r m' e known show ?thesis by auto
    qed
  qed
  have inv': "merge_inv (advance h p) s2"
    using inv s1 queues heap wr history_advance(1) [OF _ ok]
    by (auto simp: merge_inv_def s2_def distinct_update)
  have "alist_sum (\<lambda>q. mset (tq_entries q)) (thread_queue_map s2) + mset (tq_entries q) =
      alist_sum (\<lambda>q. mset (tq_entries q)) (thread_queue_map s) + mset (tq_entries q2)"
    using alist_sum_upsert [of "\<lambda>q. mset (tq_entries q)" i q2 "thread_queue_map s"] q_old q_new s1(4)
    by (auto simp: s2_def split: option.splits)
  then have "waiting s2 = waiting s + {#(line_time p, ln)#}"
    using q2(2) q1(3) by (simp add: waiting_def)
  then have hd: "handled s2 = handled s + {#(line_time p, ln)#}"
    using s1(7) by (simp add: handled_def s2_def)
  have "0 \<le> peek q2"
    using tq.head_nonempty [OF q2(1)] q2(2) q1(3) by simp
  with inv' m' have "(peek q2, i) \<in> set (time_threadid_min s2)"
    by (auto simp: merge_inv_def heap_ok_def)
  then have "time_threadid_min s2 \<noteq> []" by auto
  from that [OF run inv' this hd] show thesis
    using s1(7) by (simp add: s2_def)
qed

text \<open>A skipped sync line only moves the safe timestamp.\<close>

lemma skip_line_ok:
  assumes inv: "merge_inv h s" and ok: "line_ok h p" and skip: "skipped p"
    and s1: "st_inv (safe_times s1)" "st_last (safe_times s1) = live (advance h p)"
    "active_threads s1 = int (card (dom (live (advance h p))))"
    "thread_queue_map s1 = thread_queue_map s" "time_threadid_min s1 = time_threadid_min s"
    "merge_buf s1 = merge_buf s" "written s1 = written s"
  shows "merge_inv (advance h p) s1" "handled s1 = handled s" "live (advance h p) \<noteq> Map.empty"
proof -
  have queues: "queue_ok (advance h p) j r" if "map_of (thread_queue_map s) j = Some r" for j r
    using that merge_inv_queue [OF inv that] skip ok
    by (cases "j = line_thread p")
      (auto simp: queue_ok_other queue_ok_def advance_def skipped_def line_ok_def
        split: option.splits if_splits)
  have wr: "written_ok (advance h p) s1"
    using inv s1(4,7) written_before [OF inv ok]
    by (fastforce simp: written_ok_def merge_inv_def advance_def le_max_iff_disj split: if_splits)
  show "merge_inv (advance h p) s1"
    using inv s1 queues wr history_advance(1) [OF _ ok]
    by (auto simp: merge_inv_def)
  show "handled s1 = handled s"
    using s1 by (simp add: handled_def waiting_def)
  show "live (advance h p) \<noteq> Map.empty"
    using skip by (auto simp: advance_def skipped_def fun_eq_iff)
qed

text \<open>What a line contributes to the output: nothing if it is skipped.\<close>

definition kept_line :: "bool \<Rightarrow> parsed_line \<Rightarrow> string \<Rightarrow> (int \<times> string) multiset" where
  "kept_line keep p l = (if skipped p then {#} else {#(line_time p, kept_text keep p l)#})"

fun kept_lines :: "bool \<Rightarrow> parsed_line list \<Rightarrow> string list \<Rightarrow> (int \<times> string) multiset" where
  "kept_lines keep (p # ps) (l # ls) = kept_line keep p l + kept_lines keep ps ls"
| "kept_lines keep _ _ = {#}"

context heap_choice
begin

lemma process_line_ok:
  assumes inv: "merge_inv h s" and parse: "parse_line l = Inr p" and ok: "line_ok h p"
    and cap: "43 \<le> cap" and len: "length l \<le> 127"
  obtains s' where "process_line pick cap keep l s = Inr s'" "merge_inv (advance h p) s'"
    "handled s' = handled s + kept_line keep p l" "prefix (written s) (written s')"
    "live (advance h p) = Map.empty \<Longrightarrow> time_threadid_min s' = []"
    "skipped p \<or> settled s'"
proof -
  have inv0: "merge_inv h (s\<lparr>line_count := line_count s + 1\<rparr>)"
    using inv by (simp add: merge_inv_def written_ok_def)
  obtain s1 where nt: "note_thread p (s\<lparr>line_count := line_count s + 1\<rparr>) = Inr s1"
    and s1: "st_inv (safe_times s1)" "st_last (safe_times s1) = live (advance h p)"
    "active_threads s1 = int (card (dom (live (advance h p))))"
    "thread_queue_map s1 = thread_queue_map s" "time_threadid_min s1 = time_threadid_min s"
    "merge_buf s1 = merge_buf s" "written s1 = written s"
    by (rule note_thread_ok [OF inv0 ok]) simp
  show thesis
  proof (cases "skipped p")
    case True
    note sk = skip_line_ok [OF inv ok True s1]
    show ?thesis
      by (rule that [of s1])
        (use True nt parse sk s1(7) in \<open>auto simp: process_line_def kept_line_def\<close>)
  next
    case False
    have len': "length (kept_text keep p l) \<le> 127"
      using len by (auto simp: kept_text_def)
    obtain s2 where s2: "enqueue_line cap p (kept_text keep p l) s1 = Inr s2"
      "merge_inv (advance h p) s2" "time_threadid_min s2 \<noteq> []"
      "handled s2 = handled s + {#(line_time p, kept_text keep p l)#}" "written s2 = written s"
      by (rule enqueue_line_ok [OF inv ok cap len' s1]) blast
    from merge_ok [OF s2(2,3)] obtain s' where s': "merge pick s2 = Inr s'"
      "merge_inv (advance h p) s'" "handled s' = handled s2" "settled s'"
      "prefix (written s2) (written s')" by blast
    have "time_threadid_min s' = []" if "live (advance h p) = Map.empty"
    proof (rule ccontr)
      assume "time_threadid_min s' \<noteq> []"
      then obtain t i where e: "(t, i) \<in> set (time_threadid_min s')"
        by (metis list.set_intros(1) neq_Nil_conv surj_pair)
      obtain q ln rest where q: "map_of (thread_queue_map s') i = Some q"
        "tq_entries q = (t, ln) # rest"
        by (rule heap_entry [OF s'(2) e]) blast
      then have "(t, ln) \<in># waiting s'"
        unfolding in_waiting [OF s'(2)] by (metis list.set_intros(1))
      with s'(2,4) that show False
        by (auto simp: settled_def merge_inv_def)
    qed
    with False nt parse s2 s' show ?thesis
      by (intro that [of s']) (auto simp: process_line_def kept_line_def)
  qed
qed

section \<open>The whole input\<close>

lemma read_lines_ok:
  assumes "merge_inv h s" "list_all2 (\<lambda>l p. parse_line l = Inr p) ls ps" "accepted h ps"
    "43 \<le> cap" "\<forall>l \<in> set ls. length l \<le> 127 \<and> NL \<notin> set l \<and> NUL \<notin> set l"
    "live h = Map.empty \<Longrightarrow> time_threadid_min s = []"
  shows "\<exists>s'. read_lines pick cap keep (lines_text ls) s = Inr s' \<and>
    merge_inv (foldl advance h ps) s' \<and> handled s' = handled s + kept_lines keep ps ls \<and>
    prefix (written s) (written s') \<and>
    (live (foldl advance h ps) = Map.empty \<longrightarrow> time_threadid_min s' = [])"
  using assms
proof (induction ls arbitrary: h s ps)
  case Nil
  then show ?case
    by (auto simp: lines_text_def read_lines.simps getline_eof)
next
  case (Cons l ls)
  then obtain p ps' where ps: "ps = p # ps'" and parse: "parse_line l = Inr p"
    and rest: "list_all2 (\<lambda>l p. parse_line l = Inr p) ls ps'"
    by (auto simp: list_all2_Cons1)
  have ok: "line_ok h p" "accepted (advance h p) ps'"
    using Cons.prems(3) ps by simp_all
  have l: "length l \<le> 127" "NL \<notin> set l" "NUL \<notin> set l"
    using Cons.prems(5) by simp_all
  obtain s1 where s1: "process_line pick cap keep l s = Inr s1" "merge_inv (advance h p) s1"
    "handled s1 = handled s + kept_line keep p l" "prefix (written s) (written s1)"
    "live (advance h p) = Map.empty \<Longrightarrow> time_threadid_min s1 = []"
    by (rule process_line_ok [OF Cons.prems(1) parse ok(1) Cons.prems(4) l(1)]) blast
  have rd: "read_lines pick cap keep (lines_text (l # ls)) s =
      read_lines pick cap keep (lines_text ls) s1"
  proof -
    have "getline 128 (lines_text (l # ls)) = Some (l, lines_text ls)"
      using l by (simp add: lines_text_def getline_line)
    moreover have "c_string l = l"
      using l(3) by (auto simp: c_string_def takeWhile_eq_all_conv)
    ultimately show ?thesis
      using s1(1) by (simp add: read_lines.simps [of pick cap keep "lines_text (l # ls)"])
  qed
  from Cons.IH [OF s1(2) rest ok(2) Cons.prems(4) _ s1(5)] Cons.prems(5)
  obtain s' where "read_lines pick cap keep (lines_text ls) s1 = Inr s'"
    "merge_inv (foldl advance (advance h p) ps') s'"
    "handled s' = handled s1 + kept_lines keep ps' ls" "prefix (written s1) (written s')"
    "live (foldl advance (advance h p) ps') = Map.empty \<longrightarrow> time_threadid_min s' = []"
    by auto
  with s1(3,4) rd ps show ?case
    by (auto simp: add.assoc intro: prefix_order.trans)
qed

lemma new_merge_inv: "merge_inv no_history new_merge_state"
  by (simp add: merge_inv_def no_history_def new_merge_state_def history_ok_def heap_ok_def
      written_ok_def st_inv_new st_last_new)

lemma merge_main_ok:
  assumes lines: "\<forall>l \<in> set ls. length l \<le> 127 \<and> NL \<notin> set l \<and> NUL \<notin> set l"
    and parse: "list_all2 (\<lambda>l p. parse_line l = Inr p) ls ps"
    and acc: "accepted no_history ps" and done_: "live (final_history ps) = Map.empty"
    and cap: "43 \<le> cap"
  shows "\<exists>es. merge_main pick cap keep (lines_text ls) = Inr (lines_text (map snd es)) \<and>
    sorted (map fst es) \<and> mset es = kept_lines keep ps ls"
proof -
  obtain s where s: "read_lines pick cap keep (lines_text ls) new_merge_state = Inr s"
    "merge_inv (final_history ps) s" "handled s = handled new_merge_state + kept_lines keep ps ls"
    "time_threadid_min s = []"
    using read_lines_ok [OF new_merge_inv parse acc cap lines] done_
    by (auto simp: final_history_def new_merge_state_def)
  have "waiting s = {#}" by (rule waiting_empty [OF s(2,4)])
  moreover have "handled new_merge_state = {#}"
    by (simp add: handled_def waiting_def new_merge_state_def)
  ultimately have "mset (written s) = kept_lines keep ps ls"
    using s(3) by (simp add: handled_def)
  moreover have "sorted (map fst (written s))"
    using s(2) by (simp add: merge_inv_def written_ok_def)
  ultimately show ?thesis
    using s(1,4) by (auto simp: merge_main_def stdout_text_def)
qed

end

section \<open>Reading on\<close>

lemma read_lines_append:
  assumes "\<forall>l \<in> set ls. length l \<le> 127 \<and> NL \<notin> set l"
  shows "read_lines pick cap keep (lines_text ls @ inp) s =
    (case read_lines pick cap keep (lines_text ls) s of
       Inl f \<Rightarrow> Inl f | Inr s' \<Rightarrow> read_lines pick cap keep inp s')"
  using assms
proof (induction ls arbitrary: s)
  case Nil
  then show ?case
    by (simp add: lines_text_def read_lines.simps [of pick cap keep "[]"] getline_eof)
next
  case (Cons l ls)
  have g: "getline 128 (lines_text (l # ls) @ inp) = Some (l, lines_text ls @ inp)"
    "getline 128 (lines_text (l # ls)) = Some (l, lines_text ls)"
    using Cons.prems getline_line [of l 128] by (simp_all add: lines_text_def)
  show ?case
    unfolding read_lines.simps [of pick cap keep "lines_text (l # ls) @ inp"]
      read_lines.simps [of pick cap keep "lines_text (l # ls)"] g
    using Cons by (simp split: sum.split)
qed

lemma lines_text_append: "lines_text (ls @ ls') = lines_text ls @ lines_text ls'"
  by (simp add: lines_text_def)

lemma read_lines_too_long:
  "128 \<le> length l \<Longrightarrow> NL \<notin> set l \<Longrightarrow> read_lines pick cap keep (l @ rest) s = Inr s"
  by (simp add: read_lines.simps [of pick cap keep "l @ rest"] getline_too_long)

lemma accepted_append: "accepted h (ps @ ps') \<longleftrightarrow> accepted h ps \<and> accepted (foldl advance h ps) ps'"
  by (induction ps arbitrary: h) auto

lemma kept_lines_append:
  "length ps = length ls \<Longrightarrow>
   kept_lines keep (ps @ ps') (ls @ ls') = kept_lines keep ps ls + kept_lines keep ps' ls'"
  by (induction ps ls rule: list_induct2) (simp_all add: add.assoc)

section \<open>Properties of the merge program\<close>

text \<open>
  The lines of an input, as \<open>getline\<close> can read them, with the fields \<open>parse_line\<close> finds.
\<close>

definition readable :: "string list \<Rightarrow> parsed_line list \<Rightarrow> bool" where
  "readable ls ps \<longleftrightarrow>
     (\<forall>l \<in> set ls. length l \<le> 127 \<and> NL \<notin> set l \<and> NUL \<notin> set l) \<and>
     list_all2 (\<lambda>l p. parse_line l = Inr p) ls ps"

lemma readableD:
  assumes "readable ls ps"
  shows "\<forall>l \<in> set ls. length l \<le> 127 \<and> NL \<notin> set l \<and> NUL \<notin> set l"
    "list_all2 (\<lambda>l p. parse_line l = Inr p) ls ps"
  using assms by (simp_all add: readable_def)

text \<open>An example: two threads, one of them ahead in the file, one sync line.\<close>

definition sample_lines :: "string list" where
  "sample_lines =
     [trace_line 1 0 ''tr'', trace_line 2 1 ''tr'', trace_line 5 1 ''ctxt_change'',
      trace_line 3 0 ''ctxt_change'', trace_line 4 0 ''thread_sync'', trace_line 6 0 ''tf'',
      trace_line 7 1 ''tf'']"

definition sample_parsed :: "parsed_line list" where
  "sample_parsed =
     map (\<lambda>(t, tid, rest).
       \<lparr>pos1 = 1, line_time = t, line_thread = tid, is_thread_register = (rest = ''tr''),
        is_thread_finish = (rest = ''tf''), is_sync = (rest = ''thread_sync'')\<rparr>)
     [(1, 0, ''tr''), (2, 1, ''tr''), (5, 1, ''ctxt_change''), (3, 0, ''ctxt_change''),
      (4, 0, ''thread_sync''), (6, 0, ''tf''), (7, 1, ''tf'')]"

lemma sample_readable: "readable sample_lines sample_parsed"
  by (simp add: readable_def sample_lines_def sample_parsed_def parse_trace_line int64_range_def
      trace_line_chars) (simp add: trace_line_def show_int_def show_nat.simps)

lemma sample_accepted: "accepted no_history sample_parsed"
  by (simp add: sample_parsed_def no_history_def line_ok_def advance_def)

lemma sample_finished: "live (final_history sample_parsed) = Map.empty"
  by (simp add: sample_parsed_def final_history_def no_history_def advance_def fun_eq_iff)

text \<open>C7. The merge program sorts: on every input that keeps the contract of the trace file and
  in which every thread finishes, no assertion fails, no undefined behaviour is reached, and the
  text written is the lines of the input, sync lines left out and timestamps stripped unless
  \<open>-t\<close> is given, in the order of their timestamps, whatever the priority queue does with ties.\<close>

theorem merge_sorts_trace:
  assumes "heap_choice pick" and "readable ls ps" and "accepted no_history ps"
    and "live (final_history ps) = Map.empty"
  shows "\<exists>es. merge_program pick argv (lines_text ls) = Inr (lines_text (map snd es)) \<and>
    sorted (map fst es) \<and> mset es = kept_lines (1 < length argv \<and> argv ! 1 = ''-t'') ps ls"
  unfolding merge_program_def
  by (rule heap_choice.merge_main_ok [OF assms(1) readableD [OF assms(2)] assms(3,4)])
    (simp add: initial_capacity_def)

theorem merge_sorts_trace_witness:
  "\<exists>es. merge_program first_min [''merge'', ''-t''] (lines_text sample_lines) =
      Inr (lines_text (map snd es)) \<and> sorted (map fst es) \<and>
    mset es = kept_lines True sample_parsed sample_lines \<and> size (mset es) = 6"
proof -
  have "size (kept_lines True sample_parsed sample_lines) = 6"
    by (simp add: sample_parsed_def sample_lines_def kept_line_def skipped_def)
  moreover obtain es where "merge_program first_min [''merge'', ''-t''] (lines_text sample_lines) =
      Inr (lines_text (map snd es))" "sorted (map fst es)"
    "mset es = kept_lines True sample_parsed sample_lines"
    using merge_sorts_trace [OF fm.heap_choice_axioms sample_readable sample_accepted
        sample_finished, of "[''merge'', ''-t'']"] by auto
  ultimately show ?thesis by (intro exI [of _ es]) (simp only: simp_thms)
qed

end
