(* ===== verification/Trace_Contract.thy ===== *)
theory Trace_Contract
  imports Trace_Output Merge_Correct
begin

text \<open>
  The contract between the two programs: the file that the pintool \<open>src/trace/trace.cpp\<close> writes
  is an input that the merge program \<open>src/src/merge.cpp\<close> accepts. The history that the merge
  program reads off the file is tied to the threads of the tracer: a live thread of the history
  is a registered thread of the tracer, its last time in the file precedes everything in its
  buffer, and its timestamp precedes whatever it will trace.
\<close>

section \<open>The history of a trace file\<close>

definition parsed_file :: "'b tracer \<Rightarrow> parsed_line list" where
  "parsed_file s = map parsed_entry (trace_file s)"

abbreviation hist :: "'b tracer \<Rightarrow> history" where
  "hist s \<equiv> final_history (parsed_file s)"

lemma parsed_file_append [simp]:
  "parsed_file (s\<lparr>trace_file := trace_file s @ es\<rparr>) = parsed_file s @ map parsed_entry es"
  by (simp add: parsed_file_def)

lemma final_history_append: "final_history (ps @ qs) = foldl advance (final_history ps) qs"
  by (simp add: final_history_def)

lemma accepted_file_append:
  "accepted no_history (ps @ qs) \<longleftrightarrow>
   accepted no_history ps \<and> accepted (final_history ps) qs"
  by (simp add: accepted_append final_history_def)

text \<open>Every id that the history knows was registered in the file.\<close>

lemma known_registered:
  "accepted no_history (map parsed_entry es) \<Longrightarrow>
   live (final_history (map parsed_entry es)) u \<noteq> None \<or>
     u \<in> set (ended (final_history (map parsed_entry es))) \<Longrightarrow>
   \<exists>t. (t, u, Thread_Register) \<in> set es"
proof (induction es rule: rev_induct)
  case Nil
  then show ?case by (simp add: final_history_def no_history_def)
next
  case (snoc e es)
  obtain t v ev where e: "e = (t, v, ev)" by (cases e)
  let ?h = "final_history (map parsed_entry es)"
  have acc: "accepted no_history (map parsed_entry es)" "line_ok ?h (parsed_entry e)"
    using snoc.prems(1) by (simp_all add: accepted_append final_history_def)
  have h: "final_history (map parsed_entry (es @ [e])) = advance ?h (parsed_entry e)"
    by (simp add: final_history_def)
  show ?case
  proof (cases "live ?h u \<noteq> None \<or> u \<in> set (ended ?h)")
    case True
    with snoc.IH [OF acc(1)] show ?thesis by auto
  next
    case False
    with snoc.prems(2) have "v = u"
      unfolding h by (auto simp: advance_def e split: if_splits)
    with False acc(2) have "ev = Thread_Register \<or> u < 0"
      by (auto simp: line_ok_def e split: if_splits)
    moreover have "\<not> u < 0"
      using False acc(2) snoc.prems(2) \<open>v = u\<close>
      unfolding h by (auto simp: line_ok_def advance_def e split: if_splits)
    ultimately show ?thesis using e \<open>v = u\<close> by auto
  qed
qed

section \<open>Blocks of the file\<close>

fun plain :: "event \<Rightarrow> bool" where
  "plain Thread_Register = False"
| "plain Thread_Finish = False"
| "plain ev = True"

lemma plain_iff: "plain ev \<longleftrightarrow> ev \<noteq> Thread_Register \<and> ev \<noteq> Thread_Finish"
  by (cases ev) simp_all

text \<open>The entries of a buffer: those of one thread, increasing from \<open>t\<close> up to \<open>m\<close>.\<close>

definition stream_ok :: "int \<Rightarrow> int \<Rightarrow> entry list \<Rightarrow> int \<Rightarrow> bool" where
  "stream_ok t u es m \<longleftrightarrow>
     sorted_wrt (<) (t # map fst es) \<and> last (t # map fst es) \<le> m \<and>
     (\<forall>e \<in> set es. fst (snd e) = u \<and> plain (snd (snd e)))"

lemma stream_ok_Nil [simp]: "stream_ok t u [] m \<longleftrightarrow> t \<le> m"
  by (simp add: stream_ok_def)

lemma stream_ok_mono: "stream_ok t u es m \<Longrightarrow> m \<le> m' \<Longrightarrow> stream_ok t u es m'"
  by (auto simp: stream_ok_def)

lemma stream_ok_snoc:
  assumes "stream_ok t u es m" "m < m'" "plain ev"
  shows "stream_ok t u (es @ [(m', u, ev)]) m'"
proof -
  have s: "sorted_wrt (<) (t # map fst es)" "last (t # map fst es) < m'"
    using assms(1,2) by (simp_all add: stream_ok_def)
  have le: "x \<le> last ys" if "sorted_wrt (<) ys" "x \<in> set ys" for x :: int and ys
    using that by (induction ys) (auto intro: order_less_imp_le)
  have "\<forall>x \<in> set (t # map fst es). x < m'"
    using le [OF s(1)] s(2) by fastforce
  then have "sorted_wrt (<) ((t # map fst es) @ [m'])"
    using s(1) unfolding sorted_wrt_append by simp
  with assms show ?thesis by (auto simp: stream_ok_def)
qed

text \<open>A buffer is an acceptable block of the file; it only moves its own thread on.\<close>

lemma plain_block:
  assumes "0 \<le> u" "live h u = Some t" "stream_ok t u es m"
  shows "accepted h (map parsed_entry es) \<and>
    live (foldl advance h (map parsed_entry es)) = (live h)(u \<mapsto> last (t # map fst es)) \<and>
    ended (foldl advance h (map parsed_entry es)) = ended h \<and>
    latest (foldl advance h (map parsed_entry es)) \<le> max (latest h) m"
  using assms(2,3)
proof (induction es arbitrary: h t)
  case Nil
  then show ?case by auto
next
  case (Cons e es)
  obtain t' ev where e: "e = (t', u, ev)" and pl: "plain ev" and lt: "t < t'"
    using Cons.prems(2) by (cases e) (auto simp: stream_ok_def)
  have le: "x \<le> last ys" if "sorted_wrt (<) ys" "x \<in> set ys" for x :: int and ys
    using that by (induction ys) (auto intro: order_less_imp_le)
  let ?h = "advance h (parsed_entry e)"
  have st: "stream_ok t' u es m"
    using Cons.prems(2) e by (auto simp: stream_ok_def)
  have h: "live ?h = (live h)(u \<mapsto> t')" "ended ?h = ended h" "latest ?h = max (latest h) t'"
    using pl assms(1) by (simp_all add: advance_def e plain_iff)
  have "t' \<le> m"
    using st le [of "t' # map fst es" t'] by (simp add: stream_ok_def)
  moreover have "line_ok h (parsed_entry e)"
    using pl Cons.prems(1) lt assms(1) by (simp add: line_ok_def e plain_iff)
  moreover have "live ?h u = Some t'" by (simp add: h)
  ultimately show ?case
    using Cons.IH [OF _ st, of ?h] h e by (auto simp: fun_eq_iff)
qed

section \<open>The history and the threads\<close>

text \<open>What a thread's buffer owes the file, given the live threads of the history.\<close>

definition buffer_ok :: "(int \<Rightarrow> int option) \<Rightarrow> thread_data \<Rightarrow> bool" where
  "buffer_ok lv td \<longleftrightarrow>
     (if user_threadid td < 0 then trace_stream td = []
      else \<exists>t. lv (user_threadid td) = Some t \<and>
             stream_ok t (user_threadid td) (trace_stream td) (lamport_timestamp td))"

definition cohort :: "(int \<Rightarrow> int option) \<Rightarrow> (int \<Rightarrow> thread_data option) \<Rightarrow> bool" where
  "cohort lv ts \<longleftrightarrow>
     (\<forall>p td. ts p = Some td \<longrightarrow> buffer_ok lv td) \<and>
     (\<forall>p q td td'. ts p = Some td \<longrightarrow> ts q = Some td' \<longrightarrow> 0 \<le> user_threadid td \<longrightarrow>
        user_threadid td' = user_threadid td \<longrightarrow> p = q) \<and>
     (\<forall>u. lv u \<noteq> None \<longrightarrow> (\<exists>p td. ts p = Some td \<and> user_threadid td = u \<and> 0 \<le> u))"

text \<open>No entry of the file is later than every running thread.\<close>

definition headed :: "int \<Rightarrow> (int \<Rightarrow> thread_data option) \<Rightarrow> bool" where
  "headed m ts \<longleftrightarrow> m \<le> 0 \<or> (\<exists>p td. ts p = Some td \<and> m \<le> lamport_timestamp td)"

text \<open>Threads that keep their id and buffer and whose timestamps only grow.\<close>

definition raised_thread :: "thread_data \<Rightarrow> thread_data \<Rightarrow> bool" where
  "raised_thread td td' \<longleftrightarrow>
     user_threadid td' = user_threadid td \<and> trace_stream td' = trace_stream td \<and>
     lamport_timestamp td \<le> lamport_timestamp td'"

definition raised :: "(int \<Rightarrow> thread_data option) \<Rightarrow> (int \<Rightarrow> thread_data option) \<Rightarrow> bool" where
  "raised ts ts' \<longleftrightarrow> (\<forall>p. rel_option raised_thread (ts p) (ts' p))"

lemma raised_refl [simp]: "raised ts ts"
  by (simp add: raised_def option.rel_refl raised_thread_def)

lemma raised_trans: "raised ts ts' \<Longrightarrow> raised ts' ts'' \<Longrightarrow> raised ts ts''"
  unfolding raised_def
proof (intro allI)
  fix p
  assume "\<forall>p. rel_option raised_thread (ts p) (ts' p)" "\<forall>p. rel_option raised_thread (ts' p) (ts'' p)"
  then have "rel_option raised_thread (ts p) (ts' p)" "rel_option raised_thread (ts' p) (ts'' p)"
    by blast+
  then show "rel_option raised_thread (ts p) (ts'' p)"
    by (cases "ts p"; cases "ts' p"; cases "ts'' p") (auto simp: raised_thread_def)
qed

lemma raised_upd: "ts p = Some td \<Longrightarrow> raised_thread td td' \<Longrightarrow> raised ts (ts(p \<mapsto> td'))"
  by (simp add: raised_def raised_thread_def option.rel_refl)

lemma raised_upd_both: "raised_thread td td' \<Longrightarrow> raised (ts(p \<mapsto> td)) (ts(p \<mapsto> td'))"
  by (simp add: raised_def raised_thread_def option.rel_refl)

lemma raised_Some:
  assumes "raised ts ts'" "ts p = Some td"
  obtains td' where "ts' p = Some td'" "raised_thread td td'"
proof -
  have "rel_option raised_thread (Some td) (ts' p)" using assms unfolding raised_def by metis
  with that show thesis by (cases "ts' p") auto
qed

lemma raised_back:
  assumes "raised ts ts'" "ts' p = Some td'"
  obtains td where "ts p = Some td" "raised_thread td td'"
proof -
  have "rel_option raised_thread (ts p) (Some td')" using assms unfolding raised_def by metis
  with that show thesis by (cases "ts p") auto
qed

lemma buffer_ok_raised: "buffer_ok lv td \<Longrightarrow> raised_thread td td' \<Longrightarrow> buffer_ok lv td'"
  using stream_ok_mono [of _ _ _ "lamport_timestamp td" "lamport_timestamp td'"]
  by (auto simp: buffer_ok_def raised_thread_def)

lemma cohort_raised:
  assumes c: "cohort lv ts" and r: "raised ts ts'"
  shows "cohort lv ts'"
  unfolding cohort_def
proof (intro conjI allI impI)
  fix p td' assume "ts' p = Some td'"
  then obtain td where "ts p = Some td" "raised_thread td td'" by (rule raised_back [OF r])
  with c show "buffer_ok lv td'" unfolding cohort_def by (blast intro: buffer_ok_raised)
next
  fix p q td td' assume a: "ts' p = Some td" "ts' q = Some td'" "0 \<le> user_threadid td"
    "user_threadid td' = user_threadid td"
  obtain x where x: "ts p = Some x" "raised_thread x td" by (rule raised_back [OF r a(1)])
  obtain y where y: "ts q = Some y" "raised_thread y td'" by (rule raised_back [OF r a(2)])
  have "0 \<le> user_threadid x" "user_threadid y = user_threadid x"
    using x(2) y(2) a(3,4) by (simp_all add: raised_thread_def)
  with c x(1) y(1) show "p = q" unfolding cohort_def by blast
next
  fix u assume "lv u \<noteq> None"
  with c obtain p td where td: "ts p = Some td" "user_threadid td = u" "0 \<le> u"
    unfolding cohort_def by blast
  obtain td' where "ts' p = Some td'" "raised_thread td td'" by (rule raised_Some [OF r td(1)])
  with td show "\<exists>p td. ts' p = Some td \<and> user_threadid td = u \<and> 0 \<le> u"
    unfolding raised_thread_def by metis
qed

lemma headed_raised: "headed m ts \<Longrightarrow> raised ts ts' \<Longrightarrow> headed m ts'"
  unfolding headed_def raised_thread_def by (metis order_trans raised_Some raised_thread_def)

lemma raised_restrict: "raised ts ts' \<Longrightarrow> raised (ts |` A) (ts' |` A)"
  by (auto simp: raised_def restrict_map_def)

text \<open>A thread that keeps its id, with a buffer that suits its new place in the history.\<close>

lemma cohort_upd:
  assumes c: "cohort lv ts" and p: "ts p = Some td" "user_threadid td' = user_threadid td"
    and b: "buffer_ok lv' td'" and lv: "\<And>u. u \<noteq> user_threadid td \<or> u < 0 \<Longrightarrow> lv' u = lv u"
  shows "cohort lv' (ts(p \<mapsto> td'))"
  unfolding cohort_def
proof (intro conjI allI impI)
  fix q x assume q: "(ts(p \<mapsto> td')) q = Some x"
  show "buffer_ok lv' x"
  proof (cases "q = p")
    case False
    with q have x: "ts q = Some x" by simp
    with c have bx: "buffer_ok lv x" unfolding cohort_def by blast
    have "lv' (user_threadid x) = lv (user_threadid x)"
      using c x p(1) False lv [of "user_threadid x"] unfolding cohort_def by (metis not_le)
    with bx show ?thesis by (simp add: buffer_ok_def)
  qed (use q b in simp)
next
  fix q q' x x' assume a: "(ts(p \<mapsto> td')) q = Some x" "(ts(p \<mapsto> td')) q' = Some x'"
    "0 \<le> user_threadid x" "user_threadid x' = user_threadid x"
  obtain y y' where "ts q = Some y" "user_threadid y = user_threadid x"
    "ts q' = Some y'" "user_threadid y' = user_threadid x'"
    using a(1,2) p by (auto split: if_splits)
  with c a(3,4) show "q = q'" unfolding cohort_def by metis
next
  fix u assume u: "lv' u \<noteq> None"
  have "\<exists>q x. ts q = Some x \<and> user_threadid x = u \<and> 0 \<le> u"
  proof (cases "u \<noteq> user_threadid td \<or> u < 0")
    case True
    with u lv c show ?thesis unfolding cohort_def by metis
  next
    case False
    with p show ?thesis by auto
  qed
  then obtain q x where q: "ts q = Some x" "user_threadid x = u" "0 \<le> u" by blast
  show "\<exists>q x. (ts(p \<mapsto> td')) q = Some x \<and> user_threadid x = u \<and> 0 \<le> u"
  proof (cases "q = p")
    case True
    with q p show ?thesis by (intro exI [of _ p] exI [of _ td']) auto
  next
    case False
    with q show ?thesis by (intro exI [of _ q] exI [of _ x]) auto
  qed
qed

section \<open>The contract\<close>

text \<open>
  \<open>E\<close> holds the thread whose end is being traced: it has left the history already, and its
  buffer is empty.
\<close>

definition contract :: "int set \<Rightarrow> 'b tracer \<Rightarrow> bool" where
  "contract E s \<longleftrightarrow>
     accepted no_history (parsed_file s) \<and>
     cohort (live (hist s)) (tls s |` (- E)) \<and> headed (latest (hist s)) (tls s) \<and>
     (\<forall>q \<in> E. \<forall>td. tls s q = Some td \<longrightarrow> trace_stream td = [])"

lemma restrict_all [simp]: "ts |` UNIV = ts"
  by (simp add: restrict_map_def fun_eq_iff)

lemma contract_raised:
  assumes c: "contract E s" and f: "trace_file s' = trace_file s" and r: "raised (tls s) (tls s')"
  shows "contract E s'"
proof -
  have "parsed_file s' = parsed_file s" by (simp add: parsed_file_def f)
  moreover have "trace_stream td = []" if "q \<in> E" "tls s' q = Some td" for q td
    using raised_back [OF r that(2)] c that(1) unfolding contract_def raised_thread_def by metis
  ultimately show ?thesis using c
    by (auto simp: contract_def intro: headed_raised [OF _ r] cohort_raised [OF _ raised_restrict [OF r]])
qed

lemma contract_set_tls:
  "contract E s \<Longrightarrow> tls s p = Some td \<Longrightarrow> raised_thread td td' \<Longrightarrow> contract E (set_tls p td' s)"
  using contract_raised [of E s "set_tls p td' s"] raised_upd [of "tls s" p td td']
  by (simp add: set_tls_def)

lemma raised_threadI:
  "user_threadid td' = user_threadid td \<Longrightarrow> trace_stream td' = trace_stream td \<Longrightarrow>
   lamport_timestamp td \<le> lamport_timestamp td' \<Longrightarrow> raised_thread td td'"
  by (simp add: raised_thread_def)

text \<open>Writing the buffer of a registered thread.\<close>

lemma flushed_buffer:
  assumes u: "0 \<le> user_threadid td" and b: "buffer_ok (live h) td"
    and h': "h' = foldl advance h (map parsed_entry (trace_stream td))"
    and td': "user_threadid td' = user_threadid td" "trace_stream td' = []"
      "lamport_timestamp td \<le> lamport_timestamp td'"
  shows "accepted h (map parsed_entry (trace_stream td))" "buffer_ok (live h') td'"
    "v \<noteq> user_threadid td \<or> v < 0 \<Longrightarrow> live h' v = live h v"
    "latest h' \<le> max (latest h) (lamport_timestamp td')"
proof -
  obtain t where t: "live h (user_threadid td) = Some t"
    and st: "stream_ok t (user_threadid td) (trace_stream td) (lamport_timestamp td)"
    using u b by (auto simp: buffer_ok_def)
  note blk = plain_block [OF u t st]
  from blk show "accepted h (map parsed_entry (trace_stream td))" by simp
  from blk u show "v \<noteq> user_threadid td \<or> v < 0 \<Longrightarrow> live h' v = live h v"
    by (auto simp: h')
  from blk td'(3) show "latest h' \<le> max (latest h) (lamport_timestamp td')"
    by (auto simp: h')
  have "last (t # map fst (trace_stream td)) \<le> lamport_timestamp td"
    using st by (simp add: stream_ok_def)
  with blk td' u show "buffer_ok (live h') td'"
    by (auto simp: buffer_ok_def h')
qed

lemma headed_upd:
  assumes "headed m ts" "ts p = Some td" "lamport_timestamp td \<le> lamport_timestamp td'"
    "m' \<le> max m (lamport_timestamp td')"
  shows "headed m' (ts(p \<mapsto> td'))"
proof (cases "m' \<le> lamport_timestamp td'")
  case True
  then show ?thesis unfolding headed_def by (intro disjI2 exI [of _ p] exI [of _ td']) simp
next
  case False
  with assms(4) have "m' \<le> m" by simp
  from assms(1) consider "m \<le> 0" | q x where "ts q = Some x" "m \<le> lamport_timestamp x"
    unfolding headed_def by blast
  then show ?thesis
  proof cases
    case 1
    with \<open>m' \<le> m\<close> show ?thesis by (simp add: headed_def)
  next
    case 2
    show ?thesis
    proof (cases "q = p")
      case True
      with 2 assms(2,3) have "m \<le> lamport_timestamp td'" by simp
      with False \<open>m' \<le> m\<close> show ?thesis by simp
    next
      case no: False
      with 2 \<open>m' \<le> m\<close> show ?thesis
        unfolding headed_def by (intro disjI2 exI [of _ q] exI [of _ x]) simp
    qed
  qed
qed

lemma restrict_upd: "(ts(p \<mapsto> td)) |` (- E) = (if p \<in> E then ts |` (- E) else (ts |` (- E))(p \<mapsto> td))"
  by (auto simp: restrict_map_def fun_eq_iff)

text \<open>A thread's buffer goes to the file.\<close>

lemma contract_flush:
  assumes c: "contract E s" and p: "tls s p = Some td" "p \<notin> E" "0 \<le> user_threadid td"
    and td': "user_threadid td' = user_threadid td" "trace_stream td' = []"
      "lamport_timestamp td \<le> lamport_timestamp td'"
    and s': "trace_file s' = trace_file s @ trace_stream td" "tls s' = (tls s)(p \<mapsto> td')"
  shows "contract E s'"
proof -
  let ?h = "hist s"
  define h' where "h' = foldl advance ?h (map parsed_entry (trace_stream td))"
  have pr: "(tls s |` (- E)) p = Some td" using p by simp
  have b: "buffer_ok (live ?h) td"
    using c pr unfolding contract_def cohort_def by blast
  note f = flushed_buffer [OF p(3) b h'_def td']
  have pf: "parsed_file s' = parsed_file s @ map parsed_entry (trace_stream td)"
    by (simp add: parsed_file_def s')
  have h: "hist s' = h'"
    by (simp add: pf final_history_append h'_def)
  have "accepted no_history (parsed_file s')"
    unfolding pf accepted_file_append using c f(1) by (simp add: contract_def)
  moreover have "cohort (live h') (tls s' |` (- E))"
    unfolding s'(2) restrict_upd using p(2) c cohort_upd [where ts = "tls s |` (- E)" and p = p, OF _ pr td'(1) f(2) f(3)]
    by (simp add: contract_def)
  moreover have "headed (latest h') (tls s')"
    unfolding s'(2) by (rule headed_upd [where m = "latest (hist s)" and ts = "tls s" and p = p, OF _ p(1) td'(3) f(4)]) (use c in \<open>simp add: contract_def\<close>)
  ultimately show ?thesis using c p(2) by (auto simp: contract_def h s'(2))
qed

section \<open>Flushing other threads\<close>

text \<open>A thread that lags is behind the time it is synchronised to.\<close>

lemma lagging_behind: "lagging s d \<Longrightarrow> 1 \<le> timestamp_difference s \<Longrightarrow> 0 < d"
  by (simp add: lagging_def)

text \<open>The exempt threads are not behind.\<close>

definition ahead :: "int set \<Rightarrow> int \<Rightarrow> 'b tracer \<Rightarrow> bool" where
  "ahead E t s \<longleftrightarrow> (\<forall>q \<in> E. \<forall>td. tls s q = Some td \<longrightarrow> t \<le> lamport_timestamp td)"

lemma attempt_flush_one_contract:
  assumes run: "attempt_flush_one bm t p s = Inr s'" and c: "contract E s"
    and d: "1 \<le> timestamp_difference s" and E: "ahead E t s"
  shows "contract E s' \<and> ahead E t s' \<and> timestamp_difference s' = timestamp_difference s"
proof (cases "p \<in> set (pin_threadid_set s)")
  case False
  with run c E show ?thesis by (simp add: attempt_flush_one_def)
next
  case True
  with run obtain td where td: "tls s p = Some td"
    by (auto simp: attempt_flush_one_def andThen_Inr get_tls_Inr)
  show ?thesis
  proof (cases "lagging s (t - lamport_timestamp td)")
    case False
    with run True td c E show ?thesis by (simp add: attempt_flush_one_def Let_def)
  next
    case lag: True
    from lagging_behind [OF lag d] have lt: "lamport_timestamp td < t" by simp
    have pE: "p \<notin> E" using E td lt unfolding ahead_def by fastforce
    define td2 where "td2 = sync_thread t td"
    have td2: "user_threadid td2 = user_threadid td" "lamport_timestamp td2 = t"
      "trace_stream td2 = trace_stream td @
         (if 0 \<le> user_threadid td then [(t, user_threadid td, Thread_Sync)] else [])"
      by (simp_all add: td2_def sync_thread_def)
    from run True td lag consider
      (flush) "0 < buffered_entries td2" "trace_stream td2 \<noteq> []"
        "s' = set_tls p (td2\<lparr>buffered_entries := 0, trace_stream := []\<rparr>)
          (s\<lparr>trace_file := trace_file s @ trace_stream td2,
             last_flushed := bm_insert bm p t (bm_erase bm p (last_flushed s))\<rparr>)"
      | (sync) "s' = set_tls p td2 s"
      by (auto simp: attempt_flush_one_def Let_def td2_def andThen_Inr write_file_Inr split: if_splits)
    note cases = this
    have pr: "(tls s |` (- E)) p = Some td" using td pE by simp
    have b: "buffer_ok (live (hist s)) td"
      using c pr unfolding contract_def cohort_def by blast
    have b2: "buffer_ok (live (hist s)) td2"
      using b stream_ok_snoc [OF _ lt, of _ _ _ Thread_Sync] by (auto simp: buffer_ok_def td2)
    have "cohort (live (hist s)) ((tls s |` (- E))(p \<mapsto> td2))"
      by (rule cohort_upd [where ts = "tls s |` (- E)" and p = p, OF _ pr td2(1) b2]) (use c in \<open>simp_all add: contract_def\<close>)
    moreover have "headed (latest (hist s)) ((tls s)(p \<mapsto> td2))"
      by (rule headed_upd [where m = "latest (hist s)" and ts = "tls s" and p = p, OF _ td]) (use c lt in \<open>simp_all add: contract_def td2\<close>)
    moreover have "parsed_file (set_tls p td2 s) = parsed_file s"
      by (simp add: parsed_file_def set_tls_def)
    ultimately have c2: "contract E (set_tls p td2 s)"
      using c pE by (simp add: contract_def restrict_upd)
    from cases show ?thesis
    proof cases
      case flush
      have "0 \<le> user_threadid td"
        using flush(2) b by (auto simp: td2 buffer_ok_def split: if_splits)
      then have "contract E s'"
        by (intro contract_flush [OF c2, of p td2 "td2\<lparr>buffered_entries := 0, trace_stream := []\<rparr>"])
          (simp_all add: pE td2 flush(3), simp_all add: set_tls_def td2)
      with E pE flush(3) show ?thesis by (auto simp: ahead_def set_tls_def)
    next
      case sync
      with c2 E pE show ?thesis by (auto simp: ahead_def set_tls_def)
    qed
  qed
qed

lemma attempt_flush_others_contract:
  "attempt_flush_others bm t ps s = Inr s' \<Longrightarrow> contract E s \<Longrightarrow> 1 \<le> timestamp_difference s \<Longrightarrow>
   ahead E t s \<Longrightarrow> contract E s'"
proof (induction ps arbitrary: s)
  case (Cons p ps)
  then obtain s1 where s1: "attempt_flush_one bm t p s = Inr s1"
    "attempt_flush_others bm t ps s1 = Inr s'"
    by (auto simp: andThen_Inr)
  from attempt_flush_one_contract [OF s1(1) Cons.prems(2-4)] Cons.IH [OF s1(2)] Cons.prems(3)
  show ?case by simp
qed simp

section \<open>\<open>touch_buffer\<close>\<close>

text \<open>
  The thread's own part is a premise: with its new timestamp where it does not flush, with its
  buffer in the file where it does.
\<close>

lemma touch_contract:
  fixes s s' :: "'b tracer"
  assumes run: "touch_buffer bm p t force s = Inr s'" and td: "tls s p = Some td"
    and d: "1 \<le> timestamp_difference s" and E: "E \<subseteq> {p}"
    and stay: "\<not> force \<Longrightarrow> contract E (set_tls p (td\<lparr>lamport_timestamp := t\<rparr>) s)"
    and go: "\<And>s1 :: 'b tracer. trace_file s1 = trace_file s @ trace_stream td \<Longrightarrow>
      tls s1 = (tls s)(p \<mapsto> td\<lparr>lamport_timestamp := t, trace_stream := []\<rparr>) \<Longrightarrow> contract E s1"
  shows "contract E s'"
proof -
  define td1 where "td1 = td\<lparr>lamport_timestamp := t, flush_others := [],
    buffered_entries := buffered_entries td + 1\<rparr>"
  show ?thesis
  proof (cases "accesses_flush s \<le> buffered_entries td1 \<or> force")
    case True
    let ?td3 = "\<lambda>ps. td1\<lparr>buffered_entries := 0, trace_stream := [], flush_others := ps\<rparr>"
    from True run td obtain ps s2 where s2: "check_last_flushed bm t
        (s\<lparr>trace_file := trace_file s @ trace_stream td1,
           last_flushed := bm_insert bm p t (bm_erase bm p (last_flushed s))\<rparr>) = Inr (ps, s2)"
      and fin: "(if ps \<noteq> [] then attempt_flush_others bm t ps (set_tls p (?td3 ps) s2)
        else Inr (set_tls p (?td3 ps) s2)) = Inr s'"
      by (auto simp: touch_buffer_def Let_def andThen_Inr write_file_Inr td1_def split: if_splits)
    from check_last_flushed_trace [OF s2] check_last_flushed_kept [OF s2]
    have e: "tls s2 = tls s" "trace_file s2 = trace_file s @ trace_stream td"
      "timestamp_difference s2 = timestamp_difference s"
      using kept_static(4) [of "s\<lparr>trace_file := trace_file s @ trace_stream td1,
           last_flushed := bm_insert bm p t (bm_erase bm p (last_flushed s))\<rparr>" s2]
      by (auto simp: td1_def)
    let ?s1 = "s2\<lparr>tls := (tls s)(p \<mapsto> td\<lparr>lamport_timestamp := t, trace_stream := []\<rparr>)\<rparr>"
    have c1: "contract E ?s1" by (rule go) (simp_all add: e)
    have r1: "raised (tls ?s1) (tls (set_tls p (?td3 ps) s2))"
      by (simp add: e raised_upd_both raised_thread_def td1_def)
    have c: "contract E (set_tls p (?td3 ps) s2)"
      by (rule contract_raised [OF c1 _ r1]) (simp add: set_tls_def)
    have "ahead E t (set_tls p (?td3 ps) s2)"
      using E by (auto simp: ahead_def td1_def)
    with fin c d e show ?thesis
      by (auto split: if_splits intro: attempt_flush_others_contract simp: set_tls_def)
  next
    case False
    with run td have s': "s' = set_tls p td1 s"
      by (simp add: touch_buffer_def Let_def td1_def)
    show ?thesis
      by (rule contract_raised [OF stay])
        (use False in \<open>simp_all add: s' raised_upd_both raised_thread_def td1_def,
          simp_all add: set_tls_def\<close>)
  qed
qed

text \<open>A registered thread traces one more plain entry: in its buffer, or with it in the file.\<close>

lemma contract_entry:
  assumes c: "contract {} s" and td: "tls s p = Some td"
    and u: "0 \<le> user_threadid td" and lt: "lamport_timestamp td < t" and ev: "plain ev"
    and td2: "user_threadid td2 = user_threadid td" "lamport_timestamp td2 = t"
      "trace_stream td2 = trace_stream td @ [(t, user_threadid td, ev)]"
  shows "contract {} (set_tls p td2 s)"
proof -
  have b: "buffer_ok (live (hist s)) td"
    using c td unfolding contract_def cohort_def by simp
  have b2: "buffer_ok (live (hist s)) td2"
    using b u stream_ok_snoc [OF _ lt ev] by (auto simp: buffer_ok_def td2)
  have "cohort (live (hist s)) ((tls s)(p \<mapsto> td2))"
    by (rule cohort_upd [where ts = "tls s" and p = p, OF _ td td2(1) b2])
      (use c in \<open>simp_all add: contract_def\<close>)
  moreover have "headed (latest (hist s)) ((tls s)(p \<mapsto> td2))"
    by (rule headed_upd [where m = "latest (hist s)" and ts = "tls s" and p = p, OF _ td])
      (use c lt in \<open>simp_all add: contract_def td2\<close>)
  moreover have "parsed_file (set_tls p td2 s) = parsed_file s"
    by (simp add: parsed_file_def set_tls_def)
  ultimately show ?thesis using c by (simp add: contract_def)
qed

lemma contract_flushed_entry:
  assumes c: "contract {} s" and td: "tls s p = Some td"
    and u: "0 \<le> user_threadid td" and lt: "lamport_timestamp td < t" and ev: "plain ev"
    and td': "user_threadid td' = user_threadid td" "lamport_timestamp td' = t" "trace_stream td' = []"
    and s1: "trace_file s1 = trace_file s @ trace_stream td @ [(t, user_threadid td, ev)]"
      "tls s1 = (tls s)(p \<mapsto> td')"
  shows "contract {} s1"
proof -
  let ?td2 = "td'\<lparr>trace_stream := trace_stream td @ [(t, user_threadid td, ev)]\<rparr>"
  have c2: "contract {} (set_tls p ?td2 s)"
    by (rule contract_entry [OF c td u lt ev]) (simp_all add: td')
  show ?thesis
    by (rule contract_flush [OF c2, of p ?td2 td'])
      (use u in \<open>simp_all add: td' s1\<close>, simp_all add: set_tls_def)
qed

lemma touch_plain:
  fixes s s' :: "'b tracer"
  assumes run: "touch_buffer bm p t force (set_tls p td1 s) = Inr s'" and td: "tls s p = Some td"
    and d: "1 \<le> timestamp_difference s" and c: "contract {} s"
    and u: "0 \<le> user_threadid td" and lt: "lamport_timestamp td < t" and ev: "plain ev"
    and td1: "user_threadid td1 = user_threadid td"
      "trace_stream td1 = trace_stream td @ [(t, user_threadid td, ev)]"
  shows "contract {} s'"
proof (rule touch_contract [OF run, of td1 "{}"])
  have "contract {} (set_tls p (td1\<lparr>lamport_timestamp := t\<rparr>) s)"
    by (rule contract_entry [OF c td u lt ev]) (simp_all add: td1)
  then show "contract {} (set_tls p (td1\<lparr>lamport_timestamp := t\<rparr>) (set_tls p td1 s))"
    by (simp add: set_tls_def)
next
  fix s1 :: "'b tracer"
  assume f: "trace_file s1 = trace_file (set_tls p td1 s) @ trace_stream td1"
    and t1: "tls s1 = (tls (set_tls p td1 s))(p \<mapsto> td1\<lparr>lamport_timestamp := t, trace_stream := []\<rparr>)"
  show "contract {} s1"
    by (rule contract_flushed_entry [OF c td u lt ev,
          of "td1\<lparr>lamport_timestamp := t, trace_stream := []\<rparr>"])
      (simp_all add: f t1 td1, simp add: set_tls_def)
qed (use d in \<open>simp_all, simp add: set_tls_def\<close>)

section \<open>Entries for which all threads are synchronised\<close>

lemma set_thread_times_raised:
  "set_thread_times ps t s = Inr s' \<Longrightarrow> bounded t s \<Longrightarrow>
   raised (tls s) (tls s') \<and> trace_file s' = trace_file s"
proof (induction ps arbitrary: s)
  case (Cons p ps)
  then obtain td where td: "tls s p = Some td"
    and r: "set_thread_times ps t (set_tls p (td\<lparr>lamport_timestamp := t\<rparr>) s) = Inr s'"
    by (auto simp: andThen_Inr get_tls_Inr)
  let ?s = "set_tls p (td\<lparr>lamport_timestamp := t\<rparr>) s"
  have "raised (tls s) (tls ?s)"
    using raised_upd [of "tls s" p td "td\<lparr>lamport_timestamp := t\<rparr>"] td
      boundedD [OF Cons.prems(2) td] by (simp add: raised_thread_def)
  moreover have "bounded t ?s" using Cons.prems(2) by (simp add: bounded_set_tls)
  ultimately show ?case
    using Cons.IH [OF r] raised_trans [of "tls s" "tls ?s" "tls s'"]
    by (auto simp: set_tls_def fun_upd_def)
qed simp

lemma release_all_contract:
  assumes "release_all_thread_locks t s = Inr s'" "bounded t s" "contract E s"
  shows "contract E s'"
  using set_thread_times_raised [of "pin_threadid_set s" t s s'] assms
  by (auto simp: release_all_thread_locks_def intro: contract_raised)

lemma trace_synchronised_contract:
  fixes s s' :: "'b tracer"
  assumes run: "trace_synchronised bm p ev s = Inr s'" and td: "tls s p = Some td"
    and d: "1 \<le> timestamp_difference s" and j: "joined s" and E: "E \<subseteq> {p}"
    and go: "\<And>(s1 :: 'b tracer) t. bounded t s \<Longrightarrow> 0 \<le> t \<Longrightarrow>
      trace_file s1 = trace_file s @ trace_stream td @ [(t + 1, user_threadid td, ev)] \<Longrightarrow>
      tls s1 = (tls s)(p \<mapsto> td\<lparr>lamport_timestamp := t + 1, trace_stream := []\<rparr>) \<Longrightarrow>
      contract E s1"
  shows "contract E s'"
proof -
  from run td obtain t where t: "acquire_all_thread_locks s = Inr t"
    by (auto simp: trace_synchronised_def andThen_Inr)
  note b = acquire_all_bounded [OF t j]
  let ?td1 = "td\<lparr>trace_stream := trace_stream td @ [(t + 1, user_threadid td, ev)]\<rparr>"
  from run td t obtain s1 where
    s1: "touch_buffer bm p (t + 1) True (set_tls p ?td1 s) = Inr s1"
    and s': "release_all_thread_locks (t + 1) s1 = Inr s'"
    by (auto simp: trace_synchronised_def andThen_Inr Let_def)
  have "contract E s1"
  proof (rule touch_contract [OF s1, of ?td1 E])
    fix s2 :: "'b tracer"
    assume "trace_file s2 = trace_file (set_tls p ?td1 s) @ trace_stream ?td1"
      "tls s2 = (tls (set_tls p ?td1 s))(p \<mapsto> ?td1\<lparr>lamport_timestamp := t + 1, trace_stream := []\<rparr>)"
    with go [OF b, of s2] show "contract E s2" by (simp add: set_tls_def)
  qed (use d E in \<open>simp_all, simp add: set_tls_def\<close>)
  moreover have "bounded (t + 1) s1"
    by (rule touch_buffer_bounded [OF s1], rule bounded_set_tls)
      (use b boundedD [OF b(1) td] in \<open>simp_all add: bounded_mono [OF b(1)]\<close>)
  ultimately show ?thesis using s' by (blast intro: release_all_contract)
qed

lemma headed_bounded: "headed m (tls s) \<Longrightarrow> bounded t s \<Longrightarrow> 0 \<le> t \<Longrightarrow> m \<le> t"
  unfolding headed_def bounded_def by (meson order_trans)

text \<open>The entry of an unregistered thread, whose buffer is empty.\<close>

lemma contract_lone:
  assumes c: "contract {} s" and td: "tls s p = Some td" "user_threadid td < 0"
    and t: "latest (hist s) < t" and ev: "plain ev"
    and td': "user_threadid td' = user_threadid td" "trace_stream td' = []" "lamport_timestamp td' = t"
      "lamport_timestamp td \<le> t"
    and s1: "trace_file s1 = trace_file s @ [(t, user_threadid td, ev)]" "tls s1 = (tls s)(p \<mapsto> td')"
  shows "contract {} s1"
proof -
  let ?e = "(t, user_threadid td, ev)"
  have pf: "parsed_file s1 = parsed_file s @ [parsed_entry ?e]"
    by (simp add: parsed_file_def s1)
  have h: "hist s1 = advance (hist s) (parsed_entry ?e)"
    by (simp add: pf final_history_append)
  have lv: "live (hist s1) = live (hist s)" "latest (hist s1) = t"
    using ev td(2) t unfolding h by (simp_all add: advance_def plain_iff)
  have "line_ok (hist s) (parsed_entry ?e)"
    using ev td(2) t by (simp add: line_ok_def plain_iff)
  then have "accepted no_history (parsed_file s1)"
    unfolding pf accepted_file_append using c by (simp add: contract_def)
  moreover have "cohort (live (hist s1)) (tls s1)"
    unfolding lv s1(2)
    by (rule cohort_upd [where ts = "tls s" and p = p, OF _ td(1) td'(1)])
      (use c td td' in \<open>simp_all add: contract_def buffer_ok_def\<close>)
  moreover have "headed (latest (hist s1)) (tls s1)"
    unfolding headed_def lv s1(2) using td'(3) by (intro disjI2 exI [of _ p] exI [of _ td']) simp
  ultimately show ?thesis by (simp add: contract_def)
qed

text \<open>A thread that registers, under an id that no registration in the file has.\<close>

definition fresh_uid :: "int \<Rightarrow> 'b tracer \<Rightarrow> bool" where
  "fresh_uid u s \<longleftrightarrow> 0 \<le> u \<and> list_all (\<lambda>(t, v, ev). ev = Thread_Register \<longrightarrow> v \<noteq> u) (trace_file s)"

lemma fresh_unknown:
  assumes "fresh_uid u s" "contract E s"
  shows "0 \<le> u" "live (hist s) u = None" "u \<notin> set (ended (hist s))"
proof -
  have n: "\<nexists>t. (t, u, Thread_Register) \<in> set (trace_file s)"
    using assms(1) by (auto simp: fresh_uid_def list_all_iff)
  with known_registered [of "trace_file s" u] assms(2)
  show "live (hist s) u = None" "u \<notin> set (ended (hist s))"
    unfolding contract_def parsed_file_def by blast+
qed (use assms(1) in \<open>simp add: fresh_uid_def\<close>)

lemma contract_register:
  assumes c: "contract {} s" and p: "tls s p = None \<or> (\<exists>td. tls s p = Some td \<and> user_threadid td < 0)"
    and u: "fresh_uid u s" and t: "latest (hist s) < t"
    and td': "user_threadid td' = u" "trace_stream td' = []" "lamport_timestamp td' = t"
    and s1: "trace_file s1 = trace_file s @ [(t, u, Thread_Register)]" "tls s1 = (tls s)(p \<mapsto> td')"
  shows "contract {} s1"
proof -
  let ?e = "(t, u, Thread_Register)"
  note new = fresh_unknown [OF u c]
  have co: "cohort (live (hist s)) (tls s)" using c by (simp add: contract_def)
  have pf: "parsed_file s1 = parsed_file s @ [parsed_entry ?e]"
    by (simp add: parsed_file_def s1)
  have h: "hist s1 = advance (hist s) (parsed_entry ?e)"
    by (simp add: pf final_history_append)
  have lv: "live (hist s1) = (live (hist s))(u \<mapsto> t)" "latest (hist s1) = t"
    using new t unfolding h by (simp_all add: advance_def)
  have "line_ok (hist s) (parsed_entry ?e)"
    using new t by (simp add: line_ok_def)
  then have "accepted no_history (parsed_file s1)"
    unfolding pf accepted_file_append using c by (simp add: contract_def)
  moreover have "headed (latest (hist s1)) (tls s1)"
    unfolding headed_def lv s1(2) using td'(3) by (intro disjI2 exI [of _ p] exI [of _ td']) simp
  moreover have other: "user_threadid x \<noteq> u" if "tls s q = Some x" for q x
  proof
    assume e: "user_threadid x = u"
    have "buffer_ok (live (hist s)) x" using co that unfolding cohort_def by blast
    with e new show False by (simp add: buffer_ok_def)
  qed
  have "cohort (live (hist s1)) (tls s1)"
    unfolding cohort_def lv s1(2)
  proof (intro conjI allI impI)
    fix q x assume q: "((tls s)(p \<mapsto> td')) q = Some x"
    show "buffer_ok ((live (hist s))(u \<mapsto> t)) x"
    proof (cases "q = p")
      case True
      with q td' new show ?thesis by (auto simp: buffer_ok_def)
    next
      case False
      with q have x: "tls s q = Some x" by simp
      with co have "buffer_ok (live (hist s)) x" unfolding cohort_def by blast
      with other [OF x] show ?thesis by (simp add: buffer_ok_def)
    qed
  next
    fix q q' x x' assume a: "((tls s)(p \<mapsto> td')) q = Some x" "((tls s)(p \<mapsto> td')) q' = Some x'"
      "0 \<le> user_threadid x" "user_threadid x' = user_threadid x"
    show "q = q'"
    proof (cases "q = p \<or> q' = p")
      case True
      with a td' other show ?thesis by (auto split: if_splits)
    next
      case False
      with a(1,2) have "tls s q = Some x" "tls s q' = Some x'" by simp_all
      with co a(3,4) show ?thesis unfolding cohort_def by blast
    qed
  next
    fix v assume v: "((live (hist s))(u \<mapsto> t)) v \<noteq> None"
    show "\<exists>q x. ((tls s)(p \<mapsto> td')) q = Some x \<and> user_threadid x = v \<and> 0 \<le> v"
    proof (cases "v = u")
      case True
      with td' new show ?thesis by (intro exI [of _ p] exI [of _ td']) simp
    next
      case False
      with v co obtain q x where q: "tls s q = Some x" "user_threadid x = v" "0 \<le> v"
        unfolding cohort_def by (metis fun_upd_other)
      with p have "q \<noteq> p" by auto
      with q show ?thesis by (intro exI [of _ q] exI [of _ x]) simp
    qed
  qed
  ultimately show ?thesis by (simp add: contract_def)
qed

text \<open>A thread that ends: its buffer goes to the file, with the finish entry behind it.\<close>

lemma cohort_remove:
  assumes c: "cohort lv ts" and p: "ts p = Some td" "0 \<le> user_threadid td"
  shows "cohort (lv(user_threadid td := None)) (ts(p := None))"
  unfolding cohort_def
proof (intro conjI allI impI)
  fix q x assume "(ts(p := None)) q = Some x"
  then have q: "ts q = Some x" "q \<noteq> p" by (simp_all split: if_splits)
  with c have b: "buffer_ok lv x" unfolding cohort_def by blast
  have "user_threadid x \<noteq> user_threadid td"
    using c p q unfolding cohort_def by metis
  with b show "buffer_ok (lv(user_threadid td := None)) x" by (simp add: buffer_ok_def)
next
  fix q q' x x' assume "(ts(p := None)) q = Some x" "(ts(p := None)) q' = Some x'"
    and u: "0 \<le> user_threadid x" "user_threadid x' = user_threadid x"
  then have "ts q = Some x" "ts q' = Some x'" by (simp_all split: if_splits)
  with c u show "q = q'" unfolding cohort_def by blast
next
  fix u assume "(lv(user_threadid td := None)) u \<noteq> None"
  then have u: "lv u \<noteq> None" "u \<noteq> user_threadid td" by (simp_all split: if_splits)
  with c obtain q x where q: "ts q = Some x" "user_threadid x = u" "0 \<le> u"
    unfolding cohort_def by blast
  with u(2) p(1) have "q \<noteq> p" by auto
  with q show "\<exists>q x. (ts(p := None)) q = Some x \<and> user_threadid x = u \<and> 0 \<le> u"
    by (intro exI [of _ q] exI [of _ x]) simp
qed

lemma cohort_remove_unregistered:
  assumes c: "cohort lv ts" and p: "ts p = Some td" "user_threadid td < 0"
  shows "cohort lv (ts(p := None))"
  unfolding cohort_def
proof (intro conjI allI impI)
  fix q x assume "(ts(p := None)) q = Some x"
  with c show "buffer_ok lv x" unfolding cohort_def by (simp split: if_splits)
next
  fix q q' x x' assume "(ts(p := None)) q = Some x" "(ts(p := None)) q' = Some x'"
    and u: "0 \<le> user_threadid x" "user_threadid x' = user_threadid x"
  then have "ts q = Some x" "ts q' = Some x'" by (simp_all split: if_splits)
  with c u show "q = q'" unfolding cohort_def by blast
next
  fix u assume "lv u \<noteq> None"
  with c obtain q x where q: "ts q = Some x" "user_threadid x = u" "0 \<le> u"
    unfolding cohort_def by blast
  with p have "q \<noteq> p" by auto
  with q show "\<exists>q x. (ts(p := None)) q = Some x \<and> user_threadid x = u \<and> 0 \<le> u"
    by (intro exI [of _ q] exI [of _ x]) simp
qed

lemma restrict_one: "ts |` (- {p}) = ts(p := None)"
  by (auto simp: restrict_map_def fun_eq_iff)

lemma contract_finish:
  assumes c: "contract {} s" and td: "tls s p = Some td" "0 \<le> user_threadid td"
    and t: "lamport_timestamp td < t" "latest (hist s) < t"
    and td': "user_threadid td' = user_threadid td" "trace_stream td' = []" "lamport_timestamp td' = t"
    and s1: "trace_file s1 = trace_file s @ trace_stream td @ [(t, user_threadid td, Thread_Finish)]"
      "tls s1 = (tls s)(p \<mapsto> td')"
  shows "contract {p} s1"
proof -
  let ?u = "user_threadid td" let ?e = "(t, ?u, Thread_Finish)"
  define td0 where "td0 = td'\<lparr>lamport_timestamp := lamport_timestamp td\<rparr>"
  define s0 where "s0 = set_tls p td0 (s\<lparr>trace_file := trace_file s @ trace_stream td\<rparr>)"
  have t0: "user_threadid td0 = ?u" "trace_stream td0 = []"
    "lamport_timestamp td0 = lamport_timestamp td"
    by (simp_all add: td0_def td')
  have c0: "contract {} s0"
    by (rule contract_flush [OF c td(1) _ td(2), of td0]) (simp_all add: t0 s0_def, simp_all add: set_tls_def)
  have p0: "tls s0 p = Some td0" by (simp add: s0_def)
  have "buffer_ok (live (hist s0)) td0"
    using c0 p0 unfolding contract_def cohort_def by simp
  then obtain t1 where t1: "live (hist s0) ?u = Some t1" "t1 < t"
    using td(2) t(1) by (auto simp: buffer_ok_def t0)
  have pf: "parsed_file s1 = parsed_file s0 @ [parsed_entry ?e]"
    by (simp add: parsed_file_def s1 s0_def set_tls_def)
  have h: "hist s1 = advance (hist s0) (parsed_entry ?e)"
    by (simp add: pf final_history_append)
  have lv: "live (hist s1) = (live (hist s0))(?u := None)" "latest (hist s1) = max (latest (hist s0)) t"
    unfolding h by (simp_all add: advance_def)
  have "line_ok (hist s0) (parsed_entry ?e)"
    using t1 td(2) by (simp add: line_ok_def)
  then have "accepted no_history (parsed_file s1)"
    unfolding pf accepted_file_append using c0 by (simp add: contract_def)
  moreover have "cohort (live (hist s1)) (tls s1 |` (- {p}))"
  proof -
    have "tls s1 |` (- {p}) = (tls s0)(p := None)"
      by (simp add: restrict_one s1 s0_def)
    with cohort_remove [of "live (hist s0)" "tls s0" p td0] c0 p0 td(2) show ?thesis
      by (simp add: lv t0 contract_def)
  qed
  moreover have "headed (latest (hist s1)) (tls s1)"
  proof -
    have "headed (latest (hist s1)) ((tls s0)(p \<mapsto> td'))"
      by (rule headed_upd [where m = "latest (hist s0)" and ts = "tls s0" and p = p, OF _ p0])
        (use c0 t in \<open>simp_all add: contract_def lv td' t0\<close>)
    moreover have "tls s1 = (tls s0)(p \<mapsto> td')" by (simp add: s1 s0_def)
    ultimately show ?thesis by simp
  qed
  ultimately show ?thesis by (simp add: contract_def s1 td')
qed

end
