(* ===== verification/Contract_Runs.thy ===== *)
theory Contract_Runs
  imports Trace_Contract
begin

text \<open>
  The routines of \<open>src/trace/trace.cpp\<close> keep the contract of the trace file: those that write
  no entry, those that buffer one, those that synchronise all threads for one, and the start,
  registration and end of threads.
\<close>

section \<open>Routines that write no entry\<close>

text \<open>What the contract sees of a thread.\<close>

definition view :: "thread_data \<Rightarrow> int \<times> entry list \<times> int" where
  "view td = (user_threadid td, trace_stream td, lamport_timestamp td)"

definition quiet :: "'b tracer \<Rightarrow> 'b tracer \<Rightarrow> bool" where
  "quiet s s' \<longleftrightarrow>
     trace_file s' = trace_file s \<and> (\<forall>q. map_option view (tls s' q) = map_option view (tls s q)) \<and>
     timestamp_difference s' = timestamp_difference s \<and> pin_threadid_set s' = pin_threadid_set s \<and>
     register_threads s' = register_threads s"

lemma quiet_back:
  assumes "quiet s s'" "tls s' q = Some td'"
  obtains td where "tls s q = Some td" "user_threadid td = user_threadid td'"
    "trace_stream td = trace_stream td'" "lamport_timestamp td = lamport_timestamp td'"
proof -
  have "map_option view (tls s q) = map_option view (tls s' q)"
    using assms(1) unfolding quiet_def by simp
  then have "map_option view (tls s q) = Some (view td')" using assms(2) by simp
  with that show thesis by (auto simp: view_def)
qed

lemma quiet_raised:
  assumes "quiet s s'" shows "raised (tls s) (tls s')"
  unfolding raised_def
proof (intro allI)
  fix q
  have "map_option view (tls s' q) = map_option view (tls s q)"
    using assms unfolding quiet_def by blast
  then show "rel_option raised_thread (tls s q) (tls s' q)"
    by (cases "tls s q"; cases "tls s' q") (auto simp: view_def raised_thread_def)
qed

definition members :: "'b tracer \<Rightarrow> bool" where
  "members s \<longleftrightarrow> (\<forall>q. tls s q \<noteq> None \<longrightarrow> q \<in> set (pin_threadid_set s))"

lemma members_joined: "members s \<Longrightarrow> joined s"
  by (auto simp: members_def joined_def)

lemma quiet_refl [simp]: "quiet s s"
  by (simp add: quiet_def)

lemma quiet_trans: "quiet s t \<Longrightarrow> quiet t u \<Longrightarrow> quiet s u"
  by (simp add: quiet_def)

lemma quiet_set_tls:
  assumes "tls s p = Some td" "user_threadid td' = user_threadid td"
    "trace_stream td' = trace_stream td" "lamport_timestamp td' = lamport_timestamp td"
  shows "quiet s (set_tls p td' s)"
  using assms by (simp add: quiet_def set_tls_def view_def)

lemma quiet_bank [simp]: "quiet s (s\<lparr>address_lock_bank := b\<rparr>)"
  and quiet_roi [simp]: "quiet s (s\<lparr>in_roi := r\<rparr>)"
  by (simp_all add: quiet_def)

lemma quiet_contract: "quiet s s' \<Longrightarrow> contract E s \<Longrightarrow> contract E s'"
  by (rule contract_raised [OF _ _ quiet_raised]) (assumption, simp add: quiet_def, assumption)

lemma quiet_members:
  assumes q: "quiet s s'" and m: "members s"
  shows "members s'"
  unfolding members_def
proof (intro allI impI)
  fix p assume "tls s' p \<noteq> None"
  then obtain td where "tls s' p = Some td" by blast
  with q obtain td0 where "tls s p = Some td0" by (rule quiet_back)
  with m q show "p \<in> set (pin_threadid_set s')" by (simp add: members_def quiet_def)
qed

lemma quiet_joined: "quiet s s' \<Longrightarrow> members s \<Longrightarrow> joined s'"
  by (rule members_joined, rule quiet_members)

lemma quiet_diff: "quiet s s' \<Longrightarrow> timestamp_difference s' = timestamp_difference s"
  by (simp add: quiet_def)

lemma quiet_release:
  assumes "release_address_locks p s = Inr s'"
  shows "quiet s s'"
proof -
  from assms obtain td where td: "tls s p = Some td"
    and s': "s' = set_tls p (td\<lparr>index_lock_list := []\<rparr>) (s\<lparr>address_lock_bank :=
      freed (index_lock_list td) (lamport_timestamp td) (address_lock_bank s)\<rparr>)"
    by (rule release_result)
  have "quiet (s\<lparr>address_lock_bank :=
      freed (index_lock_list td) (lamport_timestamp td) (address_lock_bank s)\<rparr>) s'"
    unfolding s' by (rule quiet_set_tls [where td = td]) (simp_all add: td)
  then show ?thesis using quiet_bank quiet_trans by blast
qed

lemma quiet_then:
  "andThen (release_address_locks p s) f = Inr s' \<Longrightarrow>
   (\<And>s1. quiet s s1 \<Longrightarrow> f s1 = Inr s' \<Longrightarrow> P) \<Longrightarrow> P"
  by (auto simp: andThen_Inr dest: quiet_release)

lemma quiet_header:
  assumes "memory_access_header_a p s = Inr s'"
  shows "quiet s s'"
  by (rule quiet_then [OF assms [unfolded memory_access_header_a_def]])
    (auto simp: andThen_Inr get_tls_Inr Let_def elim!: quiet_trans intro: quiet_set_tls)

lemma quiet_accesses:
  "memory_access_read1_a p a n s = Inr s' \<Longrightarrow> quiet s s'"
  "memory_access_read2_a p a s = Inr s' \<Longrightarrow> quiet s s'"
  "memory_access_write_a p a n s = Inr s' \<Longrightarrow> quiet s s'"
  "memory_access_CAS_footer_a p f s = Inr s' \<Longrightarrow> quiet s s'"
  by (auto simp: memory_access_read1_a_def memory_access_read2_a_def memory_access_write_a_def
      memory_access_CAS_footer_a_def Let_def andThen_Inr get_tls_Inr split: if_splits
      intro: quiet_set_tls)

lemma quiet_acquire:
  assumes run: "memory_access_acquire_locks_a p s = Inr s'"
  shows "quiet s s'"
proof -
  from run obtain td where td: "tls s p = Some td"
    by (auto simp: memory_access_acquire_locks_a_def andThen_Inr get_tls_Inr)
  show ?thesis
  proof (cases "trace_this_access td \<and> \<not> turn_off_locks s")
    case True
    let ?td = "td\<lparr>index_lock_list := needed_indices s td\<rparr>"
    from run td True obtain t s1 where
      l: "lock_all p (needed_indices s td) 0 (set_tls p ?td s) = Inr (t, s1)"
      and r: "andThen (get_tls s1 p) (\<lambda>td1.
        Inr (set_tls p (td1\<lparr>max_locked_timestamp := t\<rparr>) s1)) = Inr s'"
      by (auto simp: memory_access_acquire_locks_a_def acquire_address_locks_def andThen_Inr Let_def)
    have "quiet s (set_tls p ?td s)" by (rule quiet_set_tls [OF td]) simp_all
    moreover have "quiet (set_tls p ?td s) s1"
      using lock_all_result [OF l] by simp
    moreover have "quiet s1 s'"
      using r by (auto simp: andThen_Inr get_tls_Inr intro: quiet_set_tls)
    ultimately show ?thesis by (blast intro: quiet_trans)
  next
    case False
    with run td show ?thesis
      by (auto simp: memory_access_acquire_locks_a_def intro: quiet_set_tls split: if_splits)
  qed
qed

section \<open>Routines that write entries\<close>

lemma footer_contract:
  assumes run: "memory_access_footer_a bm p s = Inr s'" and c: "contract {} s"
    and d: "1 \<le> timestamp_difference s"
    and reg: "\<And>td. tls s p = Some td \<Longrightarrow> trace_this_access td \<Longrightarrow> 0 \<le> user_threadid td"
  shows "contract {} s'"
proof -
  from run obtain td where td: "tls s p = Some td"
    by (auto simp: memory_access_footer_a_def andThen_Inr get_tls_Inr)
  show ?thesis
  proof (cases "trace_this_access td")
    case True
    with run td have "touch_buffer bm p (access_time td) False (set_tls p
        (td\<lparr>trace_stream := trace_stream td @
           [(access_time td, user_threadid td, access_event td)]\<rparr>) s) = Inr s'"
      by (simp add: memory_access_footer_a_def Let_def)
    from touch_plain [OF this td d c reg [OF td True], of "access_event td"] show ?thesis
      by (simp add: access_time_def access_event_def)
  next
    case False
    with run td c show ?thesis by (simp add: memory_access_footer_a_def)
  qed
qed

lemma ctxt_change_contract:
  assumes run: "ctxt_change_release bm p s = Inr s'" and c: "contract {} s"
    and d: "1 \<le> timestamp_difference s"
    and reg: "\<And>td. tls s p = Some td \<Longrightarrow> 0 \<le> user_threadid td"
  shows "contract {} s'"
proof (rule quiet_then [OF run [unfolded ctxt_change_release_def]])
  fix s1
  assume q: "quiet s s1" and r: "andThen (get_tls s1 p) (\<lambda>td.
        let time = lamport_timestamp td + 1;
            td1 = td\<lparr>trace_stream := trace_stream td @ [(time, user_threadid td, Context_Change)]\<rparr>
        in touch_buffer bm p time False (set_tls p td1 s1)) = Inr s'"
  then obtain td where td: "tls s1 p = Some td" by (auto simp: andThen_Inr get_tls_Inr)
  from q td obtain td0 where "tls s p = Some td0" "user_threadid td0 = user_threadid td"
    by (rule quiet_back)
  with reg have u: "0 \<le> user_threadid td" by metis
  from r td have t: "touch_buffer bm p (lamport_timestamp td + 1) False (set_tls p
        (td\<lparr>trace_stream := trace_stream td @
           [(lamport_timestamp td + 1, user_threadid td, Context_Change)]\<rparr>) s1) = Inr s'"
    by (simp add: Let_def)
  show ?thesis
    by (rule touch_plain [OF t td _ quiet_contract [OF q c] u, of Context_Change])
      (use d q in \<open>simp_all add: quiet_def\<close>)
qed

text \<open>All threads synchronised: a plain entry, of a registered thread or of an unregistered one.\<close>

lemma contract_sync_entry:
  assumes c: "contract {} s" and td: "tls s p = Some td"
    and t: "bounded t s" "0 \<le> t" and ev: "plain ev"
    and td': "user_threadid td' = user_threadid td" "trace_stream td' = []"
      "lamport_timestamp td' = t + 1"
    and s1: "trace_file s1 = trace_file s @ trace_stream td @ [(t + 1, user_threadid td, ev)]"
      "tls s1 = (tls s)(p \<mapsto> td')"
  shows "contract {} s1"
proof (cases "0 \<le> user_threadid td")
  case True
  show ?thesis
    by (rule contract_flushed_entry [OF c td True _ ev td'(1) td'(3) td'(2) s1])
      (use boundedD [OF t(1) td] in simp)
next
  case False
  have "latest (hist s) \<le> t"
    using c t headed_bounded unfolding contract_def by blast
  moreover have "trace_stream td = []"
    using c td False unfolding contract_def cohort_def buffer_ok_def by auto
  ultimately show ?thesis
    using False s1 td' boundedD [OF t(1) td]
    by (intro contract_lone [OF c td, of "t + 1" ev td' s1]) (simp_all add: ev)
qed

lemma roi_contract:
  assumes run: "change_roi_a bm p b name s = Inr s'" and c: "contract {} s"
    and d: "1 \<le> timestamp_difference s" and m: "members s"
  shows "contract {} s'"
proof (rule quiet_then [OF run [unfolded change_roi_a_def]])
  fix s1
  assume q: "quiet s s1"
    and r: "trace_synchronised bm p (Change_Roi name) (s1\<lparr>in_roi := b\<rparr>) = Inr s'"
  let ?s = "s1\<lparr>in_roi := b\<rparr>"
  have q': "quiet s ?s" using q quiet_roi by (rule quiet_trans)
  from r obtain td where td: "tls ?s p = Some td"
    by (auto simp: trace_synchronised_def andThen_Inr get_tls_Inr)
  show ?thesis
  proof (rule trace_synchronised_contract [OF r td])
    show "joined ?s" using quiet_members [OF q' m] by (rule members_joined)
    show "1 \<le> timestamp_difference ?s" using d q' by (simp add: quiet_def)
  next
    fix s2 :: "'a tracer" and t
    assume b: "bounded t ?s" "0 \<le> t"
      and s2: "trace_file s2 = trace_file ?s @ trace_stream td @ [(t + 1, user_threadid td, Change_Roi name)]"
        "tls s2 = (tls ?s)(p \<mapsto> td\<lparr>lamport_timestamp := t + 1, trace_stream := []\<rparr>)"
    show "contract {} s2"
      by (rule contract_sync_entry [OF quiet_contract [OF q' c] td b _ _ _ _ s2]) simp_all
  qed simp
qed

lemma trace_function_contract:
  assumes run: "trace_function bm p ev s = Inr s'" and c: "contract {} s" and ev: "plain ev"
    and d: "1 \<le> timestamp_difference s" and m: "members s"
  shows "contract {} s'"
proof -
  from run obtain td where td: "tls s p = Some td"
    by (auto simp: trace_function_def andThen_Inr get_tls_Inr)
  from run td obtain t where t: "(if 0 \<le> user_threadid td then Inr (lamport_timestamp td)
      else acquire_all_thread_locks s) = Inr t"
    by (auto simp: trace_function_def andThen_Inr Let_def)
  let ?td = "td\<lparr>lamport_timestamp := t + 1,
    trace_stream := trace_stream td @ [(t + 1, user_threadid td, ev)]\<rparr>"
  from run td t obtain s1 where
    s1: "touch_buffer bm p (t + 1) (\<not> 0 \<le> user_threadid td) (set_tls p ?td s) = Inr s1"
    and s': "(if 0 \<le> user_threadid td then Inr s1 else release_all_thread_locks (t + 1) s1) = Inr s'"
    by (auto simp: trace_function_def andThen_Inr Let_def)
  show ?thesis
  proof (cases "0 \<le> user_threadid td")
    case True
    with t have "lamport_timestamp td < t + 1" by simp
    from touch_plain [OF s1 td d c True this ev] True s' show ?thesis by simp
  next
    case False
    with t have "acquire_all_thread_locks s = Inr t" by simp
    note b = acquire_all_bounded [OF this members_joined [OF m]]
    have "contract {} s1"
    proof (rule touch_contract [OF s1, of ?td "{}"])
      fix s2 :: "'a tracer"
      assume s2: "trace_file s2 = trace_file (set_tls p ?td s) @ trace_stream ?td"
        "tls s2 = (tls (set_tls p ?td s))(p \<mapsto> ?td\<lparr>lamport_timestamp := t + 1, trace_stream := []\<rparr>)"
      show "contract {} s2"
        by (rule contract_sync_entry [OF c td b ev,
              of "?td\<lparr>lamport_timestamp := t + 1, trace_stream := []\<rparr>"])
          (use s2 in \<open>simp_all, simp_all add: set_tls_def\<close>)
    qed (use d False in \<open>simp_all, simp add: set_tls_def\<close>)
    moreover have "bounded (t + 1) s1"
      by (rule touch_buffer_bounded [OF s1], rule bounded_set_tls)
        (use b in \<open>simp_all add: bounded_mono [OF b(1)]\<close>)
    ultimately show ?thesis using s' False by (auto intro: release_all_contract)
  qed
qed

section \<open>The start, registration and end of threads\<close>

lemma unregistered_empty: "contract {} s \<Longrightarrow> tls s p = Some td \<Longrightarrow> user_threadid td < 0 \<Longrightarrow> trace_stream td = []"
  unfolding contract_def cohort_def buffer_ok_def by auto

lemma contract_latest: "contract {} s \<Longrightarrow> bounded t s \<Longrightarrow> 0 \<le> t \<Longrightarrow> latest (hist s) \<le> t"
  unfolding contract_def using headed_bounded by blast

lemma register_contract:
  assumes run: "register_thread_a bm p u s = Inr s'" and c: "contract {} s"
    and d: "1 \<le> timestamp_difference s" and m: "members s"
    and use: "register_threads s \<Longrightarrow> fresh_uid u s"
      "\<And>td. register_threads s \<Longrightarrow> tls s p = Some td \<Longrightarrow> user_threadid td < 0"
  shows "contract {} s'"
proof (rule quiet_then [OF run [unfolded register_thread_a_def]])
  fix s1
  assume q: "quiet s s1" and r: "(if register_threads s1 then andThen (get_tls s1 p) (\<lambda>td.
      trace_synchronised bm p Thread_Register (set_tls p (td\<lparr>user_threadid := u\<rparr>) s1))
    else Inr s1) = Inr s'"
  have c1: "contract {} s1" by (rule quiet_contract [OF q c])
  show ?thesis
  proof (cases "register_threads s1")
    case False
    with r c1 show ?thesis by simp
  next
    case True
    with r obtain td where td: "tls s1 p = Some td"
      and sync: "trace_synchronised bm p Thread_Register (set_tls p (td\<lparr>user_threadid := u\<rparr>) s1) = Inr s'"
      by (auto simp: andThen_Inr get_tls_Inr)
    have on: "register_threads s" using True q by (simp add: quiet_def)
    from q td obtain td0 where "tls s p = Some td0" "user_threadid td0 = user_threadid td"
      by (rule quiet_back)
    with use(2) [OF on] have neg: "user_threadid td < 0" by metis
    have fresh: "fresh_uid u s1"
      using use(1) [OF on] q by (simp add: fresh_uid_def quiet_def)
    let ?s = "set_tls p (td\<lparr>user_threadid := u\<rparr>) s1"
    have m1: "members s1" by (rule quiet_members [OF q m])
    show ?thesis
    proof (rule trace_synchronised_contract [OF sync, of "td\<lparr>user_threadid := u\<rparr>"])
      show "joined ?s"
        using m1 td by (intro members_joined) (simp add: members_def set_tls_def)
      show "1 \<le> timestamp_difference ?s" using d q by (simp add: quiet_def set_tls_def)
    next
      fix s2 :: "'a tracer" and t
      assume b: "bounded t ?s" "0 \<le> t"
        and s2: "trace_file s2 = trace_file ?s @ trace_stream (td\<lparr>user_threadid := u\<rparr>) @
            [(t + 1, user_threadid (td\<lparr>user_threadid := u\<rparr>), Thread_Register)]"
          "tls s2 = (tls ?s)(p \<mapsto> td\<lparr>user_threadid := u, lamport_timestamp := t + 1, trace_stream := []\<rparr>)"
      have "bounded t s1"
        unfolding bounded_def
      proof (intro allI impI)
        fix q x assume "tls s1 q = Some x"
        then show "lamport_timestamp x \<le> t"
          using boundedD [OF b(1), of q] td by (cases "q = p") simp_all
      qed
      then have "latest (hist s1) < t + 1" using contract_latest [OF c1] b(2) by fastforce
      then show "contract {} s2"
        by (intro contract_register [OF c1 _ fresh, of p "t + 1"
              "td\<lparr>user_threadid := u, lamport_timestamp := t + 1, trace_stream := []\<rparr>" s2])
          (use td neg unregistered_empty [OF c1 td neg] s2 in \<open>simp_all, simp_all add: set_tls_def\<close>)
    qed simp_all
  qed
qed

lemma cohort_add:
  assumes c: "cohort lv ts" and p: "ts p = None" and td: "user_threadid td < 0" "trace_stream td = []"
  shows "cohort lv (ts(p \<mapsto> td))"
  unfolding cohort_def
proof (intro conjI allI impI)
  fix q x assume "(ts(p \<mapsto> td)) q = Some x"
  with c td show "buffer_ok lv x" unfolding cohort_def by (auto simp: buffer_ok_def split: if_splits)
next
  fix q q' x x' assume a: "(ts(p \<mapsto> td)) q = Some x" "(ts(p \<mapsto> td)) q' = Some x'"
    and u: "0 \<le> user_threadid x" "user_threadid x' = user_threadid x"
  from a u td have "ts q = Some x" "ts q' = Some x'" by (auto split: if_splits)
  with c u show "q = q'" unfolding cohort_def by blast
next
  fix u assume "lv u \<noteq> None"
  with c obtain q x where q: "ts q = Some x" "user_threadid x = u" "0 \<le> u"
    unfolding cohort_def by blast
  with p have "q \<noteq> p" by auto
  with q show "\<exists>q x. (ts(p \<mapsto> td)) q = Some x \<and> user_threadid x = u \<and> 0 \<le> u"
    by (intro exI [of _ q] exI [of _ x]) simp
qed

lemma contract_cong:
  "trace_file s' = trace_file s \<Longrightarrow> tls s' = tls s \<Longrightarrow> contract E s' \<longleftrightarrow> contract E s"
  by (simp add: contract_def parsed_file_def)

lemma start_contract:
  assumes run: "thread_start_a bm g u p s = Inr s'" and c: "contract {} s"
    and d: "1 \<le> timestamp_difference s" and m: "members s" and new: "tls s p = None"
    and use: "\<not> register_threads s \<Longrightarrow> fresh_uid u s"
  shows "contract {} s'"
proof -
  let ?td = "new_thread_data g" and ?s = "s\<lparr>num_threads := num_threads s + 1\<rparr>"
  have td: "trace_stream ?td = []" "user_threadid ?td = -1" "lamport_timestamp ?td = 0"
    by (simp_all add: new_thread_data_def)
  show ?thesis
  proof (cases "register_threads s")
    case True
    let ?ts = "(tls s)(p \<mapsto> ?td\<lparr>lamport_timestamp := 0\<rparr>)"
    have s': "trace_file s' = trace_file s" "tls s' = ?ts"
      using run True by (auto simp: thread_start_a_def Let_def set_tls_def)
    have pf: "parsed_file s' = parsed_file s" by (simp add: parsed_file_def s')
    have "cohort (live (hist s)) ?ts"
      by (rule cohort_add) (use c td new in \<open>simp_all add: contract_def\<close>)
    moreover have "headed (latest (hist s)) ?ts"
      using c new unfolding contract_def headed_def by (metis fun_upd_other option.distinct(1))
    ultimately show ?thesis using c by (simp add: contract_def s' pf)
  next
    case False
    let ?s0 = "set_tls p (?td\<lparr>user_threadid := u\<rparr>) ?s"
    from run False obtain s2 where
      sync: "trace_synchronised bm p Thread_Register ?s0 = Inr s2"
      and s': "s' = s2\<lparr>pin_threadid_set := List.insort_insert p (pin_threadid_set s2),
                     last_flushed := bm_insert bm p 0 (last_flushed s2)\<rparr>"
      by (auto simp: thread_start_a_def Let_def set_tls_def andThen_Inr)
    have "contract {} s2"
    proof (rule trace_synchronised_contract [OF sync, of "?td\<lparr>user_threadid := u\<rparr>"])
      show "joined ?s0"
        using m td by (auto simp: joined_def members_def set_tls_def)
      show "1 \<le> timestamp_difference ?s0" using d by (simp add: set_tls_def)
    next
      fix s3 :: "'a tracer" and t
      assume b: "bounded t ?s0" "0 \<le> t"
        and s3: "trace_file s3 = trace_file ?s0 @ trace_stream (?td\<lparr>user_threadid := u\<rparr>) @
            [(t + 1, user_threadid (?td\<lparr>user_threadid := u\<rparr>), Thread_Register)]"
          "tls s3 = (tls ?s0)(p \<mapsto> ?td\<lparr>user_threadid := u, lamport_timestamp := t + 1, trace_stream := []\<rparr>)"
      have "bounded t s"
        unfolding bounded_def
      proof (intro allI impI)
        fix q x assume "tls s q = Some x"
        moreover from this new have "q \<noteq> p" by auto
        ultimately show "lamport_timestamp x \<le> t"
          using boundedD [OF b(1), of q x] by (simp add: set_tls_def)
      qed
      then have "latest (hist s) < t + 1" using contract_latest [OF c] b(2) by fastforce
      then show "contract {} s3"
        by (intro contract_register [OF c _ use [OF False], of p "t + 1"
              "?td\<lparr>user_threadid := u, lamport_timestamp := t + 1, trace_stream := []\<rparr>" s3])
          (use td new s3 in \<open>simp_all, simp_all add: set_tls_def\<close>)
    qed simp_all
    then show ?thesis using contract_cong [of s' s2 "{}"] by (simp add: s')
  qed
qed

text \<open>The contract, or no thread is left and none is live in the file.\<close>

definition in_contract :: "'b tracer \<Rightarrow> bool" where
  "in_contract s \<longleftrightarrow>
     contract {} s \<or>
     tls s = Map.empty \<and> accepted no_history (parsed_file s) \<and> live (hist s) = Map.empty"

lemma in_contract_leave:
  assumes acc: "accepted no_history (parsed_file s')" and co: "cohort (live (hist s')) (tls s')"
    and hd: "tls s' \<noteq> Map.empty \<Longrightarrow> headed (latest (hist s')) (tls s')"
  shows "in_contract s'"
proof (cases "tls s' = Map.empty")
  case True
  with co have "live (hist s') = Map.empty" unfolding cohort_def by (metis option.distinct(1))
  with True acc show ?thesis by (simp add: in_contract_def)
next
  case False
  with acc co hd show ?thesis by (simp add: in_contract_def contract_def)
qed

text \<open>The synchronised finish entry: every other thread is at its time afterwards.\<close>

lemma finish_synchronised:
  fixes s s' :: "'b tracer"
  assumes run: "trace_synchronised bm p Thread_Finish s = Inr s'" and c: "contract {} s"
    and d: "1 \<le> timestamp_difference s" and m: "members s"
    and td: "tls s p = Some td" "0 \<le> user_threadid td"
  shows "contract {p} s'" "\<And>q x. tls s' q = Some x \<Longrightarrow> latest (hist s') \<le> lamport_timestamp x"
proof -
  note j = members_joined [OF m]
  show c': "contract {p} s'"
  proof (rule trace_synchronised_contract [OF run td(1) d j])
    fix s1 :: "'b tracer" and t
    assume b: "bounded t s" "0 \<le> t"
      and s1: "trace_file s1 = trace_file s @ trace_stream td @ [(t + 1, user_threadid td, Thread_Finish)]"
        "tls s1 = (tls s)(p \<mapsto> td\<lparr>lamport_timestamp := t + 1, trace_stream := []\<rparr>)"
    show "contract {p} s1"
      by (rule contract_finish [OF c td _ _ _ _ _ s1])
        (use boundedD [OF b(1) td(1)] contract_latest [OF c b] in simp_all)
  qed simp
  have k: "kept s s'"
    by (rule trace_synchronised_kept [OF run _ j]) (use d in simp)
  from run obtain t td0 s1 where t: "acquire_all_thread_locks s = Inr t" and td0: "tls s p = Some td0"
    and s1: "touch_buffer bm p (t + 1) True (set_tls p
      (td0\<lparr>trace_stream := trace_stream td0 @ [(t + 1, user_threadid td0, Thread_Finish)]\<rparr>) s) = Inr s1"
    and s': "release_all_thread_locks (t + 1) s1 = Inr s'"
    by (auto simp: trace_synchronised_def andThen_Inr get_tls_Inr Let_def)
  note b = acquire_all_bounded [OF t j]
  have b1: "bounded (t + 1) s1"
    by (rule touch_buffer_bounded [OF s1], rule bounded_set_tls)
      (use b boundedD [OF b(1) td0] in \<open>simp_all add: bounded_mono [OF b(1)]\<close>)
  have "kept s1 s'" by (rule release_all_kept(1) [OF s' b1])
  then have pins: "pin_threadid_set s1 = pin_threadid_set s"
    using kept_static(6) [OF k] kept_static(6) by metis
  have all: "lamport_timestamp x = t + 1" if "tls s' q = Some x" for q x
  proof -
    have "tls s q \<noteq> None" using that kept_dom [OF k, of q] by auto
    with m pins have "q \<in> set (pin_threadid_set s1)" by (simp add: members_def)
    from release_all_kept(2) [OF s' b1 this] that show ?thesis by auto
  qed
  then have "bounded (t + 1) s'" by (simp add: bounded_def)
  then have "latest (hist s') \<le> t + 1"
    using c' b(2) headed_bounded [of "latest (hist s')" s' "t + 1"] by (simp add: contract_def)
  with all show "latest (hist s') \<le> lamport_timestamp x" if "tls s' q = Some x" for q x
    using that by fastforce
qed

text \<open>An unregistered thread may end where another thread is as far, or where it is alone.\<close>

fun as_far :: "thread_data option \<Rightarrow> thread_data option \<Rightarrow> bool" where
  "as_far (Some td) (Some x) = (lamport_timestamp td \<le> lamport_timestamp x)"
| "as_far t u = False"

definition may_leave :: "int \<Rightarrow> 'b tracer \<Rightarrow> bool" where
  "may_leave p s \<longleftrightarrow>
     (case tls s p of
        None \<Rightarrow> True
      | Some td \<Rightarrow> 0 \<le> user_threadid td \<or> list_all (\<lambda>q. q = p) (pin_threadid_set s) \<or>
          list_ex (\<lambda>q. q \<noteq> p \<and> as_far (tls s p) (tls s q)) (pin_threadid_set s))"

lemma leave_headed:
  assumes hd: "headed m (tls s)" and l: "may_leave p s" "members s"
    and td: "tls s p = Some td" "user_threadid td < 0" and ne: "(tls s)(p := None) \<noteq> Map.empty"
  shows "headed m ((tls s)(p := None))"
proof -
  obtain q' where q': "q' \<noteq> p" "tls s q' \<noteq> None"
    using ne by (auto simp: fun_eq_iff split: if_splits)
  then have "\<not> list_all (\<lambda>q. q = p) (pin_threadid_set s)"
    using l(2) by (auto simp: members_def list_all_iff)
  then obtain q x where q: "q \<noteq> p" "tls s q = Some x" "lamport_timestamp td \<le> lamport_timestamp x"
    using l(1) td by (auto simp: may_leave_def list_ex_iff elim!: as_far.elims)
  from hd consider "m \<le> 0" | r y where "tls s r = Some y" "m \<le> lamport_timestamp y"
    unfolding headed_def by blast
  then show ?thesis
  proof cases
    case 2
    show ?thesis
    proof (cases "r = p")
      case True
      with 2 td q show ?thesis
        unfolding headed_def by (intro disjI2 exI [of _ q] exI [of _ x]) simp
    next
      case False
      with 2 show ?thesis
        unfolding headed_def by (intro disjI2 exI [of _ r] exI [of _ y]) simp
    qed
  qed (simp add: headed_def)
qed

text \<open>The end of a thread in its parts.\<close>

lemma fini_parts:
  assumes run: "thread_fini_a bm p s = Inr s'"
  obtains s1 td s2 td2 where "release_address_locks p s = Inr s1" "tls s1 p = Some td"
    "(if 0 \<le> user_threadid td then trace_synchronised bm p Thread_Finish s1 else Inr s1) = Inr s2"
    "tls s2 p = Some td2" "tls s' = (tls s2)(p := None)"
    "trace_file s' = trace_file s2 @ (if 0 < buffered_entries td2 then trace_stream td2 else [])"
    "address_lock_bank s' = address_lock_bank s2"
proof -
  let ?fin = "\<lambda>s2. let s3 = s2\<lparr>pin_threadid_set := remove1 p (pin_threadid_set s2)\<rparr> in
          andThen (get_tls s3 p) (\<lambda>td3.
          andThen (if 0 < buffered_entries td3
              then andThen (write_file (trace_stream td3) s3) (\<lambda>s4.
                   Inr (s4\<lparr>last_flushed := bm_erase bm p (last_flushed s4)\<rparr>))
              else Inr s3)
            (\<lambda>s5. Inr (s5\<lparr>tls := (tls s5)(p := None)\<rparr>)))"
  from run obtain s1 td s2 where a: "release_address_locks p s = Inr s1" "tls s1 p = Some td"
    "(if 0 \<le> user_threadid td then trace_synchronised bm p Thread_Finish s1 else Inr s1) = Inr s2"
    and r: "?fin s2 = Inr s'"
    unfolding thread_fini_a_def andThen_Inr get_tls_Inr by blast
  from r obtain td2 where td2: "tls s2 p = Some td2"
    by (auto simp: andThen_Inr get_tls_def Let_def split: option.splits)
  have "tls s' = (tls s2)(p := None)"
    "trace_file s' = trace_file s2 @ (if 0 < buffered_entries td2 then trace_stream td2 else [])"
    "address_lock_bank s' = address_lock_bank s2"
    using r td2 by (auto simp: andThen_Inr get_tls_def Let_def write_file_Inr split: if_splits)
  with a td2 that show thesis by blast
qed

lemma fini_contract:
  assumes run: "thread_fini_a bm p s = Inr s'" and c: "contract {} s"
    and d: "1 \<le> timestamp_difference s" and m: "members s" and leave: "may_leave p s"
  shows "in_contract s'"
proof -
  from run obtain s1 td s2 td2 where rel: "release_address_locks p s = Inr s1"
    and td: "tls s1 p = Some td"
    and s2: "(if 0 \<le> user_threadid td then trace_synchronised bm p Thread_Finish s1 else Inr s1) = Inr s2"
    and td2: "tls s2 p = Some td2" and s': "tls s' = (tls s2)(p := None)"
      "trace_file s' = trace_file s2 @ (if 0 < buffered_entries td2 then trace_stream td2 else [])"
    "address_lock_bank s' = address_lock_bank s2"
    by (rule fini_parts)
  have q: "quiet s s1" using rel by (rule quiet_release)
  have c1: "contract {} s1" and m1: "members s1" and d1: "1 \<le> timestamp_difference s1"
    using q c m d quiet_contract quiet_members by (blast, blast, simp add: quiet_def)
  have gone: "trace_file s' = trace_file s2 \<and> tls s' = (tls s2)(p := None)"
    if "trace_stream td2 = []"
    using s' that by simp
  show ?thesis
  proof (cases "0 \<le> user_threadid td")
    case True
    with s2 have sync: "trace_synchronised bm p Thread_Finish s1 = Inr s2" by simp
    note f = finish_synchronised [OF sync c1 d1 m1 td True]
    have "trace_stream td2 = []" using f(1) td2 by (simp add: contract_def)
    note s' = gone [OF this]
    have pf: "parsed_file s' = parsed_file s2" using s' by (simp add: parsed_file_def)
    show ?thesis
    proof (rule in_contract_leave)
      show "accepted no_history (parsed_file s')" "cohort (live (hist s')) (tls s')"
        using f(1) s' by (simp_all add: contract_def pf restrict_one)
      assume "tls s' \<noteq> Map.empty"
      then obtain q x where "tls s' q = Some x" by (metis not_None_eq ext)
      moreover from this s' have "tls s2 q = Some x" by (simp split: if_splits)
      ultimately show "headed (latest (hist s')) (tls s')"
        unfolding headed_def pf using f(2) by blast
    qed
  next
    case False
    with s2 have e: "s2 = s1" by simp
    have "trace_stream td2 = []"
      using unregistered_empty [OF c1, of p td2] td2 td False e by simp
    note s' = gone [OF this]
    have pf: "parsed_file s' = parsed_file s1" using s' e by (simp add: parsed_file_def)
    have l1: "may_leave p s1"
    proof -
      have v: "map_option view (tls s1 q) = map_option view (tls s q)" for q
        using q unfolding quiet_def by blast
      have as: "as_far (tls s1 p) (tls s1 q) = as_far (tls s p) (tls s q)" for q
        using v [of p] v [of q] by (cases "tls s p"; cases "tls s q") (auto simp: view_def)
      have pins: "pin_threadid_set s1 = pin_threadid_set s" using q by (simp add: quiet_def)
      from td v [of p] obtain x where x: "tls s p = Some x" "user_threadid x = user_threadid td"
        by (cases "tls s p") (auto simp: view_def)
      with leave td False show ?thesis
        unfolding may_leave_def as pins by simp
    qed
    show ?thesis
    proof (rule in_contract_leave)
      show "accepted no_history (parsed_file s')" using c1 by (simp add: contract_def pf)
      show "cohort (live (hist s')) (tls s')"
        using c1 s' e cohort_remove_unregistered [where ts = "tls s1" and p = p, OF _ td] False by (simp add: contract_def pf)
      assume "tls s' \<noteq> Map.empty"
      with leave_headed [OF _ l1 m1 td, of "latest (hist s1)"] c1 s' e False
      show "headed (latest (hist s')) (tls s')" by (simp add: contract_def pf)
    qed
  qed
qed

end
