(* ===== verification/Proper_Runs.thy ===== *)
theory Proper_Runs
  imports Contract_Runs
begin

text \<open>
  The runs in which the traced program uses the tracer as it asks: thread ids are not given twice,
  and what an unregistered thread does that the tracer does not synchronise stays away. In all of
  them the trace file keeps the contract of the merge program.
\<close>

section \<open>What a thread's own calls change\<close>

text \<open>
  Whether a thread is registered, traces its access, with which operands and locks: no other thread
  changes that.
\<close>

definition others_kept :: "int \<Rightarrow> 'b tracer \<Rightarrow> 'b tracer \<Rightarrow> bool" where
  "others_kept p s s' \<longleftrightarrow>
     (\<forall>q. q \<noteq> p \<longrightarrow> map_option core (tls s' q) = map_option core (tls s q))"

lemma others_refl [simp]: "others_kept p s s"
  by (simp add: others_kept_def)

lemma others_trans: "others_kept p s t \<Longrightarrow> others_kept p t u \<Longrightarrow> others_kept p s u"
  by (simp add: others_kept_def)

lemma others_upd: "tls s' = (tls s)(p := t) \<Longrightarrow> others_kept p s s'"
  by (simp add: others_kept_def)

lemma others_set_tls [simp]: "others_kept p s (set_tls p td s)"
  by (rule others_upd) (simp add: set_tls_def)

lemma others_cong: "tls s' = tls s \<Longrightarrow> others_kept p s s'"
  by (simp add: others_kept_def)

lemma kept_others:
  assumes k: "kept s s'" shows "others_kept p s s'"
  unfolding others_kept_def
proof (intro allI impI)
  fix q
  show "map_option core (tls s' q) = map_option core (tls s q)"
  proof (cases "tls s q")
    case None
    then show ?thesis using kept_dom [OF k, of q] by simp
  next
    case (Some td)
    with k obtain td' where "tls s' q = Some td'" "core td' = core td" by (rule kept_tls)
    with Some show ?thesis by simp
  qed
qed

lemma others_release:
  assumes "release_address_locks p s = Inr s'" shows "others_kept p s s'"
  using assms by (rule release_result) (auto intro!: others_upd simp: set_tls_def)

lemma others_then:
  "andThen (release_address_locks p s) f = Inr s' \<Longrightarrow>
   (\<And>s1. quiet s s1 \<Longrightarrow> f s1 = Inr s' \<Longrightarrow> others_kept p s1 s') \<Longrightarrow> others_kept p s s'"
  unfolding andThen_Inr using others_release quiet_release others_trans by blast

lemma others_accesses:
  "memory_access_read1_a p a n s = Inr s' \<Longrightarrow> others_kept p s s'"
  "memory_access_read2_a p a s = Inr s' \<Longrightarrow> others_kept p s s'"
  "memory_access_write_a p a n s = Inr s' \<Longrightarrow> others_kept p s s'"
  "memory_access_CAS_footer_a p f s = Inr s' \<Longrightarrow> others_kept p s s'"
  by (auto simp: memory_access_read1_a_def memory_access_read2_a_def memory_access_write_a_def
      memory_access_CAS_footer_a_def Let_def andThen_Inr split: if_splits)

lemma others_header:
  "memory_access_header_a p s = Inr s' \<Longrightarrow> others_kept p s s'"
  unfolding memory_access_header_a_def
  by (rule others_then, assumption) (auto simp: andThen_Inr Let_def)

lemma others_acquire:
  assumes run: "memory_access_acquire_locks_a p s = Inr s'"
  shows "others_kept p s s'"
proof -
  from run obtain td where td: "tls s p = Some td"
    by (auto simp: memory_access_acquire_locks_a_def andThen_Inr get_tls_Inr)
  show ?thesis
  proof (cases "trace_this_access td \<and> \<not> turn_off_locks s")
    case True
    let ?td = "td\<lparr>index_lock_list := needed_indices s td\<rparr>"
    from run td True obtain t s1 where
      l: "lock_all p (needed_indices s td) 0 (set_tls p ?td s) = Inr (t, s1)"
      and r: "andThen (get_tls s1 p) (\<lambda>td1.
        Inr (set_tls p (td1\<lparr>max_locked_timestamp := t\<rparr>) s1)) = Inr s'"
      by (auto simp: memory_access_acquire_locks_a_def acquire_address_locks_def andThen_Inr Let_def)
    have "others_kept p (set_tls p ?td s) s1"
      using lock_all_result [OF l] by (simp add: others_cong)
    moreover have "others_kept p s1 s'" using r by (auto simp: andThen_Inr)
    ultimately show ?thesis by (blast intro: others_trans others_set_tls)
  next
    case False
    with run td show ?thesis by (auto simp: memory_access_acquire_locks_a_def split: if_splits)
  qed
qed

lemma touch_others:
  assumes "touch_buffer bm p t force (set_tls p td1 s) = Inr s'"
    and "lamport_timestamp td1 \<le> t" and "1 \<le> timestamp_difference s"
  shows "others_kept p s s'"
proof -
  have "kept (set_tls p td1 s) s'"
    by (rule touch_buffer_kept(1) [OF assms(1), of td1]) (use assms in \<open>simp_all, simp add: set_tls_def\<close>)
  then show ?thesis using kept_others others_set_tls others_trans by blast
qed

lemma others_footer:
  assumes run: "memory_access_footer_a bm p s = Inr s'" and d: "1 \<le> timestamp_difference s"
  shows "others_kept p s s'"
  using run touch_others [OF _ _ d, of bm p _ False]
  by (auto simp: memory_access_footer_a_def andThen_Inr Let_def access_time_def split: if_splits)

lemma others_ctxt:
  assumes run: "ctxt_change_release bm p s = Inr s'" and d: "1 \<le> timestamp_difference s"
  shows "others_kept p s s'"
proof (rule others_then [OF run [unfolded ctxt_change_release_def]])
  fix s1
  assume "quiet s s1" and r: "andThen (get_tls s1 p) (\<lambda>td.
        let time = lamport_timestamp td + 1;
            td1 = td\<lparr>trace_stream := trace_stream td @ [(time, user_threadid td, Context_Change)]\<rparr>
        in touch_buffer bm p time False (set_tls p td1 s1)) = Inr s'"
  with d have "1 \<le> timestamp_difference s1" by (simp add: quiet_def)
  with r show "others_kept p s1 s'"
    by (auto simp: andThen_Inr Let_def intro: touch_others)
qed

lemma others_synchronised:
  assumes "trace_synchronised bm p ev s = Inr s'" "1 \<le> timestamp_difference s" "joined s"
  shows "others_kept p s s'"
  by (rule kept_others [OF trace_synchronised_kept [OF assms(1) _ assms(3)]]) (use assms(2) in simp)

lemma others_function:
  assumes "trace_function bm p ev s = Inr s'" "1 \<le> timestamp_difference s" "joined s"
  shows "others_kept p s s'"
  by (rule kept_others [OF trace_function_kept [OF assms(1) _ assms(3)]]) (use assms(2) in simp)

section \<open>Runs\<close>

text \<open>
  How the traced program has to use the tracer: ids are not given twice, a thread registers once,
  the first thread starts before anything is traced and another only while one runs, and an
  unregistered thread neither faults nor is the last to know the greatest time when it ends.
\<close>

fun well_used :: "call \<Rightarrow> 'b tracer \<Rightarrow> bool" where
  "well_used (Start g uid p) s =
     ((trace_file s = [] \<or> pin_threadid_set s \<noteq> []) \<and> (register_threads s \<or> fresh_uid uid s))"
| "well_used (Register p uid) s =
     (register_threads s \<longrightarrow> fresh_uid uid s \<and>
        (case tls s p of None \<Rightarrow> True | Some td \<Rightarrow> user_threadid td < 0))"
| "well_used (Fini p) s = may_leave p s"
| "well_used (Ctxt_Change p) s = (case tls s p of None \<Rightarrow> True | Some td \<Rightarrow> 0 \<le> user_threadid td)"
| "well_used c s = True"

definition tracing_ok :: "(int \<Rightarrow> phase) \<Rightarrow> 'b tracer \<Rightarrow> bool" where
  "tracing_ok ph s \<longleftrightarrow>
     (\<forall>q td. tls s q = Some td \<longrightarrow> ph q \<noteq> Free \<longrightarrow> trace_this_access td \<longrightarrow> 0 \<le> user_threadid td)"

lemma run_call_others:
  assumes run: "run_call bm c s = Inr s'" and m: "members s" and d: "1 \<le> timestamp_difference s"
    and st: "start_ok c s"
  shows "others_kept (caller c) s s'"
proof (cases c)
  case (Call name p sp a b e)
  from run Call have "andThen (release_address_locks p s)
      (trace_function bm p (Function_Call name sp a b e)) = Inr s'"
    by (simp add: function_call_a_def)
  then show ?thesis unfolding Call caller.simps
    by (rule others_then) (use m d in \<open>auto simp: quiet_diff intro: others_function quiet_joined\<close>)
next
  case (Return name p sp v)
  from run Return have "andThen (release_address_locks p s)
      (trace_function bm p (Function_Return name sp v)) = Inr s'"
    by (simp add: function_return_a_def)
  then show ?thesis unfolding Return caller.simps
    by (rule others_then) (use m d in \<open>auto simp: quiet_diff intro: others_function quiet_joined\<close>)
next
  case (Roi p b name)
  from run Roi have r: "change_roi_a bm p b name s = Inr s'" by simp
  show ?thesis unfolding Roi caller.simps
  proof (rule others_then [OF r [unfolded change_roi_a_def]])
    fix s1 assume q: "quiet s s1"
      and t: "trace_synchronised bm p (Change_Roi name) (s1\<lparr>in_roi := b\<rparr>) = Inr s'"
    have q': "quiet s (s1\<lparr>in_roi := b\<rparr>)" using q quiet_roi by (rule quiet_trans)
    have "others_kept p (s1\<lparr>in_roi := b\<rparr>) s'"
      by (rule others_synchronised [OF t])
        (use d quiet_diff [OF q'] quiet_joined [OF q' m] in simp_all)
    then show "others_kept p s1 s'" by (simp add: others_kept_def)
  qed
next
  case (Register p uid)
  from run Register have r: "register_thread_a bm p uid s = Inr s'" by simp
  show ?thesis unfolding Register caller.simps
  proof (rule others_then [OF r [unfolded register_thread_a_def]])
    fix s1 assume q: "quiet s s1"
      and t: "(if register_threads s1 then andThen (get_tls s1 p) (\<lambda>td.
          trace_synchronised bm p Thread_Register (set_tls p (td\<lparr>user_threadid := uid\<rparr>) s1))
        else Inr s1) = Inr s'"
    show "others_kept p s1 s'"
    proof (cases "register_threads s1")
      case True
      with t obtain td where td: "tls s1 p = Some td"
        and sync: "trace_synchronised bm p Thread_Register (set_tls p (td\<lparr>user_threadid := uid\<rparr>) s1) = Inr s'"
        by (auto simp: andThen_Inr get_tls_Inr)
      let ?s = "set_tls p (td\<lparr>user_threadid := uid\<rparr>) s1"
      have "joined ?s"
        using quiet_members [OF q m] td by (intro members_joined) (simp add: members_def set_tls_def)
      then have "others_kept p ?s s'"
        using d q by (intro others_synchronised [OF sync]) (simp_all add: quiet_def set_tls_def)
      then show ?thesis using others_set_tls others_trans by blast
    qed (use t in simp)
  qed
next
  case (Start g uid p)
  let ?td = "new_thread_data g" and ?s = "s\<lparr>num_threads := num_threads s + 1\<rparr>"
  have o: "others_kept p s (set_tls p td ?s)" for td
    by (rule others_upd) (simp add: set_tls_def)
  have o': "others_kept p t s' \<longleftrightarrow> others_kept p t s2" if "tls s' = tls s2" for t s2 :: "'a tracer"
    using that by (simp add: others_kept_def)
  show ?thesis
  proof (cases "register_threads s")
    case True
    with run Start show ?thesis
      by (auto simp: thread_start_a_def Let_def set_tls_def intro: others_upd)
  next
    case False
    let ?s0 = "set_tls p (?td\<lparr>user_threadid := uid\<rparr>) ?s"
    from run False Start obtain s2 where
      sync: "trace_synchronised bm p Thread_Register ?s0 = Inr s2"
      and s': "tls s' = tls s2"
      by (auto simp: thread_start_a_def Let_def set_tls_def andThen_Inr)
    have "joined ?s0"
      using m by (auto simp: joined_def members_def set_tls_def new_thread_data_def)
    then have "others_kept p ?s0 s2"
      using d by (intro others_synchronised [OF sync]) (simp_all add: set_tls_def)
    with o have "others_kept p s s2" by (blast intro: others_trans)
    then show ?thesis by (simp add: Start o' [OF s'])
  qed
next
  case (Fini p)
  from run Fini have "thread_fini_a bm p s = Inr s'" by simp
  then obtain s1 td s2 td2 where rel: "release_address_locks p s = Inr s1" and "tls s1 p = Some td"
    and s2: "(if 0 \<le> user_threadid td then trace_synchronised bm p Thread_Finish s1 else Inr s1) = Inr s2"
    and "tls s2 p = Some td2" and s': "tls s' = (tls s2)(p := None)"
      "trace_file s' = trace_file s2 @ (if 0 < buffered_entries td2 then trace_stream td2 else [])"
      "address_lock_bank s' = address_lock_bank s2"
    by (rule fini_parts)
  have q: "quiet s s1" using rel by (rule quiet_release)
  have "others_kept p s1 s2"
    using s2 others_synchronised [of bm p Thread_Finish s1 s2] d quiet_diff [OF q] quiet_joined [OF q m]
    by (auto split: if_splits)
  with others_release [OF rel] s' show ?thesis
    unfolding Fini caller.simps by (blast intro: others_trans others_upd)
next
  case (Header p)
  with run show ?thesis by (simp add: others_header)
qed (use run d in \<open>auto simp: memory_access_release_a_def
  intro: others_accesses others_acquire others_release others_footer others_ctxt\<close>)

lemma run_call_contract:
  assumes run: "run_call bm c s = Inr s'" and c: "contract {} s" and m: "members s"
    and d: "1 \<le> timestamp_difference s" and st: "start_ok c s" and use: "well_used c s"
    and ph: "next_phase c (ph (caller c)) \<noteq> None" "tracing_ok ph s"
  shows "in_contract s'"
proof (cases c)
  case (Fini p)
  with run use m d c show ?thesis by (simp add: fini_contract)
next
  case (Call name p sp a b e)
  from run Call have "andThen (release_address_locks p s)
      (trace_function bm p (Function_Call name sp a b e)) = Inr s'"
    by (simp add: function_call_a_def)
  then have "contract {} s'"
    by (rule quiet_then) (use m d c in
      \<open>auto simp: quiet_diff intro: trace_function_contract quiet_contract quiet_members\<close>)
  then show ?thesis by (simp add: in_contract_def)
next
  case (Return name p sp v)
  from run Return have "andThen (release_address_locks p s)
      (trace_function bm p (Function_Return name sp v)) = Inr s'"
    by (simp add: function_return_a_def)
  then have "contract {} s'"
    by (rule quiet_then) (use m d c in
      \<open>auto simp: quiet_diff intro: trace_function_contract quiet_contract quiet_members\<close>)
  then show ?thesis by (simp add: in_contract_def)
next
  case (Footer p)
  have "contract {} s'"
    by (rule footer_contract [of bm p s s'])
      (use run Footer ph c d in \<open>auto simp: tracing_ok_def split: if_splits\<close>)
  then show ?thesis by (simp add: in_contract_def)
next
  case (Ctxt_Change p)
  have "contract {} s'"
    by (rule ctxt_change_contract [of bm p s s']) (use run Ctxt_Change use c d in auto)
  then show ?thesis by (simp add: in_contract_def)
next
  case (Roi p b name)
  have "contract {} s'"
    by (rule roi_contract [of bm p b name s s']) (use run Roi c d m in simp_all)
  then show ?thesis by (simp add: in_contract_def)
next
  case (Register p uid)
  have "contract {} s'"
    by (rule register_contract [of bm p uid s s']) (use run Register c d m use in auto)
  then show ?thesis by (simp add: in_contract_def)
next
  case (Start g uid p)
  have "contract {} s'"
    by (rule start_contract [of bm g uid p s s']) (use run Start c d m use st in auto)
  then show ?thesis by (simp add: in_contract_def)
next
  case (Header p)
  with run have "quiet s s'" by (simp add: quiet_header)
  with c show ?thesis unfolding in_contract_def by (blast intro: quiet_contract)
next
  case (Read1 p a n)
  with run have "quiet s s'" by (simp add: quiet_accesses)
  with c show ?thesis unfolding in_contract_def by (blast intro: quiet_contract)
next
  case (Read2 p a)
  with run have "quiet s s'" by (simp add: quiet_accesses)
  with c show ?thesis unfolding in_contract_def by (blast intro: quiet_contract)
next
  case (Write p a n)
  with run have "quiet s s'" by (simp add: quiet_accesses)
  with c show ?thesis unfolding in_contract_def by (blast intro: quiet_contract)
next
  case (Acquire p)
  with run have "quiet s s'" by (simp add: quiet_acquire)
  with c show ?thesis unfolding in_contract_def by (blast intro: quiet_contract)
next
  case (Cas_Footer p f)
  with run have "quiet s s'" by (simp add: quiet_accesses)
  with c show ?thesis unfolding in_contract_def by (blast intro: quiet_contract)
next
  case (Release p)
  with run have "quiet s s'" by (simp add: memory_access_release_a_def quiet_release)
  with c show ?thesis unfolding in_contract_def by (blast intro: quiet_contract)
qed

lemma run_call_tracing:
  assumes run: "run_call bm c s = Inr s'" and m: "members s" and d: "1 \<le> timestamp_difference s"
    and st: "start_ok c s" and ph: "next_phase c (ph (caller c)) = Some x" "tracing_ok ph s"
  shows "tracing_ok (ph(caller c := x)) s'"
  unfolding tracing_ok_def
proof (intro allI impI)
  fix q td
  assume q: "tls s' q = Some td" "(ph(caller c := x)) q \<noteq> Free" "trace_this_access td"
  show "0 \<le> user_threadid td"
  proof (cases "q = caller c")
    case False
    from run_call_others [OF run m d st] False
    have "map_option core (tls s' q) = map_option core (tls s q)" unfolding others_kept_def by blast
    then have "map_option core (tls s q) = Some (core td)" using q(1) by simp
    then obtain td0 where "tls s q = Some td0" "core td0 = core td" by blast
    moreover from this have "user_threadid td0 = user_threadid td" "trace_this_access td0"
      using q(3) core_fields(1,3) [of td0 td] by simp_all
    moreover have "ph q \<noteq> Free" using q(2) False by simp
    ultimately have "0 \<le> user_threadid td0"
      using ph(2) unfolding tracing_ok_def by blast
    with \<open>user_threadid td0 = user_threadid td\<close> show ?thesis by simp
  next
    case True
    with q(2) have "x \<noteq> Free" by simp
    have old: "0 \<le> user_threadid td0" if "tls s q = Some td0" "trace_this_access td0" "ph q = y" "y \<noteq> Free" for td0 y
      using that ph(2) by (auto simp: tracing_ok_def)
    show ?thesis
    proof (cases c)
      case (Header p)
      with run q True show ?thesis
        by (auto simp: memory_access_header_a_def andThen_Inr Let_def)
    next
      case (Acquire p)
      with run ph(1) have r: "memory_access_acquire_locks_a p s = Inr s'" "ph p = Headed"
        by (auto split: if_splits)
      then obtain td0 where td0: "tls s p = Some td0"
        by (auto simp: memory_access_acquire_locks_a_def andThen_Inr get_tls_Inr)
      have "user_threadid td = user_threadid td0 \<and> trace_this_access td = trace_this_access td0"
        using r(1) td0 q(1) True Acquire
        by (auto simp: memory_access_acquire_locks_a_def acquire_address_locks_def andThen_Inr
            Let_def dest!: lock_all_result split: if_splits)
      with old [of td0 Headed] td0 q True Acquire r(2) show ?thesis by simp
    qed (use run ph(1) q True \<open>x \<noteq> Free\<close> old in
      \<open>auto simp: memory_access_read1_a_def memory_access_read2_a_def memory_access_write_a_def
        memory_access_CAS_footer_a_def Let_def andThen_Inr get_tls_Inr split: if_splits\<close>)
  qed
qed

text \<open>The runs in which every call is well used.\<close>

inductive proper :: "'b bimap_ops \<Rightarrow> knobs \<Rightarrow> 'b run \<Rightarrow> bool" for bm k where
  proper_start: "tracer_main bm k = Inr s \<Longrightarrow>
    proper bm k \<lparr>run_state = s, run_phase = (\<lambda>_. Free), run_log = []\<rparr>"
| proper_more: "proper bm k r \<Longrightarrow> run_step bm r c r' \<Longrightarrow> well_used c (run_state r) \<Longrightarrow> proper bm k r'"

lemma proper_reachable: "proper bm k r \<Longrightarrow> reachable bm k r"
  by (induction rule: proper.induct) (auto intro: reachable.intros)

lemma run_call_caller:
  "run_call bm c s = Inr s' \<Longrightarrow> tls s (caller c) = None \<Longrightarrow> \<exists>g uid p. c = Start g uid p"
  by (cases c) (auto simp: get_tls_def release_address_locks_def memory_access_header_a_def
      memory_access_read1_a_def memory_access_read2_a_def memory_access_write_a_def
      memory_access_acquire_locks_a_def memory_access_CAS_footer_a_def memory_access_footer_a_def
      memory_access_release_a_def function_call_a_def function_return_a_def change_roi_a_def
      register_thread_a_def thread_fini_a_def ctxt_change_release_def)

lemma contract_before:
  assumes ic: "in_contract s" and t: "threads_ok s"
    and run: "run_call bm c s = Inr s'" and use: "well_used c s"
  shows "contract {} s"
proof (cases "tls s = Map.empty")
  case True
  with run_call_caller [OF run] obtain g uid p where c: "c = Start g uid p" by auto
  have "pin_threadid_set s = []"
    using t True by (cases "pin_threadid_set s") (auto simp: threads_ok_def)
  with use c have "parsed_file s = []" by (simp add: parsed_file_def)
  with True show ?thesis
    by (simp add: contract_def cohort_def headed_def final_history_def no_history_def)
next
  case False
  with ic show ?thesis by (simp add: in_contract_def)
qed

lemma proper_contract:
  assumes "proper bm k r" and d: "1 \<le> knob_timestamp_difference k" and on: "\<not> knob_turn_off k"
  shows "in_contract (run_state r) \<and> tracing_ok (run_phase r) (run_state r)"
  using assms(1)
proof (induction rule: proper.induct)
  case (proper_start s)
  then have "tls s = Map.empty" "trace_file s = []"
    by (auto simp: tracer_main_def split: if_splits)
  then show ?case
    by (simp add: in_contract_def tracing_ok_def parsed_file_def final_history_def no_history_def)
next
  case (proper_more r c r')
  let ?s = "run_state r"
  from proper_more.hyps(2) obtain s' x where s': "run_call bm c ?s = Inr s'"
      "next_phase c (run_phase r (caller c)) = Some x" "start_ok c ?s"
    and r': "r' = \<lparr>run_state = s', run_phase = (run_phase r)(caller c := x),
       run_log = run_log r @ new_accesses c ?s\<rparr>"
    by (rule run_stepE)
  have "0 \<le> knob_timestamp_difference k" using d by simp
  from reachable_inv [OF proper_reachable [OF proper_more.hyps(1)] this on]
  have t: "threads_ok ?s" and d': "1 \<le> timestamp_difference ?s"
    using d by (simp_all add: config_def)
  then have m: "members ?s" by (simp add: threads_ok_def members_def)
  have c: "contract {} ?s"
    using contract_before [OF _ t s'(1) proper_more.hyps(3)] proper_more.IH by blast
  have "in_contract s'"
    by (rule run_call_contract [OF s'(1) c m d' s'(3) proper_more.hyps(3), of "run_phase r"])
      (use s'(2) proper_more.IH in simp_all)
  moreover have "tracing_ok ((run_phase r)(caller c := x)) s'"
    using run_call_tracing [where ph = "run_phase r", OF s'(1) m d' s'(3,2)] proper_more.IH by blast
  ultimately show ?case by (simp add: r' fun_upd_def)
qed

end
