(* ===== verification/Instruction_Marks.thy ===== *)
theory Instruction_Marks
  imports Proper_Runs
begin

text \<open>
  What happens to the instructions of the traced program, as a list of marks, and when that list is
  in order: instructions that share an address lock do not interleave. Used for the executions of
  \<open>src/trace/trace.cpp\<close> together with the instructions it instruments.
\<close>

section \<open>Marks\<close>

text \<open>
  A mark stands for what happens to one instruction: it accesses memory, or its entry is traced.
  Instructions are numbered within their thread.
\<close>

datatype mark_kind = Performs | Traces

record mark =
  m_thread :: int
  m_instr :: nat
  m_kind :: mark_kind
  m_locks :: "int list"

definition same :: "mark \<Rightarrow> mark \<Rightarrow> bool" where
  "same m m' \<longleftrightarrow> m_thread m = m_thread m' \<and> m_instr m = m_instr m'"

definition share :: "mark \<Rightarrow> mark \<Rightarrow> bool" where
  "share m m' \<longleftrightarrow> set (m_locks m) \<inter> set (m_locks m') \<noteq> {}"

definition key_of :: "mark \<Rightarrow> int \<times> nat \<times> mark_kind" where
  "key_of m = (m_thread m, m_instr m, m_kind m)"

lemma same_refl [simp]: "same m m"
  by (simp add: same_def)

lemma same_sym: "same m m' \<Longrightarrow> same m' m"
  by (simp add: same_def)

lemma share_sym: "share m m' \<Longrightarrow> share m' m"
  by (auto simp: share_def)

text \<open>
  The marks so far, for threads of which \<open>act\<close> are in the middle of the instruction \<open>bg\<close> and hold
  the locks \<open>hl\<close>: between two marks of an instruction there is none of another one that shares a
  lock, and none after the first mark of an instruction that is in the middle.
\<close>

definition marks_ok ::
  "(int \<Rightarrow> bool) \<Rightarrow> (int \<Rightarrow> nat) \<Rightarrow> (int \<Rightarrow> int list) \<Rightarrow> mark list \<Rightarrow> bool" where
  "marks_ok act bg hl ms \<longleftrightarrow>
     (\<forall>m \<in> set ms. m_instr m \<le> bg (m_thread m) \<and>
        (act (m_thread m) \<longrightarrow> m_instr m = bg (m_thread m) \<longrightarrow> m_locks m = hl (m_thread m))) \<and>
     (\<forall>a b. a < b \<longrightarrow> b < length ms \<longrightarrow> act (m_thread (ms ! a)) \<longrightarrow>
        m_instr (ms ! a) = bg (m_thread (ms ! a)) \<longrightarrow> share (ms ! a) (ms ! b) \<longrightarrow>
        same (ms ! a) (ms ! b)) \<and>
     (\<forall>a b c. a < b \<longrightarrow> b < c \<longrightarrow> c < length ms \<longrightarrow> same (ms ! a) (ms ! c) \<longrightarrow>
        share (ms ! a) (ms ! b) \<longrightarrow> same (ms ! a) (ms ! b)) \<and>
     (\<forall>m \<in> set ms. \<forall>m' \<in> set ms. same m m' \<longrightarrow> m_locks m = m_locks m') \<and>
     distinct (map key_of ms)"

lemma marks_okD:
  assumes "marks_ok act bg hl ms"
  shows "m \<in> set ms \<Longrightarrow> m_instr m \<le> bg (m_thread m)"
    "m \<in> set ms \<Longrightarrow> act (m_thread m) \<Longrightarrow> m_instr m = bg (m_thread m) \<Longrightarrow>
     m_locks m = hl (m_thread m)"
    "a < b \<Longrightarrow> b < c \<Longrightarrow> c < length ms \<Longrightarrow> same (ms ! a) (ms ! c) \<Longrightarrow> share (ms ! a) (ms ! b) \<Longrightarrow>
     same (ms ! a) (ms ! b)"
    "m \<in> set ms \<Longrightarrow> m' \<in> set ms \<Longrightarrow> same m m' \<Longrightarrow> m_locks m = m_locks m'"
    "distinct (map key_of ms)"
proof -
  note c = assms [unfolded marks_ok_def]
  note c1 = conjunct1 [OF c] and c2 = conjunct2 [OF c]
  note c3 = conjunct2 [OF c2]
  note c4 = conjunct2 [OF c3]
  show "m \<in> set ms \<Longrightarrow> m_instr m \<le> bg (m_thread m)"
    "m \<in> set ms \<Longrightarrow> act (m_thread m) \<Longrightarrow> m_instr m = bg (m_thread m) \<Longrightarrow>
     m_locks m = hl (m_thread m)"
    using c1 by blast+
  show "a < b \<Longrightarrow> b < c \<Longrightarrow> c < length ms \<Longrightarrow> same (ms ! a) (ms ! c) \<Longrightarrow>
     share (ms ! a) (ms ! b) \<Longrightarrow> same (ms ! a) (ms ! b)"
    using conjunct1 [OF c3] by blast
  show "m \<in> set ms \<Longrightarrow> m' \<in> set ms \<Longrightarrow> same m m' \<Longrightarrow> m_locks m = m_locks m'"
    using conjunct1 [OF c4] by blast
  show "distinct (map key_of ms)" by (rule conjunct2 [OF c4])
qed

lemma marks_ok_Nil [simp]: "marks_ok act bg hl []"
  by (simp add: marks_ok_def)

lemma marks_ok_mono:
  assumes ok: "marks_ok act bg hl ms" and act: "\<And>p. act' p \<Longrightarrow> act p \<and> hl' p = hl p"
  shows "marks_ok act' bg hl' ms"
  using ok act unfolding marks_ok_def by (intro conjI) (meson | metis)+

lemma marks_ok_new:
  assumes ok: "marks_ok act bg hl ms"
    and act: "\<And>q. q \<noteq> p \<Longrightarrow> act' q \<Longrightarrow> act q \<and> hl' q = hl q"
  shows "marks_ok act' (bg(p := bg p + 1)) hl' ms"
proof -
  have le: "m_instr m \<le> bg (m_thread m)" if "m \<in> set ms" for m
    using ok that by (simp add: marks_ok_def)
  have cur: "m_thread m \<noteq> p" if "m \<in> set ms" "m_instr m = (bg(p := bg p + 1)) (m_thread m)" for m
    using le [OF that(1)] that(2) by auto
  have "\<forall>m \<in> set ms. m_instr m \<le> (bg(p := bg p + 1)) (m_thread m) \<and>
      (act' (m_thread m) \<longrightarrow> m_instr m = (bg(p := bg p + 1)) (m_thread m) \<longrightarrow>
       m_locks m = hl' (m_thread m))"
    using ok act cur unfolding marks_ok_def by (fastforce intro: le_SucI)
  moreover have "same (ms ! a) (ms ! b)"
    if "a < b" "b < length ms" "act' (m_thread (ms ! a))"
      "m_instr (ms ! a) = (bg(p := bg p + 1)) (m_thread (ms ! a))" "share (ms ! a) (ms ! b)" for a b
  proof -
    have "ms ! a \<in> set ms" using that by simp
    then have ne: "m_thread (ms ! a) \<noteq> p" using that(4) by (rule cur)
    with that act have "act (m_thread (ms ! a))" "m_instr (ms ! a) = bg (m_thread (ms ! a))" by auto
    with that ok show ?thesis unfolding marks_ok_def by blast
  qed
  ultimately show ?thesis using ok unfolding marks_ok_def by blast
qed

lemma marks_ok_append:
  assumes ok: "marks_ok act bg hl ms"
    and e: "m_locks e = hl (m_thread e)" "m_instr e = bg (m_thread e)" "act (m_thread e)"
      "key_of e \<notin> key_of ` set ms"
    and excl: "\<And>q. act q \<Longrightarrow> q \<noteq> m_thread e \<Longrightarrow> set (hl q) \<inter> set (hl (m_thread e)) = {}"
  shows "marks_ok act bg hl (ms @ [e])"
proof -
  let ?ms = "ms @ [e]"
  have 1: "\<forall>m \<in> set ?ms. m_instr m \<le> bg (m_thread m) \<and>
      (act (m_thread m) \<longrightarrow> m_instr m = bg (m_thread m) \<longrightarrow> m_locks m = hl (m_thread m))"
    using ok e unfolding marks_ok_def by auto
  have 2: "same (?ms ! a) (?ms ! b)"
    if "a < b" "b < length ?ms" "act (m_thread (?ms ! a))" "m_instr (?ms ! a) = bg (m_thread (?ms ! a))"
      "share (?ms ! a) (?ms ! b)" for a b
  proof (cases "b = length ms")
    case True
    with that have a: "?ms ! a = ms ! a" "ms ! a \<in> set ms" "?ms ! b = e" by (simp_all add: nth_append)
    then have "m_locks (ms ! a) = hl (m_thread (ms ! a))" using 1 that(3,4) by auto
    then have "m_thread (ms ! a) = m_thread e"
      using that(3,5) a excl e(1) unfolding share_def by auto
    with that(4) a e(2) show ?thesis by (simp add: same_def)
  next
    case False
    with that show ?thesis using ok by (auto simp: nth_append marks_ok_def)
  qed
  have 3: "same (?ms ! a) (?ms ! b)"
    if "a < b" "b < c" "c < length ?ms" "same (?ms ! a) (?ms ! c)" "share (?ms ! a) (?ms ! b)" for a b c
  proof (cases "c = length ms")
    case True
    with that have "same (ms ! a) e" "?ms ! a = ms ! a" by (simp_all add: nth_append)
    with that True e show ?thesis by (intro 2) (auto simp: same_def)
  next
    case False
    with that show ?thesis using ok unfolding marks_ok_def by (auto simp: nth_append)
  qed
  have 4: "m_locks m = m_locks m'" if "m \<in> set ?ms" "m' \<in> set ?ms" "same m m'" for m m'
  proof -
    have cur: "m_locks n = m_locks e" if "n \<in> set ?ms" "same n e" for n
    proof -
      from 1 that(1) have "act (m_thread n) \<longrightarrow> m_instr n = bg (m_thread n) \<longrightarrow> m_locks n = hl (m_thread n)"
        by blast
      with that(2) e(1-3) show ?thesis by (simp add: same_def)
    qed
    show ?thesis
    proof (cases "m = e \<or> m' = e")
      case True
      with cur [OF that(1)] cur [OF that(2)] that(3) same_sym show ?thesis by metis
    next
      case False
      with that have "m \<in> set ms" "m' \<in> set ms" by auto
      then show ?thesis using that(3) by (rule marks_okD(4) [OF ok])
    qed
  qed
  have 5: "distinct (map key_of ?ms)" using marks_okD(5) [OF ok] e(4) by simp
  show ?thesis unfolding marks_ok_def
    by (intro conjI allI impI ballI) (use 1 in blast, use 1 in blast, erule (4) 2, erule (4) 3,
      erule (2) 4, rule 5)
qed

text \<open>Two instructions that share a lock have their marks of each kind in the same order.\<close>

lemma marks_ordered:
  assumes ok: "marks_ok act bg hl ms"
    and t: "a < b" "b < length ms" and sh: "share (ms ! a) (ms ! b)" "\<not> same (ms ! a) (ms ! b)"
    and p: "x < length ms" "y < length ms" "same (ms ! x) (ms ! a)" "same (ms ! y) (ms ! b)"
    and k: "m_kind (ms ! x) \<noteq> m_kind (ms ! a)" "m_kind (ms ! y) \<noteq> m_kind (ms ! b)"
  shows "x < y"
proof (rule ccontr)
  assume "\<not> x < y"
  have grp: "same (ms ! i) (ms ! j)" if "i < j" "j < n" "n < length ms" "same (ms ! i) (ms ! n)"
    "share (ms ! i) (ms ! j)" for i j n
    using that by (rule marks_okD(3) [OF ok])
  have l: "m_locks (ms ! x) = m_locks (ms ! a)" "m_locks (ms ! y) = m_locks (ms ! b)"
    using t p by (auto intro!: marks_okD(4) [OF ok])
  have xy: "x \<noteq> y" using p sh(2) by (auto simp: same_def)
  have xa: "x \<noteq> a" "y \<noteq> b" "x \<noteq> b" "y \<noteq> a" using k p sh(2) by (auto simp: same_def)
  with xy \<open>\<not> x < y\<close> have "y < x" by simp
  have shared: "share (ms ! i) (ms ! j)" "share (ms ! j) (ms ! i)" if "i \<in> {a, x}" "j \<in> {b, y}" for i j
    using that sh(1) l by (auto simp: share_def)
  show False
  proof (cases "x < b")
    case True
    with \<open>y < x\<close> have "same (ms ! y) (ms ! x)"
      using grp [of y x b] t(2) p(4) shared(2) [of x y] by auto
    with p sh(2) show False by (auto simp: same_def)
  next
    case False
    with xa have "b < x" by simp
    with t(1) have "same (ms ! a) (ms ! b)"
      using grp [of a b x] p(1,3) sh(1) by (auto simp: same_def)
    with sh(2) show False by simp
  qed
qed

end
