(* ===== verification/Executions.thy ===== *)
theory Executions
  imports Instruction_Marks
begin

text \<open>
  The calls that \<open>Instruction\<close> of \<open>src/trace/trace.cpp\<close> inserts stand before the instruction, all but
  the footers of a compare-and-swap, which stand after it; the instruction itself accesses memory at
  some moment after its locks are taken and before the thread's next call that gives them back. An
  execution is a run of the tracer with these moments.
\<close>

section \<open>Executions\<close>

text \<open>The calls that give the locks of the previous instruction back, or end its thread.\<close>

fun gives_back :: "call \<Rightarrow> bool" where
  "gives_back (Read1 p a n) = False"
| "gives_back (Read2 p a) = False"
| "gives_back (Write p a n) = False"
| "gives_back (Acquire p) = False"
| "gives_back (Cas_Footer p f) = False"
| "gives_back (Footer p) = False"
| "gives_back c = True"

definition tracing :: "int \<Rightarrow> 'b tracer \<Rightarrow> bool" where
  "tracing p s = (case tls s p of None \<Rightarrow> False | Some td \<Rightarrow> trace_this_access td)"

definition held :: "'b tracer \<Rightarrow> int \<Rightarrow> int list" where
  "held s p = (case tls s p of None \<Rightarrow> [] | Some td \<Rightarrow> index_lock_list td)"

text \<open>
  \<open>begun\<close> counts the traced instructions of a thread, \<open>pending\<close> says that the last of them has its
  locks but has not accessed memory yet.
\<close>

record 'b execution =
  tool :: "'b run"
  begun :: "int \<Rightarrow> nat"
  pending :: "int \<Rightarrow> bool"
  marks :: "mark list"

definition mark_now :: "'b execution \<Rightarrow> int \<Rightarrow> mark_kind \<Rightarrow> mark" where
  "mark_now x p kind =
     \<lparr>m_thread = p, m_instr = begun x p, m_kind = kind, m_locks = held (run_state (tool x)) p\<rparr>"

fun note_call :: "call \<Rightarrow> 'b execution \<Rightarrow> 'b execution" where
  "note_call (Acquire p) x =
     (if tracing p (run_state (tool x))
      then x\<lparr>begun := (begun x)(p := begun x p + 1), pending := (pending x)(p := True)\<rparr> else x)"
| "note_call (Footer p) x =
     (if tracing p (run_state (tool x))
      then x\<lparr>marks := marks x @ [mark_now x p Traces]\<rparr> else x)"
| "note_call c x = x"

inductive execution_step :: "'b bimap_ops \<Rightarrow> 'b execution \<Rightarrow> 'b execution \<Rightarrow> bool" for bm where
  routine: "run_step bm (tool x) c r \<Longrightarrow> gives_back c \<longrightarrow> \<not> pending x (caller c) \<Longrightarrow>
    execution_step bm x ((note_call c x)\<lparr>tool := r\<rparr>)"
| access: "pending x p \<Longrightarrow>
    execution_step bm x
      (x\<lparr>pending := (pending x)(p := False), marks := marks x @ [mark_now x p Performs]\<rparr>)"

inductive executes :: "'b bimap_ops \<Rightarrow> knobs \<Rightarrow> 'b execution \<Rightarrow> bool" for bm k where
  execution_start: "tracer_main bm k = Inr s \<Longrightarrow>
    executes bm k
      \<lparr>tool = \<lparr>run_state = s, run_phase = (\<lambda>_. Free), run_log = []\<rparr>, begun = (\<lambda>_. 0),
       pending = (\<lambda>_. False), marks = []\<rparr>"
| execution_more: "executes bm k x \<Longrightarrow> execution_step bm x x' \<Longrightarrow> executes bm k x'"

lemma execution_reachable: "executes bm k x \<Longrightarrow> reachable bm k (tool x)"
proof (induction rule: executes.induct)
  case (execution_more x x')
  from execution_more.hyps(2) execution_more.IH show ?case
    by cases (auto intro: reachable.more)
qed (auto intro: reachable.start)

section \<open>The invariant of executions\<close>

text \<open>In the middle of a traced instruction.\<close>

definition locked :: "'b execution \<Rightarrow> int \<Rightarrow> bool" where
  "locked x p \<longleftrightarrow> run_phase (tool x) p = Locked \<and> tracing p (run_state (tool x))"

definition active :: "'b execution \<Rightarrow> int \<Rightarrow> bool" where
  "active x p \<longleftrightarrow> pending x p \<or> locked x p"

definition marked :: "'b execution \<Rightarrow> int \<Rightarrow> nat \<Rightarrow> mark_kind \<Rightarrow> bool" where
  "marked x p n kind \<longleftrightarrow> (p, n, kind) \<in> key_of ` set (marks x)"

definition same_log :: "mark list \<Rightarrow> access list \<Rightarrow> bool" where
  "same_log ms log \<longleftrightarrow>
     map (\<lambda>m. (m_thread m, m_locks m)) (filter (\<lambda>m. m_kind m = Traces) ms) =
     map (\<lambda>a. (acc_thread a, acc_locks a)) log"

definition execution_inv :: "'b execution \<Rightarrow> bool" where
  "execution_inv x \<longleftrightarrow>
     marks_ok (active x) (begun x) (held (run_state (tool x))) (marks x) \<and>
     same_log (marks x) (run_log (tool x)) \<and>
     (\<forall>p. active x p \<longrightarrow> 1 \<le> begun x p) \<and> (\<forall>m \<in> set (marks x). 1 \<le> m_instr m) \<and>
     (\<forall>p. pending x p \<longrightarrow> \<not> marked x p (begun x p) Performs \<and>
        run_phase (tool x) p \<noteq> Headed \<and> tls (run_state (tool x)) p \<noteq> None) \<and>
     (\<forall>p. locked x p \<longrightarrow> \<not> marked x p (begun x p) Traces) \<and>
     (\<forall>p n. 1 \<le> n \<longrightarrow> n \<le> begun x p \<longrightarrow>
        (marked x p n Performs \<or> n = begun x p \<and> pending x p) \<and>
        (marked x p n Traces \<or> n = begun x p \<and> locked x p))"

text \<open>A step without marks, after which no thread is newly in the middle of an instruction.\<close>

lemma execution_inv_quiet:
  assumes inv: "execution_inv x"
    and same: "begun x' = begun x" "pending x' = pending x" "marks x' = marks x"
      "run_log (tool x') = run_log (tool x)"
    and held: "\<And>p. active x p \<Longrightarrow> held (run_state (tool x')) p = held (run_state (tool x)) p"
    and lock: "\<And>p. locked x' p \<longleftrightarrow> locked x p"
    and pend: "\<And>p. pending x p \<Longrightarrow> run_phase (tool x') p \<noteq> Headed \<and> tls (run_state (tool x')) p \<noteq> None"
  shows "execution_inv x'"
proof -
  have act: "active x' p \<longleftrightarrow> active x p" for p using same lock by (simp add: active_def)
  have m: "marks_ok (active x) (begun x) (held (run_state (tool x))) (marks x)"
    using inv by (simp add: execution_inv_def)
  have "marks_ok (active x') (begun x) (held (run_state (tool x'))) (marks x)"
    by (rule marks_ok_mono [OF m]) (use act held in blast)
  moreover have mk: "marked x' = marked x" using same by (simp add: marked_def fun_eq_iff)
  ultimately show ?thesis
    using inv pend act unfolding execution_inv_def same lock mk by blast
qed

lemma others_held:
  assumes o: "others_kept p s s'" and "q \<noteq> p"
  shows "held s' q = held s q" "tracing q s' = tracing q s" "tls s' q = None \<longleftrightarrow> tls s q = None"
proof -
  have e: "map_option core (tls s' q) = map_option core (tls s q)"
    using assms unfolding others_kept_def by blast
  then show "tls s' q = None \<longleftrightarrow> tls s q = None" by (cases "tls s q") auto
  show "held s' q = held s q" "tracing q s' = tracing q s"
    using e core_fields(2,3) [of "the (tls s' q)" "the (tls s q)"]
    by (cases "tls s q"; cases "tls s' q"; simp add: held_def tracing_def)+
qed

text \<open>What the calls inside an instruction do to their own thread.\<close>

lemma acquire_own:
  assumes run: "memory_access_acquire_locks_a p s = Inr s'"
  shows "tracing p s' = tracing p s" "tls s p \<noteq> None" "tls s' p \<noteq> None"
proof -
  from run obtain td where td: "tls s p = Some td"
    by (auto simp: memory_access_acquire_locks_a_def andThen_Inr get_tls_Inr)
  then show "tls s p \<noteq> None" by simp
  have "\<exists>td'. tls s' p = Some td' \<and> trace_this_access td' = trace_this_access td"
    using run td
    by (auto simp: memory_access_acquire_locks_a_def acquire_address_locks_def andThen_Inr Let_def
        dest!: lock_all_result split: if_splits)
  with td show "tracing p s' = tracing p s" "tls s' p \<noteq> None" by (auto simp: tracing_def)
qed

lemma cas_footer_own:
  assumes "memory_access_CAS_footer_a p f s = Inr s'"
  shows "tracing p s' = tracing p s" "held s' p = held s p" "tls s' p \<noteq> None"
  using assms
  by (auto simp: memory_access_CAS_footer_a_def andThen_Inr get_tls_Inr Let_def tracing_def held_def
      split: if_splits)

lemma footer_own:
  assumes run: "memory_access_footer_a bm p s = Inr s'" and d: "1 \<le> timestamp_difference s"
  shows "held s' p = held s p" "tls s' p \<noteq> None" "\<not> tracing p s \<Longrightarrow> s' = s"
proof -
  from run obtain td where td: "tls s p = Some td"
    by (auto simp: memory_access_footer_a_def andThen_Inr get_tls_Inr)
  have "held s' p = held s p \<and> tls s' p \<noteq> None"
  proof (cases "trace_this_access td")
    case True
    let ?td = "td\<lparr>trace_stream := trace_stream td @
        [(access_time td, user_threadid td, access_event td)]\<rparr>"
    from run td True have t: "touch_buffer bm p (access_time td) False (set_tls p ?td s) = Inr s'"
      by (simp add: memory_access_footer_a_def Let_def)
    have "kept (set_tls p ?td s) s'"
      by (rule touch_buffer_kept(1) [OF t, of ?td])
        (use d in \<open>simp_all add: access_time_def, simp add: set_tls_def\<close>)
    moreover have "tls (set_tls p ?td s) p = Some ?td" by simp
    ultimately obtain td' where "tls s' p = Some td'" "core td' = core ?td" by (rule kept_tls)
    with td core_fields(2) [of td' ?td] show ?thesis by (simp add: held_def)
  next
    case False
    with run td show ?thesis by (simp add: memory_access_footer_a_def)
  qed
  then show "held s' p = held s p" "tls s' p \<noteq> None" by simp_all
  show "s' = s" if "\<not> tracing p s"
    using that run td by (simp add: memory_access_footer_a_def tracing_def)
qed

section \<open>Every step keeps the invariant\<close>

text \<open>No two threads hold a lock together.\<close>

lemma held_exclusive:
  assumes "holds_ok nl (address_lock_bank s) (tls s)" and "q \<noteq> p"
  shows "set (held s q) \<inter> set (held s p) = {}"
proof (rule ccontr)
  assume "set (held s q) \<inter> set (held s p) \<noteq> {}"
  then obtain i where "i \<in> set (held s q)" "i \<in> set (held s p)" by blast
  then obtain td td' where t: "tls s q = Some td" "i \<in> set (index_lock_list td)"
    "tls s p = Some td'" "i \<in> set (index_lock_list td')"
    by (cases "tls s q"; cases "tls s p") (auto simp: held_def)
  with assms(1) have "lock_owner (address_lock_bank s i) = Some q"
    "lock_owner (address_lock_bank s i) = Some p" unfolding holds_ok_def by blast+
  with assms(2) show False by simp
qed

definition run_ok :: "'b run \<Rightarrow> bool" where
  "run_ok r \<longleftrightarrow>
     1 \<le> timestamp_difference (run_state r) \<and> members (run_state r) \<and>
     holds_ok (num_locks (run_state r)) (address_lock_bank (run_state r)) (tls (run_state r))"

lemma reachable_run_ok:
  assumes "reachable bm k r" "1 \<le> knob_timestamp_difference k" "\<not> knob_turn_off k"
  shows "run_ok r"
proof -
  have "0 \<le> knob_timestamp_difference k" using assms(2) by simp
  note i = reachable_inv [OF assms(1) this assms(3)]
  then have "holds_ok (num_locks (run_state r)) (address_lock_bank (run_state r)) (tls (run_state r))"
    by (simp only: atom_inv_def)
  with i assms(2) show ?thesis
    by (simp add: run_ok_def config_def threads_ok_def members_def)
qed

lemma access_keeps:
  assumes inv: "execution_inv x" and p: "pending x p" and r: "run_ok (tool x)"
  shows "execution_inv (x\<lparr>pending := (pending x)(p := False), marks := marks x @ [mark_now x p Performs]\<rparr>)"
    (is "execution_inv ?x")
proof -
  let ?s = "run_state (tool x)" and ?e = "mark_now x p Performs"
  have key: "key_of ?e = (p, begun x p, Performs)" by (simp add: key_of_def mark_now_def)
  have "marks_ok (active x) (begun x) (held ?s) (marks x @ [?e])"
  proof (rule marks_ok_append)
    show "marks_ok (active x) (begun x) (held ?s) (marks x)" using inv by (simp add: execution_inv_def)
    show "key_of ?e \<notin> key_of ` set (marks x)"
      using inv p unfolding key by (simp add: execution_inv_def marked_def)
    show "set (held ?s q) \<inter> set (held ?s (m_thread ?e)) = {}" if "q \<noteq> m_thread ?e" for q
      using r that unfolding run_ok_def by (intro held_exclusive) blast+
  qed (use p in \<open>simp_all add: mark_now_def active_def\<close>)
  then have "marks_ok (active ?x) (begun x) (held ?s) (marks x @ [?e])"
    by (rule marks_ok_mono) (auto simp: active_def locked_def split: if_splits)
  moreover have "marked ?x q n kind \<longleftrightarrow> marked x q n kind \<or> (q, n, kind) = (p, begun x p, Performs)" for q n kind
    by (auto simp: marked_def key)
  moreover have "1 \<le> begun x p" "\<And>q. active ?x q \<Longrightarrow> 1 \<le> begun x q"
    using inv p by (auto simp: execution_inv_def active_def locked_def split: if_splits)
  ultimately show ?thesis
    using inv by (auto simp: execution_inv_def same_log_def mark_now_def locked_def)
qed

lemma new_accesses_not_tracing: "\<not> (\<exists>p. c = Footer p \<and> tracing p s) \<Longrightarrow> new_accesses c s = []"
  by (cases c) (auto simp: tracing_def split: option.splits)

lemma new_accesses_tracing:
  assumes "tracing p s"
  obtains a where "new_accesses (Footer p) s = [a]" "acc_thread a = p" "acc_locks a = held s p"
  using assms by (cases "tls s p") (auto simp: tracing_def held_def)

lemma begin_keeps:
  assumes inv: "execution_inv x" and o: "others_kept p (run_state (tool x)) s'"
    and p: "run_phase (tool x) p = Headed" "tracing p s'" "tls s' p \<noteq> None"
    and x': "begun x' = (begun x)(p := begun x p + 1)" "pending x' = (pending x)(p := True)"
      "marks x' = marks x" "run_log (tool x') = run_log (tool x)" "run_state (tool x') = s'"
      "run_phase (tool x') = (run_phase (tool x))(p := Locked)"
  shows "execution_inv x'"
proof -
  let ?s = "run_state (tool x)"
  note oth = others_held [OF o]
  have np: "\<not> pending x p" "\<not> locked x p"
    using inv p(1) unfolding execution_inv_def locked_def by auto
  have lock: "locked x' q \<longleftrightarrow> q = p \<or> locked x q" for q
    using oth(2) [of q] p(2) np by (auto simp: locked_def x')
  have mk: "marked x' = marked x" by (simp add: marked_def x' fun_eq_iff)
  have m: "marks_ok (active x) (begun x) (held ?s) (marks x)"
    using inv by (simp add: execution_inv_def)
  have "marks_ok (active x') ((begun x)(p := begun x p + 1)) (held s') (marks x)"
    by (rule marks_ok_new [OF m]) (use oth(1) lock in \<open>auto simp: active_def x'\<close>)
  moreover have new: "\<not> marked x p (begun x p + 1) kind" for kind
    using marks_okD(1) [OF m] by (fastforce simp: marked_def key_of_def)
  moreover have "(marked x q n Performs \<or> n = begun x' q \<and> pending x' q) \<and>
      (marked x q n Traces \<or> n = begun x' q \<and> locked x' q)" if "1 \<le> n" "n \<le> begun x' q" for q n
  proof (cases "q = p \<and> n = begun x p + 1")
    case True
    then show ?thesis by (simp add: x' lock)
  next
    case False
    with that have "n \<le> begun x q" by (auto simp: x' split: if_splits)
    with that(1) inv have "(marked x q n Performs \<or> n = begun x q \<and> pending x q) \<and>
      (marked x q n Traces \<or> n = begun x q \<and> locked x q)" by (simp add: execution_inv_def)
    with np show ?thesis by (auto simp: x' lock)
  qed
  moreover have "tls s' q \<noteq> None" if "pending x q" for q
    using inv that oth(3) [of q] p(3) by (cases "q = p") (auto simp: execution_inv_def)
  moreover have "1 \<le> begun x' q" if "active x' q" for q
    using inv that by (auto simp: execution_inv_def active_def lock x' split: if_splits)
  ultimately show ?thesis
    using inv lock p(3) unfolding execution_inv_def x' mk
    by (auto simp: new split: if_splits)
qed

lemma trace_keeps:
  assumes inv: "execution_inv x" and o: "others_kept p (run_state (tool x)) s'"
    and p: "locked x p" "held s' p = held (run_state (tool x)) p" "tls s' p \<noteq> None"
    and r: "run_ok (tool x)"
    and x': "begun x' = begun x" "pending x' = pending x"
      "marks x' = marks x @ [mark_now x p Traces]" "run_log (tool x') = run_log (tool x) @ [a]"
      "run_state (tool x') = s'" "run_phase (tool x') = (run_phase (tool x))(p := Free)"
    and a: "acc_thread a = p" "acc_locks a = held (run_state (tool x)) p"
  shows "execution_inv x'"
proof -
  let ?s = "run_state (tool x)" and ?e = "mark_now x p Traces"
  note oth = others_held [OF o]
  have key: "key_of ?e = (p, begun x p, Traces)" by (simp add: key_of_def mark_now_def)
  have lock: "locked x' q \<longleftrightarrow> q \<noteq> p \<and> locked x q" for q
    using oth(2) [of q] by (auto simp: locked_def x')
  have m: "marks_ok (active x) (begun x) (held ?s) (marks x @ [?e])"
  proof (rule marks_ok_append)
    show "marks_ok (active x) (begun x) (held ?s) (marks x)" using inv by (simp add: execution_inv_def)
    show "key_of ?e \<notin> key_of ` set (marks x)"
      using inv p(1) unfolding key by (simp add: execution_inv_def marked_def)
    show "set (held ?s q) \<inter> set (held ?s (m_thread ?e)) = {}" if "q \<noteq> m_thread ?e" for q
      using r that unfolding run_ok_def by (intro held_exclusive) blast+
  qed (use p(1) in \<open>simp_all add: mark_now_def active_def\<close>)
  have h: "held s' q = held ?s q" for q
    using oth(1) [of q] p(2) by (cases "q = p") simp_all
  have "marks_ok (active x') (begun x) (held s') (marks x @ [?e])"
    by (rule marks_ok_mono [OF m]) (use lock h in \<open>auto simp: active_def x'\<close>)
  moreover have mk: "marked x' q n kind \<longleftrightarrow> marked x q n kind \<or> (q, n, kind) = (p, begun x p, Traces)"
    for q n kind
    by (auto simp: marked_def key x')
  moreover have "same_log (marks x') (run_log (tool x'))"
    using inv a by (simp add: execution_inv_def same_log_def x' mark_now_def)
  moreover have "tls s' q \<noteq> None" if "pending x q" for q
    using inv that oth(3) [of q] p(3) by (cases "q = p") (auto simp: execution_inv_def)
  moreover have "1 \<le> begun x p" "\<And>q. active x' q \<Longrightarrow> 1 \<le> begun x q"
    using inv p(1) by (auto simp: execution_inv_def active_def lock x')
  moreover have "m_instr ?e = begun x p" by (simp add: mark_now_def)
  ultimately show ?thesis
    using inv lock unfolding execution_inv_def x' by (auto split: if_splits)
qed

lemma plain_keeps:
  assumes inv: "execution_inv x" and o: "others_kept p (run_state (tool x)) s'"
    and own: "active x p \<Longrightarrow> held s' p = held (run_state (tool x)) p \<and> tls s' p \<noteq> None \<and> ph \<noteq> Headed"
      "ph = Locked \<and> tracing p s' \<longleftrightarrow> locked x p"
    and x': "x' = x\<lparr>tool := \<lparr>run_state = s', run_phase = (run_phase (tool x))(p := ph),
      run_log = run_log (tool x)\<rparr>\<rparr>"
  shows "execution_inv x'"
proof (rule execution_inv_quiet [OF inv])
  note oth = others_held [OF o]
  show "held (run_state (tool x')) q = held (run_state (tool x)) q" if "active x q" for q
    using that own(1) oth(1) [of q] by (cases "q = p") (simp_all add: x')
  show "locked x' q \<longleftrightarrow> locked x q" for q
    using own(2) oth(2) [of q] by (cases "q = p") (simp_all add: x' locked_def)
  show "run_phase (tool x') q \<noteq> Headed \<and> tls (run_state (tool x')) q \<noteq> None" if "pending x q" for q
    using that own(1) oth(3) [of q] inv
    by (cases "q = p") (simp_all add: x' execution_inv_def active_def)
qed (simp_all add: x')

lemma routine_keeps:
  assumes inv: "execution_inv x" and r: "run_ok (tool x)" and on: "\<not> turn_off_locks (run_state (tool x))"
    and step: "run_step bm (tool x) c r'" and gb: "gives_back c \<longrightarrow> \<not> pending x (caller c)"
  shows "execution_inv ((note_call c x)\<lparr>tool := r'\<rparr>)"
proof -
  let ?s = "run_state (tool x)" and ?p = "caller c"
  from step obtain s' ph where run: "run_call bm c ?s = Inr s'"
      and ph: "next_phase c (run_phase (tool x) ?p) = Some ph" and st: "start_ok c ?s"
    and r': "r' = \<lparr>run_state = s', run_phase = (run_phase (tool x))(?p := ph),
       run_log = run_log (tool x) @ new_accesses c ?s\<rparr>"
    by (rule run_stepE)
  have o: "others_kept ?p ?s s'"
    using run_call_others [OF run] r st by (simp add: run_ok_def)
  have hd: "\<not> active x ?p" if "run_phase (tool x) ?p = Headed"
    using inv that by (auto simp: execution_inv_def active_def locked_def)
  have idle: "execution_inv (x\<lparr>tool := r'\<rparr>)"
    if "\<not> active x ?p" "\<not> (ph = Locked \<and> tracing ?p s')" "new_accesses c ?s = []"
    by (rule plain_keeps [OF inv o, where ph = ph]) (use that r' in \<open>simp_all add: active_def\<close>)
  show ?thesis
  proof (cases c)
    case (Acquire p)
    with run have a: "memory_access_acquire_locks_a p ?s = Inr s'" by simp
    note own = acquire_own [OF a]
    from Acquire ph have h: "run_phase (tool x) p = Headed" "ph = Locked" by (auto split: if_splits)
    show ?thesis
    proof (cases "tracing p ?s")
      case True
      then show ?thesis
        by (intro begin_keeps [OF inv, of p s'])
          (use o own h Acquire r' in simp_all)
    next
      case False
      with idle hd own h Acquire show ?thesis by simp
    qed
  next
    case (Cas_Footer p f)
    with run have a: "memory_access_CAS_footer_a p f ?s = Inr s'" by simp
    note own = cas_footer_own [OF a]
    from Cas_Footer ph have h: "run_phase (tool x) p = Locked" "ph = Locked" by (auto split: if_splits)
    have "execution_inv (x\<lparr>tool := r'\<rparr>)"
      by (rule plain_keeps [OF inv, of p s' ph])
        (use o own h Cas_Footer r' in \<open>simp_all add: locked_def\<close>)
    with Cas_Footer show ?thesis by simp
  next
    case (Footer p)
    with run have a: "memory_access_footer_a bm p ?s = Inr s'" by simp
    have d: "1 \<le> timestamp_difference ?s" using r by (simp add: run_ok_def)
    note own = footer_own [OF a d]
    from Footer ph have h: "run_phase (tool x) p = Locked" "ph = Free" by (auto split: if_splits)
    show ?thesis
    proof (cases "tracing p ?s")
      case True
      then obtain e where e: "new_accesses (Footer p) ?s = [e]" "acc_thread e = p" "acc_locks e = held ?s p"
        by (rule new_accesses_tracing)
      show ?thesis
        by (rule trace_keeps [OF inv, of p s' _ e])
          (use o own h Footer r' True e r in \<open>simp_all add: locked_def\<close>)
    next
      case False
      have "execution_inv (x\<lparr>tool := r'\<rparr>)"
        by (rule plain_keeps [OF inv, of p s' ph])
          (use o own h Footer r' False new_accesses_not_tracing [of c ?s] in \<open>simp_all add: locked_def\<close>)
      with Footer False show ?thesis by simp
    qed
  qed (use idle hd gb ph new_accesses_not_tracing [of c ?s] in
    \<open>auto simp: active_def locked_def split: if_splits\<close>)
qed

lemma executes_inv:
  assumes "executes bm k x" and d: "1 \<le> knob_timestamp_difference k" and on: "\<not> knob_turn_off k"
  shows "execution_inv x"
  using assms(1)
proof (induction rule: executes.induct)
  case (execution_start s)
  then show ?case by (simp add: execution_inv_def same_log_def locked_def active_def)
next
  case (execution_more x x')
  note re = execution_reachable [OF execution_more.hyps(1)]
  note ok = reachable_run_ok [OF re d on]
  have "0 \<le> knob_timestamp_difference k" using d by simp
  from reachable_inv [OF re this on] on have "\<not> turn_off_locks (run_state (tool x))"
    by (simp add: config_def)
  with execution_more.hyps(2) execution_more.IH ok show ?case
    by cases (auto intro: routine_keeps access_keeps)
qed

end
