(* ===== verification/Tracer_Examples.thy ===== *)
theory Tracer_Examples
  imports Atomicity
begin

text \<open>
  Concrete runs of the tracer, evaluated by the simplifier with the equations of the routines.
\<close>

lemma default_arithmetic:
  "is_power_2 64" "binary_log 64 = 6" "access_indices 64 6 4096 8 = [0]"
  "access_indices 64 6 4100 8 = [0]" "access_indices 64 6 8192 8 = [0]"
  by code_simp+

lemmas tracer_eval =
  tracer_main_def default_knobs_def alist_bimap_def do_call_def Let_def default_arithmetic
  blank_thread_def new_thread_data_def set_tls_def get_tls_def write_file_def
  List.insort_insert_key_def acquire_all_thread_locks_def release_all_thread_locks_def
  touch_buffer_def check_last_flushed_def lagging_def release_address_locks_def
  unlock_address_def lock_address_def acquire_address_locks_def needed_indices_def
  sort_unique_def memory_access_header_a_def memory_access_read1_a_def
  memory_access_read2_a_def memory_access_write_a_def memory_access_acquire_locks_a_def
  memory_access_CAS_footer_a_def memory_access_footer_a_def memory_access_release_a_def
  access_event_def access_time_def trace_synchronised_def trace_function_def
  function_call_a_def function_return_a_def change_roi_a_def register_thread_a_def
  thread_start_a_def thread_fini_a_def ctxt_change_release_def fini_a_def

text \<open>The calls of an instruction that writes 8 bytes, and of a compare-and-swap of 8 bytes.\<close>

definition write_calls :: "int \<Rightarrow> u64 \<Rightarrow> call list" where
  "write_calls p a = [Header p, Write p a 8, Acquire p, Footer p]"

definition cas_calls :: "int \<Rightarrow> u64 \<Rightarrow> call list" where
  "cas_calls p a = [Header p, Read1 p a 8, Write p a 8, Acquire p]"

text \<open>Two threads that write overlapping words.\<close>

definition two_writers :: "call list" where
  "two_writers =
     [Start blank_thread 0 0, Start blank_thread 1 1] @ write_calls 0 4096 @ [Header 0] @
     write_calls 1 4100"

lemma two_writers_run:
  "\<exists>r. do_run alist_bimap default_knobs two_writers = Some r \<and>
     run_log r =
       [\<lparr>acc_time = 3, acc_thread = 0, acc_user = 0, acc_event = Memory None None (Some (4096, 8)),
         acc_locks = [0]\<rparr>,
        \<lparr>acc_time = 4, acc_thread = 1, acc_user = 1, acc_event = Memory None None (Some (4100, 8)),
         acc_locks = [0]\<rparr>]"
  by (simp add: do_run_def two_writers_def write_calls_def tracer_eval)

text \<open>A sequence of calls, with no rule on their order.\<close>

fun run_calls :: "'b bimap_ops \<Rightarrow> call list \<Rightarrow> 'b tracer \<Rightarrow> 'b tracer result" where
  "run_calls bm [] s = Inr s"
| "run_calls bm (c # cs) s = andThen (run_call bm c s) (run_calls bm cs)"

definition started :: "knobs \<Rightarrow> call list \<Rightarrow> (int \<times> int) list tracer result" where
  "started k cs = andThen (tracer_main alist_bimap k) (run_calls alist_bimap cs)"

text \<open>
  A compare-and-swap that faults after its locks were taken: Pin reports a context change, and
  the calls after the instruction do not come.
\<close>

definition faulting_cas :: "call list" where
  "faulting_cas =
     [Start blank_thread 0 0, Start blank_thread 1 1] @ write_calls 0 4096 @ write_calls 0 4096 @
     write_calls 0 4096 @ [Header 0] @ cas_calls 1 4096 @ [Ctxt_Change 1] @ write_calls 1 4096"

lemma faulting_cas_run:
  "\<exists>s td0 td1. started default_knobs faulting_cas = Inr s \<and> tls s 0 = Some td0 \<and> tls s 1 = Some td1 \<and>
     trace_stream td0 =
       [(3, 0, Memory None None (Some (4096, 8))), (4, 0, Memory None None (Some (4096, 8))),
        (5, 0, Memory None None (Some (4096, 8)))] \<and>
     trace_stream td1 = [(3, 1, Context_Change), (4, 1, Memory None None (Some (4096, 8)))]"
  by (simp add: started_def faulting_cas_def write_calls_def cas_calls_def tracer_eval)

end
