(* ===== verification/Merge_Properties.thy ===== *)
theory Merge_Properties
  imports Merge_Correct Trace_Event
begin

text \<open>
  What the merge program and its parts promise, beyond the sorted output of the whole: it streams,
  it writes a line as soon as no thread can produce an earlier one, and what it does on inputs
  that break the contract of the trace file.
\<close>

section \<open>The running program\<close>

context heap_choice
begin

lemma read_from_start:
  assumes "readable ls ps" "accepted no_history ps"
  obtains s where "read_lines pick initial_capacity keep (lines_text ls) new_merge_state = Inr s"
    "merge_inv (final_history ps) s" "handled s = kept_lines keep ps ls"
proof -
  have "handled new_merge_state = {#}"
    by (simp add: handled_def waiting_def new_merge_state_def)
  with read_lines_ok [OF new_merge_inv readableD(2) [OF assms(1)] assms(2) _ readableD(1) [OF assms(1)],
      of initial_capacity keep] that
  show thesis by (auto simp: initial_capacity_def final_history_def new_merge_state_def)
qed

lemma read_one_more:
  assumes "\<forall>x \<in> set (ls @ [l]). length x \<le> 127 \<and> NL \<notin> set x \<and> NUL \<notin> set x"
    and "read_lines pick cap keep (lines_text ls) s = Inr s1"
  shows "read_lines pick cap keep (lines_text (ls @ [l])) s = process_line pick cap keep l s1"
proof -
  have "getline 128 (lines_text [l]) = Some (l, [])"
    using assms(1) getline_line [of l 128 "[]"] by (simp add: lines_text_def)
  moreover have "c_string l = l"
    using assms(1) by (auto simp: c_string_def takeWhile_eq_all_conv)
  moreover have "read_lines pick cap keep [] t = Inr t" for t
    by (simp add: read_lines.simps getline_eof)
  ultimately have "read_lines pick cap keep (lines_text [l]) s1 = process_line pick cap keep l s1"
    by (simp add: read_lines.simps [of pick cap keep "lines_text [l]"] split: sum.split)
  with assms read_lines_append [of ls pick cap keep "lines_text [l]" s] show ?thesis
    by (simp add: lines_text_append)
qed

lemma capacity_enough: "43 \<le> initial_capacity"
  by (simp add: initial_capacity_def)

text \<open>
  The queue of the unregistered threads (ids below 0) stays when it runs empty: the same line again
  is stale.
\<close>

lemma alone_written:
  assumes q: "tq_inv q" "tq_entries q = [(t, ln)]" "\<not> is_finished q" "length ln \<le> extent (merge_buf s)"
    and s: "time_threadid_min s = [(t, i)]" "map_of (thread_queue_map s) i = Some q"
      "\<not> 0 < active_threads s"
  obtains s' q' where "merge pick s = Inr s'" "map_of (thread_queue_map s') i = Some q'"
    "max_timestamp q' = max_timestamp q" "extent (merge_buf s') = extent (merge_buf s)"
proof -
  obtain a' q' where d: "dequeue q (merge_buf s) = Inr (Some (t, length ln, a'), q')"
    "extent a' = extent (merge_buf s)" "array_text a' (length ln) = Some ln" "tq_inv q'"
    "tq_entries q' = []" "max_timestamp q' = max_timestamp q" "is_finished q' = is_finished q"
    using tq.deq_law [OF q(1,2,4)] by blast
  have pk: "peek q' = -1" using tq.head_empty [OF d(4)] d(5) by simp
  have pick: "pick [(t, i)] = (t, i)" using pick_mem [of "[(t, i)]"] by simp
  have "\<exists>s'. merge_entry (t, i) s = Inr s' \<and> time_threadid_min s' = [] \<and>
      map_of (thread_queue_map s') i = Some q' \<and> merge_buf s' = a'"
    using s d pk q(3) by (simp add: merge_entry_def update_conv)
  then obtain s' where "merge_entry (t, i) s = Inr s'" "time_threadid_min s' = []"
    "map_of (thread_queue_map s') i = Some q'" "merge_buf s' = a'" by blast
  moreover from this have "merge pick s = Inr s'"
    using s pick by (simp add: merge.simps [of pick s])
  ultimately show thesis using that d by simp
qed

lemma repeated_unregistered:
  assumes parse: "parse_line l = Inr p" and p: "line_thread p < 0" "\<not> is_thread_register p"
      "\<not> is_thread_finish p" "0 < line_time p"
    and l: "length l \<le> 127 \<and> NL \<notin> set l \<and> NUL \<notin> set l"
  shows "read_lines pick initial_capacity keep (lines_text [l, l]) new_merge_state =
    Inl (Assertion ''timestamp > _max_timestamp'')"
proof -
  let ?ln = "kept_text keep p l" and ?i = "line_thread p" and ?t = "line_time p"
  have len: "length ?ln \<le> 127" using l by (auto simp: kept_text_def)
  have nt: "note_thread p s = Inr s" for s using p by (simp add: note_thread_def)
  have sk: "\<not> skipped p" using p by (simp add: skipped_def)
  have "0 < initial_capacity" "127 \<le> 3 * initial_capacity" by (simp_all add: initial_capacity_def)
  moreover have "max_timestamp (new_thread_queue c) = 0" "\<not> thread_finished (new_thread_queue c)"
      "buffer_capacity (new_thread_queue c) = c" for c
    by (simp_all add: new_thread_queue_def)
  ultimately obtain q where
    q: "enqueue (new_thread_queue initial_capacity) ?t ?ln = Inr (True, q)" "tq_inv q"
    "tq_entries q = [(?t, ?ln)]" "max_timestamp q = ?t" "\<not> thread_finished q"
    using tq.enq_law [of "new_thread_queue initial_capacity" ?t ?ln] p(4) len tq_inv_new
    by (auto simp: tq_entries_new tq_room_def is_finished_def)
  let ?s = "new_merge_state\<lparr>line_count := 1, thread_queue_map := [(?i, q)],
    time_threadid_min := [(?t, ?i)]\<rparr>"
  have "enqueue_line initial_capacity p ?ln (new_merge_state\<lparr>line_count := 1\<rparr>) = Inr ?s"
    using q p by (simp add: enqueue_line_def new_merge_state_def)
  then have p1: "process_line pick initial_capacity keep l new_merge_state = merge pick ?s"
    using parse nt sk by (simp add: process_line_def) (simp add: new_merge_state_def)
  obtain s' q' where s': "merge pick ?s = Inr s'" "map_of (thread_queue_map s') ?i = Some q'"
    "max_timestamp q' = ?t"
    by (rule alone_written [OF q(2,3), of ?s ?i])
      (use q len in \<open>simp_all add: is_finished_def new_merge_state_def\<close>)
  have "process_line pick initial_capacity keep l s' = Inl (Assertion ''timestamp > _max_timestamp'')"
    using parse nt sk s' enqueue_stale [of ?t q' ?ln]
    by (simp add: process_line_def enqueue_line_def)
  moreover have "read_lines pick initial_capacity keep (lines_text ([] @ [l])) new_merge_state = Inr s'"
    using read_one_more [of "[]" l initial_capacity keep new_merge_state new_merge_state] l p1 s'(1)
    by (simp add: lines_text_def read_lines.simps [of _ _ _ "[]"] getline_eof)
  ultimately show ?thesis
    using read_one_more [of "[l]" l initial_capacity keep new_merge_state s'] l by simp
qed

text \<open>What is not yet written waits for a running thread that is not past it.\<close>

lemma settled_waits:
  assumes "merge_inv h s" "settled s" "e \<in># waiting s"
  shows "\<exists>i u. live h i = Some u \<and> u < fst e"
proof -
  from assms have a: "0 < active_threads s" "timestamp (safe_times s) < fst e"
    unfolding settled_def by blast+
  from assms(1) a(1) have "dom (live h) \<noteq> {}" by (auto simp: merge_inv_def)
  then obtain i t where "live h i = Some t" by blast
  with assms(1) have "st_inv (safe_times s)" "st_last (safe_times s) i = Some t"
    "st_last (safe_times s) = live h" by (simp_all add: merge_inv_def)
  from wm.mark_attained [OF this(1,2)] this(3) a(2) show ?thesis by auto
qed

lemma timely:
  assumes r: "readable (ls @ [l]) (ps @ [p])" and a: "accepted no_history (ps @ [p])"
    and k: "\<not> skipped p"
  shows "\<exists>s. read_lines pick initial_capacity keep (lines_text (ls @ [l])) new_merge_state = Inr s \<and>
    sorted (map fst (written s)) \<and>
    (\<forall>e. e \<in># kept_lines keep (ps @ [p]) (ls @ [l]) \<longrightarrow>
       e \<in> set (written s) \<or> (\<exists>i u. live (final_history (ps @ [p])) i = Some u \<and> u < fst e))"
proof -
  have r1: "readable ls ps" "parse_line l = Inr p" "length l \<le> 127"
    using r by (auto simp: readable_def list_all2_append1 list_all2_Cons1 list_all2_lengthD
        dest: list_all2_lengthD)
  have a1: "accepted no_history ps" "line_ok (final_history ps) p"
    using a by (simp_all add: accepted_append final_history_def)
  obtain s1 where s1: "read_lines pick initial_capacity keep (lines_text ls) new_merge_state = Inr s1"
    "merge_inv (final_history ps) s1" "handled s1 = kept_lines keep ps ls"
    by (rule read_from_start [OF r1(1) a1(1)])
  obtain s where s: "process_line pick initial_capacity keep l s1 = Inr s"
    "merge_inv (advance (final_history ps) p) s" "handled s = handled s1 + kept_line keep p l"
    "skipped p \<or> settled s"
    by (rule process_line_ok [OF s1(2) r1(2) a1(2) capacity_enough r1(3)])
  have h: "advance (final_history ps) p = final_history (ps @ [p])"
    by (simp add: final_history_def)
  have len: "length ps = length ls" using r1(1) by (auto simp: readable_def dest: list_all2_lengthD)
  have all: "handled s = kept_lines keep (ps @ [p]) (ls @ [l])"
    using s(3) s1(3) by (simp add: kept_lines_append [OF len])
  have "e \<in> set (written s) \<or> (\<exists>i u. live (final_history (ps @ [p])) i = Some u \<and> u < fst e)"
    if "e \<in># kept_lines keep (ps @ [p]) (ls @ [l])" for e
  proof -
    from that have "e \<in> set (written s) \<or> e \<in># waiting s"
      unfolding all [symmetric] handled_def by simp
    with settled_waits [OF s(2), of e] s(4) k h show ?thesis by auto
  qed
  moreover have "sorted (map fst (written s))" using s(2) by (simp add: merge_inv_def written_ok_def)
  moreover have "read_lines pick initial_capacity keep (lines_text (ls @ [l])) new_merge_state = Inr s"
    using read_one_more [OF readableD(1) [OF r] s1(1)] s(1) by simp
  ultimately show ?thesis by blast
qed

lemma streams:
  assumes r: "readable (ls @ ls') (ps @ ps')" "length ls = length ps"
    and a: "accepted no_history (ps @ ps')"
  shows "\<exists>s s'. read_lines pick initial_capacity keep (lines_text ls) new_merge_state = Inr s \<and>
    read_lines pick initial_capacity keep (lines_text (ls @ ls')) new_merge_state = Inr s' \<and>
    prefix (written s) (written s')"
proof -
  have r1: "readable ls ps" "list_all2 (\<lambda>l p. parse_line l = Inr p) ls' ps'"
    "\<forall>l \<in> set ls'. length l \<le> 127 \<and> NL \<notin> set l \<and> NUL \<notin> set l"
    using r by (simp_all add: readable_def list_all2_append)
  have a1: "accepted no_history ps" "accepted (final_history ps) ps'"
    using a by (simp_all add: accepted_append final_history_def)
  have *: "\<exists>s. read_lines pick initial_capacity keep (lines_text ls) new_merge_state = Inr s \<and>
      merge_inv (final_history ps) s \<and>
      (live (final_history ps) = Map.empty \<longrightarrow> time_threadid_min s = [])"
    using read_lines_ok [OF new_merge_inv readableD(2) [OF r1(1)] a1(1) _ readableD(1) [OF r1(1)],
        of initial_capacity keep]
    by (auto simp: initial_capacity_def final_history_def new_merge_state_def)
  then obtain s where s: "read_lines pick initial_capacity keep (lines_text ls) new_merge_state = Inr s"
    "merge_inv (final_history ps) s" "live (final_history ps) = Map.empty \<Longrightarrow> time_threadid_min s = []"
    by blast
  from read_lines_ok [OF s(2) r1(2) a1(2) _ r1(3) s(3), of initial_capacity keep]
  obtain s' where "read_lines pick initial_capacity keep (lines_text ls') s = Inr s'"
    "prefix (written s) (written s')"
    by (auto simp: initial_capacity_def)
  moreover have "read_lines pick initial_capacity keep (lines_text (ls @ ls')) new_merge_state =
      read_lines pick initial_capacity keep (lines_text ls') s"
    using read_lines_append [of ls pick initial_capacity keep "lines_text ls'" new_merge_state]
      readableD(1) [OF r1(1)] s(1) by (simp add: lines_text_append)
  ultimately show ?thesis using s(1) by auto
qed

end

section \<open>Examples\<close>

lemma sample_prefix:
  "readable (take n sample_lines) (take n sample_parsed)"
  "accepted no_history (take n sample_parsed)"
proof -
  show "readable (take n sample_lines) (take n sample_parsed)"
    using sample_readable by (auto simp: readable_def list_all2_takeI dest: in_set_takeD)
  show "accepted no_history (take n sample_parsed)"
    using sample_accepted accepted_append [of no_history "take n sample_parsed" "drop n sample_parsed"]
    by simp
qed

lemma sample_split:
  "take 4 sample_lines = take 3 sample_lines @ [trace_line 3 0 ''ctxt_change'']"
  "take 4 sample_parsed = take 3 sample_parsed @ [sample_parsed ! 3]"
  by (simp_all add: sample_lines_def sample_parsed_def)

lemma sample_fourth: "\<not> skipped (sample_parsed ! 3)"
  by (simp add: sample_parsed_def skipped_def)

lemma sample_live:
  "live (final_history (take 4 sample_parsed)) i = (if i = 0 then Some 3 else if i = 1 then Some 5 else None)"
  by (simp add: sample_parsed_def final_history_def no_history_def advance_def)

lemma sample_kept:
  "(3, trace_line 3 0 ''ctxt_change'') \<in># kept_lines True (take 4 sample_parsed) (take 4 sample_lines)"
  by (simp add: sample_parsed_def sample_lines_def kept_line_def skipped_def kept_text_def)

section \<open>Streaming\<close>

text \<open>C13. The merge is timely: after any line that is not a sync line, what has been written is in
  order, and every line read so far is written unless some running thread's last timestamp is
  still below it, so that the thread might yet produce an earlier line.\<close>

theorem merge_timely:
  assumes "heap_choice pick" and "readable (ls @ [l]) (ps @ [p])"
    and "accepted no_history (ps @ [p])" and "\<not> skipped p"
  shows "\<exists>s. read_lines pick initial_capacity keep (lines_text (ls @ [l])) new_merge_state = Inr s \<and>
    sorted (map fst (written s)) \<and>
    (\<forall>e. e \<in># kept_lines keep (ps @ [p]) (ls @ [l]) \<longrightarrow>
       e \<in> set (written s) \<or> (\<exists>i u. live (final_history (ps @ [p])) i = Some u \<and> u < fst e))"
  using assms by (rule heap_choice.timely)

theorem merge_timely_witness:
  "\<exists>s. read_lines first_min initial_capacity True (lines_text (take 4 sample_lines)) new_merge_state =
      Inr s \<and> sorted (map fst (written s)) \<and> (3, trace_line 3 0 ''ctxt_change'') \<in> set (written s)"
proof -
  obtain s where s: "read_lines first_min initial_capacity True (lines_text (take 4 sample_lines))
      new_merge_state = Inr s" "sorted (map fst (written s))"
    and w: "\<And>e. e \<in># kept_lines True (take 4 sample_parsed) (take 4 sample_lines) \<Longrightarrow>
      e \<in> set (written s) \<or>
      (\<exists>i u. live (final_history (take 4 sample_parsed)) i = Some u \<and> u < fst e)"
    using merge_timely [OF fm.heap_choice_axioms, of "take 3 sample_lines"
        "trace_line 3 0 ''ctxt_change''" "take 3 sample_parsed" "sample_parsed ! 3" True]
      sample_prefix [of 4] sample_fourth
    unfolding sample_split [symmetric] by blast
  from w [OF sample_kept] s show ?thesis
    by (auto simp: sample_live split: if_splits)
qed



section \<open>Inputs that break the contract\<close>

text \<open>C33. A line of 128 characters or more ends the input without a message: the program does
  exactly what it would do if the file ended before that line.\<close>

theorem overlong_line_truncates:
  assumes "\<forall>x \<in> set ls. length x \<le> 127 \<and> NL \<notin> set x" and "128 \<le> length l" and "NL \<notin> set l"
  shows "merge_program pick argv (lines_text ls @ l @ rest) = merge_program pick argv (lines_text ls)"
  using read_lines_append [OF assms(1), of pick initial_capacity _ "l @ rest" new_merge_state]
    read_lines_too_long [OF assms(2,3), of pick initial_capacity _ rest]
  by (simp add: merge_program_def merge_main_def split: sum.split)

theorem overlong_line_truncates_witness:
  "merge_program first_min [''merge''] (lines_text sample_lines @ replicate 128 CHR ''x'' @ ''lost'') =
   merge_program first_min [''merge''] (lines_text sample_lines)"
  using overlong_line_truncates [of sample_lines "replicate 128 CHR ''x''" first_min "[''merge'']" "''lost''"]
    readableD(1) [OF sample_readable] by simp

lemma parsed_exclusive: "parse_line l = Inr p \<Longrightarrow> is_thread_finish p \<Longrightarrow> \<not> is_thread_register p"
  by (auto simp: parse_line_def Let_def split: option.splits sum.splits)

text \<open>The end of a thread that is not running stops the program at the assertion of
  \<open>finish_thread\<close>.\<close>

theorem unknown_finish_aborts:
  assumes "parse_line l = Inr p" and "is_thread_finish p"
    and "st_last (safe_times s) (line_thread p) = None"
  shows "process_line pick cap keep l s = Inl (Assertion ''it != _tt_list.end()'')"
  using assms parsed_exclusive [OF assms(1,2)]
  by (simp add: process_line_def note_thread_def finish_thread_unknown)

theorem unknown_finish_aborts_witness:
  "process_line first_min 1024 True (trace_line 5 3 ''tf'') new_merge_state =
   Inl (Assertion ''it != _tt_list.end()'')"
  by (rule unknown_finish_aborts [OF parse_trace_line])
    (simp_all add: int64_range_def new_merge_state_def st_last_new)

text \<open>C34. A thread may not be registered again while lines of its first life still wait: the new
  registration stops the program at the assertion of \<open>enqueue\<close>.\<close>

theorem early_reregistration_aborts:
  assumes "parse_line l = Inr p" and "is_thread_register p" and "0 \<le> line_thread p"
    and "map_of (thread_queue_map s) (line_thread p) = Some q" and "is_finished q"
    and "max_timestamp q < line_time p"
  shows "process_line pick cap keep l s = Inl (Assertion ''!_thread_finished'')"
proof -
  have x: "\<not> is_thread_finish p" using parsed_exclusive [OF assms(1)] assms(2) by blast
  have "\<not> is_sync p"
    using assms(1,2) by (auto simp: parse_line_def Let_def split: option.splits sum.splits)
  then show ?thesis
    using assms x
    by (simp add: process_line_def note_thread_def skipped_def enqueue_line_def enqueue_finished
        is_finished_def)
qed

theorem early_reregistration_aborts_witness:
  "process_line first_min 64 True (trace_line 7 0 ''tr'')
     (new_merge_state\<lparr>thread_queue_map := [(0, finish (new_thread_queue 64))]\<rparr>) =
   Inl (Assertion ''!_thread_finished'')"
  by (rule early_reregistration_aborts [OF parse_trace_line])
    (simp_all add: int64_range_def is_finished_def, simp_all add: finish_def new_thread_queue_def)

section \<open>The parts\<close>

text \<open>C16. \<open>enqueue\<close> on every branch: an old timestamp and a finished thread stop at their
  assertions; otherwise the line is appended, whatever the position in the ring and whether the
  buffer had to grow, and the result says whether the queue was empty.\<close>

theorem enqueue_refines:
  assumes "tq_inv q" and "length s \<le> 3 * buffer_capacity q"
  shows "case enqueue q t s of
      Inl f \<Rightarrow> f = (if t \<le> max_timestamp q then Assertion ''timestamp > _max_timestamp''
                    else Assertion ''!_thread_finished'') \<and>
               (t \<le> max_timestamp q \<or> thread_finished q)
    | Inr (was_empty, q') \<Rightarrow>
        max_timestamp q < t \<and> \<not> thread_finished q \<and> was_empty = (tq_entries q = []) \<and> tq_inv q' \<and>
        tq_entries q' = tq_entries q @ [(t, s)] \<and> max_timestamp q' = t"
proof (cases "max_timestamp q < t \<and> \<not> thread_finished q")
  case True
  obtain q' where "enqueue q t s = Inr (tq_entries q = [], q')" "tq_inv q'"
    "tq_entries q' = tq_entries q @ [(t, s)]" "max_timestamp q' = t"
    by (rule enqueue_ok [of q t s]) (use assms True in simp_all)
  with True show ?thesis by simp
next
  case False
  then show ?thesis
    using enqueue_stale [of t q s] enqueue_finished [of q t s] by (cases "t \<le> max_timestamp q") simp_all
qed

theorem enqueue_refines_witness:
  "\<exists>q'. enqueue (new_thread_queue 4) 1 ''abcdef'' = Inr (True, q') \<and> tq_entries q' = [(1, ''abcdef'')]"
proof -
  have "enqueue (new_thread_queue 4) 1 ''abcdef'' \<noteq> Inl f" for f
    using enqueue_refines [OF tq_inv_new [of 4], of "''abcdef''" 1]
    by (auto simp: new_thread_queue_def)
  then obtain e q' where r: "enqueue (new_thread_queue 4) 1 ''abcdef'' = Inr (e, q')"
    by (metis old.sum.exhaust surj_pair)
  with enqueue_refines [OF tq_inv_new [of 4], of "''abcdef''" 1]
  have "e \<and> tq_entries q' = [(1, ''abcdef'')]"
    by (simp add: tq_entries_new) (simp add: new_thread_queue_def)
  with r show ?thesis by (cases e) auto
qed

text \<open>C17. \<open>dequeue\<close> on every branch: an empty queue says so and stays; a caller's array that is too
  short is overrun (undefined behaviour); otherwise the oldest line comes out, unchanged, and the
  others stay.\<close>

theorem dequeue_refines:
  assumes "tq_inv q"
  shows "case dequeue q a of
      Inl f \<Rightarrow> (\<exists>t s rest. tq_entries q = (t, s) # rest \<and> extent a < length s)
    | Inr (None, q') \<Rightarrow> tq_entries q = [] \<and> q' = q
    | Inr (Some (t, n, a'), q') \<Rightarrow>
        (\<exists>s. tq_entries q = (t, s) # tq_entries q' \<and> n = length s \<and> array_text a' n = Some s) \<and>
        extent a' = extent a \<and> tq_inv q' \<and> max_timestamp q' = max_timestamp q \<and>
        thread_finished q' = thread_finished q"
proof (cases "tq_entries q")
  case Nil
  then show ?thesis by (simp add: dequeue_empty)
next
  case (Cons e rest)
  obtain t s where e: "e = (t, s)" by (cases e)
  show ?thesis
  proof (cases "length s \<le> extent a")
    case True
    obtain a' q' where "dequeue q a = Inr (Some (t, length s, a'), q')" "extent a' = extent a"
      "array_text a' (length s) = Some s" "tq_inv q'" "tq_entries q' = rest"
      "max_timestamp q' = max_timestamp q" "thread_finished q' = thread_finished q"
      by (rule dequeue_ok [OF assms Cons [unfolded e] True])
    with Cons e show ?thesis by simp
  next
    case False
    with dequeue_overflow [OF assms Cons [unfolded e]] Cons e show ?thesis by simp
  qed
qed

theorem dequeue_refines_witness: "dequeue (new_thread_queue 4) (new_array 8) = Inr (None, new_thread_queue 4)"
proof -
  have "tq_entries (new_thread_queue 4) = []" by (rule tq_entries_new)
  with dequeue_refines [OF tq_inv_new [of 4], of "new_array 8"] show ?thesis
    by (auto split: sum.splits prod.splits option.splits)
qed

text \<open>\<open>set_time\<close> keeps the safe timestamp the least of the threads' last times, though it
  recomputes it only where the thread's old time was not above it; times must not go back.\<close>

theorem set_time_minimum:
  assumes "st_inv st" and "\<And>old. st_last st i = Some old \<Longrightarrow> old \<le> t"
  shows "st_last (set_time st i t) = (st_last st)(i \<mapsto> t) \<and> st_inv (set_time st i t) \<and>
    (\<forall>b. b \<le> timestamp (set_time st i t) \<longleftrightarrow>
       (\<forall>j u. st_last (set_time st i t) j = Some u \<longrightarrow> b \<le> u))"
proof -
  note ok = wm.set_law [OF assms]
  then have "st_last (set_time st i t) i = Some t" by simp
  from wm.mark_greatest [of "set_time st i t", OF _ this] wm.below_mark [of "set_time st i t"] ok
  show ?thesis by metis
qed

theorem set_time_minimum_witness:
  "st_last (set_time (set_time new_safe_timestamp 0 5) 1 3) = [0 \<mapsto> 5, 1 \<mapsto> 3] \<and>
   timestamp (set_time (set_time new_safe_timestamp 0 5) 1 3) \<le> 3"
proof -
  have 0: "st_last (set_time new_safe_timestamp 0 5) = [0 \<mapsto> 5] \<and> st_inv (set_time new_safe_timestamp 0 5)"
    using set_time_minimum [OF st_inv_new, of 0 5] by (simp add: st_last_new)
  then have p: "old \<le> 3" if "st_last (set_time new_safe_timestamp 0 5) 1 = Some old" for old
    using that by simp
  let ?st = "set_time (set_time new_safe_timestamp 0 5) 1 3"
  note S = set_time_minimum [where i = 1 and t = 3, OF conjunct2 [OF 0] p]
  then have l: "st_last ?st = [0 \<mapsto> 5, 1 \<mapsto> 3]" using 0 by simp
  then have "st_last ?st 1 = Some 3" by simp
  with S l show ?thesis by blast
qed

text \<open>C26. An entry of the pintool, printed and read back by the merge program, is the same time,
  thread and kind of entry.\<close>

theorem entry_round_trip:
  assumes "int64_range (fst e)" and "int64_range (fst (snd e))"
  shows "parse_line (entry_line e) = Inr (parsed_entry e)"
  using assms by (rule parse_entry_line)

theorem entry_round_trip_witness:
  "parse_line (entry_line (12, 3, Thread_Finish)) = Inr (parsed_entry (12, 3, Thread_Finish))"
  by (rule entry_round_trip) (simp_all add: int64_range_def)

end
