(* ===== verification/Tracer_Properties.thy ===== *)
theory Tracer_Properties
  imports Tracer_Examples Trace_Output Merge_Properties
begin

text \<open>
  What the pintool promises: the order and completeness of the traced accesses, the locks an
  access takes, the calls of an instruction, the threads a flush picks; and two behaviours in
  which the code does not keep its promise.
\<close>

section \<open>Accesses\<close>

text \<open>Accesses to a common byte, both with a size and inside the address space.\<close>

definition conflicting :: "access \<Rightarrow> access \<Rightarrow> bool" where
  "conflicting a a' \<longleftrightarrow>
     event_in_range (acc_event a) \<and> event_in_range (acc_event a') \<and>
     (\<exists>b. event_touches (acc_event a) b \<and> event_touches (acc_event a') b)"

lemma conflict_times:
  assumes "reachable bm k r" and "0 \<le> knob_timestamp_difference k" and "\<not> knob_turn_off k"
    and "i < j" and "j < length (run_log r)" and "conflicting (run_log r ! i) (run_log r ! j)"
  shows "acc_time (run_log r ! i) < acc_time (run_log r ! j)"
proof -
  let ?s = "run_state r"
  from reachable_inv [OF assms(1-3)] have "ordered (run_log r)"
    and log: "log_ok (num_locks ?s) (block_size_log ?s) (run_log r)"
    by (simp_all add: atom_inv_def)
  then have "set (acc_locks (run_log r ! i)) \<inter> set (acc_locks (run_log r ! j)) \<noteq> {} \<longrightarrow>
      acc_time (run_log r ! i) < acc_time (run_log r ! j)"
    using assms(4,5) by (simp add: ordered_def sorted_wrt_iff_nth_less)
  moreover obtain b where b: "event_touches (acc_event (run_log r ! i)) b"
    "event_touches (acc_event (run_log r ! j)) b"
    using assms(6) by (auto simp: conflicting_def)
  have "lock_of (num_locks ?s) (block_size_log ?s) b \<in>
      set (acc_locks (run_log r ! i)) \<inter> set (acc_locks (run_log r ! j))"
    using log assms(4-6) b by (simp add: log_ok_def conflicting_def)
  ultimately show ?thesis by blast
qed

text \<open>In every run, with locking on, accesses that touch a common byte are traced with
  increasing times in the order in which they held its lock, whichever threads make them and
  however their calls interleave. The accesses have a size and stay inside the address space.\<close>

theorem conflicting_accesses_ordered:
  assumes "reachable bm k r" and "0 \<le> knob_timestamp_difference k" and "\<not> knob_turn_off k"
    and "i < j" and "j < length (run_log r)"
    and "event_in_range (acc_event (run_log r ! i))" and "event_in_range (acc_event (run_log r ! j))"
    and "event_touches (acc_event (run_log r ! i)) b" and "event_touches (acc_event (run_log r ! j)) b"
  shows "acc_time (run_log r ! i) < acc_time (run_log r ! j)"
  by (rule conflict_times [OF assms(1-5)]) (use assms(6-9) in \<open>auto simp: conflicting_def\<close>)

theorem conflicting_accesses_ordered_witness:
  "\<exists>r. reachable alist_bimap default_knobs r \<and> length (run_log r) = 2 \<and>
     acc_thread (run_log r ! 0) \<noteq> acc_thread (run_log r ! 1) \<and>
     acc_time (run_log r ! 0) < acc_time (run_log r ! 1)"
proof -
  obtain r where r: "do_run alist_bimap default_knobs two_writers = Some r" and
    log: "run_log r =
       [\<lparr>acc_time = 3, acc_thread = 0, acc_user = 0, acc_event = Memory None None (Some (4096, 8)),
         acc_locks = [0]\<rparr>,
        \<lparr>acc_time = 4, acc_thread = 1, acc_user = 1, acc_event = Memory None None (Some (4100, 8)),
         acc_locks = [0]\<rparr>]"
    using two_writers_run by blast
  note re = do_run_reachable [OF r]
  from conflicting_accesses_ordered [OF re, of 0 1 4100]
  have "acc_time (run_log r ! 0) < acc_time (run_log r ! 1)"
    by (simp add: log default_knobs_def in_range_def touches_def)
  with re log show ?thesis by auto
qed

text \<open>C8. Nothing that is traced is lost or doubled: at every moment of a run the memory entries in
  the file and in the buffers of the running threads are exactly those of the accesses so far;
  once every thread has ended they are all in the file.\<close>

theorem accesses_traced_once:
  assumes "reachable bm k r"
  shows "traced (run_state r) = mset (map access_entry (run_log r)) \<and>
    (tls (run_state r) = Map.empty \<longrightarrow>
      accesses (trace_file (run_state r)) = mset (map access_entry (run_log r)))"
  using reachable_trace [OF assms] by (auto simp: traced_def)

theorem accesses_traced_once_witness:
  "\<exists>r. reachable alist_bimap default_knobs r \<and> size (traced (run_state r)) = 2"
proof -
  obtain r where r: "do_run alist_bimap default_knobs two_writers = Some r" "length (run_log r) = 2"
    using two_writers_run by force
  note re = do_run_reachable [OF r(1)]
  from accesses_traced_once [OF re] r(2) have "size (traced (run_state r)) = 2" by simp
  with re show ?thesis by blast
qed

section \<open>Locks\<close>

text \<open>C15. No two threads hold a lock together, every lock that is taken is in the list of its
  holder, and giving the locks back never fails: it leaves the thread without any.\<close>

theorem locks_exclusive:
  assumes "reachable bm k r" and "0 \<le> knob_timestamp_difference k" and "\<not> knob_turn_off k"
    and "tls (run_state r) p = Some td"
  shows "(\<forall>q td'. tls (run_state r) q = Some td' \<longrightarrow> q \<noteq> p \<longrightarrow>
      set (index_lock_list td) \<inter> set (index_lock_list td') = {}) \<and>
    (\<forall>i. lock_owner (address_lock_bank (run_state r) i) = Some p \<longleftrightarrow> i \<in> set (index_lock_list td)) \<and>
    (\<exists>s'. run_call bm (Release p) (run_state r) = Inr s' \<and>
      (\<forall>i. lock_owner (address_lock_bank s' i) \<noteq> Some p))"
proof -
  let ?s = "run_state r"
  have h: "holds_ok (num_locks ?s) (address_lock_bank ?s) (tls ?s)"
    using reachable_inv [OF assms(1-3)] by (simp add: atom_inv_def)
  have owner: "lock_owner (address_lock_bank ?s i) = Some q"
    if "tls ?s q = Some td'" "i \<in> set (index_lock_list td')" for q td' i
    using h that by (simp add: holds_ok_def)
  have own: "lock_owner (address_lock_bank ?s i) = Some p \<longleftrightarrow> i \<in> set (index_lock_list td)" for i
    using h assms(4) owner [OF assms(4)] unfolding holds_ok_def by (metis option.inject)
  have "set (index_lock_list td) \<inter> set (index_lock_list td') = {}"
    if "tls ?s q = Some td'" "q \<noteq> p" for q td'
    using owner [OF assms(4)] owner [OF that(1)] that(2) by fastforce
  moreover have "\<exists>s'. run_call bm (Release p) ?s = Inr s' \<and>
      (\<forall>i. lock_owner (address_lock_bank s' i) \<noteq> Some p)"
    using release_ok [OF h assms(4)] own
    by (auto simp: memory_access_release_a_def freed_def set_tls_def)
  ultimately show ?thesis using own by blast
qed

theorem locks_exclusive_witness:
  "\<exists>r td. reachable alist_bimap default_knobs r \<and> tls (run_state r) 0 = Some td \<and>
     (\<exists>s'. run_call alist_bimap (Release 0) (run_state r) = Inr s')"
proof -
  obtain r td where r: "do_run alist_bimap default_knobs (Start blank_thread 0 0 # write_calls 0 4096) = Some r"
    and td: "tls (run_state r) 0 = Some td"
    by (simp add: do_run_def write_calls_def tracer_eval)
  note re = do_run_reachable [OF r]
  from locks_exclusive [OF re _ _ td] re td show ?thesis
    by (auto simp: default_knobs_def)
qed

text \<open>The byte of the access that lies in a given block.\<close>

lemma block_byte:
  assumes r: "in_range a sz" and k: "block_of l a \<le> c" "c \<le> block_of l (a + sz - 1)"
  obtains b where "touches a sz b" "block_of l b = c"
proof -
  define m where "m = (2 :: int) ^ unat l"
  have m: "0 < m" by (simp add: m_def)
  define b where "b = max (uint a) (c * m)"
  have e: "uint (a + sz - 1) = uint a + uint sz - 1" by (rule end_address [OF r])
  have "c * m \<le> (uint (a + sz - 1) div m) * m"
    using k(2) m by (simp add: block_of_div m_def)
  also have "\<dots> \<le> uint (a + sz - 1)"
    using m by (simp add: minus_mod_eq_div_mult [symmetric])
  finally have le: "c * m \<le> uint a + uint sz - 1" by (simp add: e)
  have b: "uint a \<le> b" "b < uint a + uint sz"
    using le r by (auto simp: b_def in_range_def)
  then have u: "uint (word_of_int b :: u64) = b"
    using r by (intro uint_of_int_small) (auto simp: in_range_def intro: order_trans [OF uint_ge_0])
  have "b div m = c"
  proof (cases "c * m \<le> uint a")
    case True
    then have "c * m div m \<le> uint a div m" using m by (rule zdiv_mono1)
    then have "c \<le> uint a div m" using m by simp
    with True k(1) show ?thesis by (simp add: b_def block_of_div m_def)
  next
    case False
    with m show ?thesis by (simp add: b_def)
  qed
  with b u show thesis
    by (intro that [of "word_of_int b"]) (simp_all add: touches_def block_of_div m_def)
qed

text \<open>C19. The locks an access takes are exactly those of the bytes it touches, and they exist.\<close>

theorem access_locks_exact:
  assumes "0 < sint nl" and "in_range a sz"
  shows "set (access_indices nl bl a sz) = {lock_of nl bl b | b. touches a sz b} \<and>
    (\<forall>i \<in> set (access_indices nl bl a sz). 0 \<le> i \<and> i < sint nl)"
proof -
  have "lock_of nl bl b \<in> set (access_indices nl bl a sz)" if "touches a sz b" for b
    by (rule byte_covered [OF assms that])
  moreover have "\<exists>b. i = lock_of nl bl b \<and> touches a sz b"
    if i: "i \<in> set (access_indices nl bl a sz)" for i
  proof -
    from i obtain c where c: "i = c mod sint nl" "block_of bl a \<le> c" "c \<le> block_of bl (a + sz - 1)"
      by (auto simp: set_access_indices [OF assms])
    obtain b where "touches a sz b" "block_of bl b = c" by (rule block_byte [OF assms(2) c(2,3)])
    with c(1) show ?thesis by (auto simp: lock_of_def)
  qed
  ultimately show ?thesis using indices_in_bank [OF assms] by blast
qed

theorem access_locks_exact_witness:
  "set (access_indices 64 6 4092 8) = {lock_of 64 6 b | b. touches 4092 8 b} \<and>
   access_indices 64 6 4092 8 = [63, 0]"
proof -
  have "access_indices 64 6 4092 8 = [63, 0]" by code_simp
  with access_locks_exact [of 64 4092 8 6] show ?thesis by (simp add: in_range_def)
qed

text \<open>The locks are taken in ascending order of their indices, each once, so that threads that
  wait for each other cannot form a cycle; every byte of a traced access has its lock among them.\<close>

theorem needed_locks_ascending:
  assumes "0 < sint (num_locks s)" and "event_in_range (access_event td)"
  shows "sorted_wrt (<) (needed_indices s td) \<and>
    (\<forall>b. event_touches (access_event td) b \<longrightarrow>
       lock_of (num_locks s) (block_size_log s) b \<in> set (needed_indices s td))"
proof -
  have "event_indices (num_locks s) (block_size_log s) td \<subseteq> set (needed_indices s td)"
    by (auto simp: event_indices_def needed_indices_def)
  with event_locked [OF assms] sort_unique_ascending show ?thesis
    by (auto simp: needed_indices_def)
qed

theorem needed_locks_ascending_witness:
  "\<exists>s. tracer_main alist_bimap default_knobs = Inr s \<and>
     lock_of 64 6 4096 \<in>
       set (needed_indices s (blank_thread\<lparr>is_write := True, write_address := 4092, write_size := 8\<rparr>))"
proof -
  obtain s where s: "tracer_main alist_bimap default_knobs = Inr s" "num_locks s = 64" "block_size_log s = 6"
    by (simp add: tracer_eval)
  let ?td = "blank_thread\<lparr>is_write := True, write_address := 4092, write_size := 8\<rparr>"
  have "sint (num_locks s) = 64" using s(2) by simp
  moreover have "event_in_range (access_event ?td)" "event_touches (access_event ?td) 4096"
    by (simp_all add: access_event_def blank_thread_def in_range_def touches_def)
  ultimately show ?thesis
    using needed_locks_ascending [of s ?td] s by auto
qed

text \<open>C29. \<open>main\<close> accepts exactly the powers of two below the sign bit for the number of locks and
  the block size; then the lock of a byte is its block number modulo the number of locks, the
  block number being the address divided by the block size.\<close>

theorem configuration_correct:
  "(case tracer_main bm k of
      Inl f \<Rightarrow> \<not> ((\<exists>i < 63. knob_num_address_locks k = 2 ^ i) \<and> (\<exists>j < 63. knob_block_size k = 2 ^ j))
    | Inr s \<Rightarrow> (\<exists>i < 63. num_locks s = 2 ^ i) \<and> (\<exists>j < 63. block_size s = 2 ^ j) \<and>
        (\<forall>a. lock_of (num_locks s) (block_size_log s) a =
           uint a div uint (block_size s) mod uint (num_locks s)))"
proof (cases "is_power_2 (knob_num_address_locks k) \<and> is_power_2 (knob_block_size k)")
  case False
  then show ?thesis by (auto simp: tracer_main_def is_power_2_iff)
next
  case True
  then obtain j where j: "j < 63" "knob_block_size k = 2 ^ j" by (auto simp: is_power_2_iff)
  have "sint (knob_num_address_locks k) = uint (knob_num_address_locks k)"
    using True sint_pos_iff sint_small unfolding is_power_2_def by blast
  moreover have "j < 2 ^ 64" using j(1) by simp
  then have "unat (binary_log (knob_block_size k)) = j"
    unfolding j(2) binary_log_power [OF j(1)] unat_of_nat by simp
  moreover have "unat (knob_block_size k) = 2 ^ j"
    using j(1) unfolding j(2) by (intro unat_two_power) simp
  then have "uint (knob_block_size k) = 2 ^ j" by (simp add: uint_nat)
  ultimately show ?thesis
    using True by (simp add: tracer_main_def lock_of_def block_of_div is_power_2_iff)
qed

section \<open>Instructions\<close>

fun follow :: "call list \<Rightarrow> phase \<Rightarrow> phase option" where
  "follow [] ph = Some ph"
| "follow (c # cs) ph = (case next_phase c ph of None \<Rightarrow> None | Some x \<Rightarrow> follow cs x)"

text \<open>C24. The calls that \<open>Instruction\<close> inserts, in their order, keep the discipline of the runs:
  from outside an access or after an abandoned header, one instruction ends outside again, with
  its header before its accesses, its locks taken before its footer, and every call made by the
  executing thread.\<close>

theorem instruction_calls_disciplined:
  assumes "instruction_calls log_fails i p a = Inr cs" and "ph \<noteq> Locked"
  shows "follow cs ph = Some Free \<and> (\<forall>c \<in> set cs. caller c = p)"
proof (cases ph)
  case Locked
  with assms(2) show ?thesis by simp
qed (use assms(1) in \<open>auto simp: instruction_calls_def instrument_instruction_def Let_def split: if_splits\<close>)

theorem instruction_calls_disciplined_witness:
  "\<exists>cs. instruction_calls False
      \<lparr>ins_is_memory_read = True, ins_is_memory_write = True, ins_has_memory_read2 = False,
       ins_is_atomic_update = True, ins_is_cmpxchg = True, ins_has_fall_through = True\<rparr> 3
      \<lparr>memoryread_ea = 4096, memoryread_size = 8, memoryread2_ea = 0, memorywrite_ea = 4096,
       memorywrite_size = 8, rflags = 64\<rparr> = Inr cs \<and> follow cs Headed = Some Free \<and> length cs = 6"
  (is "\<exists>cs. instruction_calls False ?i 3 ?a = Inr cs \<and> _")
proof -
  have "instruction_calls False ?i 3 ?a =
      Inr [Header 3, Read1 3 4096 8, Write 3 4096 8, Acquire 3, Cas_Footer 3 64, Footer 3]"
    by (simp add: instruction_calls_def instrument_instruction_def)
  from this instruction_calls_disciplined [OF this, of Headed] show ?thesis by auto
qed

section \<open>Flushing\<close>

lemma lagging_mono: "lagging s (time - t) \<Longrightarrow> t' \<le> t \<Longrightarrow> lagging s (time - t')"
  by (simp add: lagging_def)

lemma collect_lagging_set:
  "sorted (map fst view) \<Longrightarrow>
   set (fst (collect_lagging s time view c)) = {p. \<exists>t. (t, p) \<in> set view \<and> lagging s (time - t)}"
proof (induction view)
  case (Cons e view)
  obtain t p where e: "e = (t, p)" by (cases e)
  show ?case
  proof (cases "lagging s (time - t)")
    case True
    with Cons e show ?thesis by (auto simp: case_prod_beta)
  next
    case False
    then have "\<not> lagging s (time - t')" if "(t', q) \<in> set view" for t' q
      using that Cons.prems e lagging_mono [of s time t' t] by force
    with False e show ?thesis by auto
  qed
qed simp

context bimap
begin

lemma selected:
  assumes "left (last_flushed s) k = Some v"
  shows "\<exists>ps c. check_last_flushed bm time s = Inr (ps, s\<lparr>last_flushed_cache := c\<rparr>) \<and>
    set ps =
      (if timestamp_difference s < time - last_flushed_cache s \<and>
          (\<exists>q t. left (last_flushed s) q = Some t \<and> timestamp_difference s < time - t)
       then {q. \<exists>t. left (last_flushed s) q = Some t \<and> lagging s (time - t)} else {})"
proof (cases "timestamp_difference s < time - last_flushed_cache s")
  case False
  then have "check_last_flushed bm time s = Inr ([], s\<lparr>last_flushed_cache := last_flushed_cache s\<rparr>)"
    by (simp add: check_last_flushed_def)
  with False show ?thesis
    by (intro exI [of _ "[]"] exI [of _ "last_flushed_cache s"]) simp
next
  case True
  obtain t p view where view: "bm_right bm (last_flushed s) = (t, p) # view"
    using right_nonempty [OF assms] by (cases "bm_right bm (last_flushed s)") auto
  have least: "t \<le> u" if "left (last_flushed s) q = Some u" for q u
    by (rule right_head_least [OF view that])
  have tp: "left (last_flushed s) p = Some t"
    using right_set [of t p "last_flushed s"] view by simp
  let ?s = "s\<lparr>last_flushed_cache := t\<rparr>"
  show ?thesis
  proof (cases "timestamp_difference s < time - t")
    case False
    then have "\<not> timestamp_difference s < time - u" if "left (last_flushed s) q = Some u" for q u
      using least [OF that] by simp
    then have "\<not> (\<exists>q u. left (last_flushed s) q = Some u \<and> timestamp_difference s < time - u)"
      by blast
    moreover have "check_last_flushed bm time s = Inr ([], ?s)"
      using True False view by (simp add: check_last_flushed_def)
    ultimately show ?thesis by auto
  next
    case far: True
    let ?c = "collect_lagging ?s time ((t, p) # view) t"
    have "sorted (map fst ((t, p) # view))" using right_sorted [of "last_flushed s"] view by simp
    from collect_lagging_set [OF this, of ?s time t]
    have "set (fst ?c) = {q. \<exists>u. left (last_flushed s) q = Some u \<and> lagging s (time - u)}"
      unfolding view [symmetric] right_set by (simp add: lagging_def)
    moreover have "check_last_flushed bm time s = Inr (fst ?c, s\<lparr>last_flushed_cache := snd ?c\<rparr>)"
      using True far view by (simp add: check_last_flushed_def case_prod_beta Let_def)
    moreover have "\<exists>q u. left (last_flushed s) q = Some u \<and> timestamp_difference s < time - u"
      using tp far by blast
    ultimately show ?thesis using True by auto
  qed
qed

end



section \<open>Where the promise fails\<close>

text \<open>C35. An exception in a compare-and-swap, whose locks are taken before the instruction and whose
  footer comes after it, gives the locks back with the thread's own, earlier, timestamp. Here
  thread 0 writes a word at times 3, 4 and 5, thread 1 faults on it and then writes it: the last
  write of all is traced at time 4.\<close>

theorem faulting_cas_breaks_order:
  "\<exists>s td0 td1. started default_knobs faulting_cas = Inr s \<and>
     tls s 0 = Some td0 \<and> tls s 1 = Some td1 \<and>
     (5, 0, Memory None None (Some (4096, 8))) \<in> set (trace_stream td0) \<and>
     last (trace_stream td1) = (4, 1, Memory None None (Some (4096, 8)))"
  using faulting_cas_run by fastforce

text \<open>C36. A context change of a thread that is not registered is traced too, under the thread id
  -1 and without any synchronisation: two such threads write the same timestamp under the same id,
  and the merge program stops at its assertion on the file.\<close>

theorem unregistered_context_changes_abort:
  "\<exists>s. started (default_knobs\<lparr>knob_register_threads := True\<rparr>)
      [Start blank_thread 0 0, Start blank_thread 1 1, Ctxt_Change 0, Ctxt_Change 1, Fini 0, Fini 1] =
      Inr s \<and>
     trace_file s = [(1, -1, Context_Change), (1, -1, Context_Change)] \<and>
     merge_program first_min [''merge''] (lines_text (map entry_line (trace_file s))) =
       Inl (Assertion ''timestamp > _max_timestamp'')"
proof -
  obtain s where s: "started (default_knobs\<lparr>knob_register_threads := True\<rparr>)
      [Start blank_thread 0 0, Start blank_thread 1 1, Ctxt_Change 0, Ctxt_Change 1, Fini 0, Fini 1] =
      Inr s" "trace_file s = [(1, -1, Context_Change), (1, -1, Context_Change)]"
    by (simp add: started_def tracer_eval)
  let ?l = "entry_line (1, -1, Context_Change)"
  have "parse_line ?l = Inr (parsed_entry (1, -1, Context_Change))"
    by (rule parse_entry_line) (simp_all add: int64_range_def)
  moreover have "length ?l \<le> 127 \<and> NL \<notin> set ?l \<and> NUL \<notin> set ?l"
    by code_simp
  ultimately have "read_lines first_min initial_capacity keep (lines_text [?l, ?l]) new_merge_state =
      Inl (Assertion ''timestamp > _max_timestamp'')" for keep
    by (intro fm.repeated_unregistered [where p = "parsed_entry (1, -1, Context_Change)"]) simp_all
  then show ?thesis using s by (simp add: merge_program_def merge_main_def)
qed

text \<open>A registered thread that ends stays in \<open>last_flushed\<close>: its buffer has just been flushed, and
  the entry is erased only where the buffer is not empty. The oldest flush time then never moves
  past the end of that thread.\<close>

theorem finished_thread_stays_flushed:
  "\<exists>s. started default_knobs [Start blank_thread 0 0, Fini 0] = Inr s \<and>
     pin_threadid_set s = [] \<and> tls s = Map.empty \<and> map_of (last_flushed s) 0 = Some 2"
  by (simp add: started_def tracer_eval fun_eq_iff)

end
