(* ===== verification/Memory_Order.thy ===== *)
theory Memory_Order
  imports Executions Tracer_Properties
begin

text \<open>
  The purpose of \<open>src/trace/trace.cpp\<close>: the trace has the accesses in the order in which the memory
  saw them; and without its address locks it has not.
\<close>

section \<open>The order of the memory\<close>

definition instr_of :: "mark \<Rightarrow> int \<times> nat" where
  "instr_of m = (m_thread m, m_instr m)"

definition of_kind :: "mark_kind \<Rightarrow> mark list \<Rightarrow> mark list" where
  "of_kind kind ms = filter (\<lambda>m. m_kind m = kind) ms"

text \<open>The entry of each traced instruction.\<close>

definition logged :: "'b execution \<Rightarrow> int \<times> nat \<Rightarrow> access option" where
  "logged x = map_of (zip (map instr_of (of_kind Traces (marks x))) (run_log (tool x)))"

text \<open>The traced accesses in the order in which they went to memory.\<close>

definition memory_accesses :: "'b execution \<Rightarrow> access list" where
  "memory_accesses x =
     List.map_filter (logged x) (map instr_of (of_kind Performs (marks x)))"

text \<open>No thread is in the middle of an instruction.\<close>

definition at_rest :: "'b execution \<Rightarrow> bool" where
  "at_rest x \<longleftrightarrow> (\<forall>p. \<not> active x p)"

lemma filter_positions:
  "i < j \<Longrightarrow> j < length (filter P xs) \<Longrightarrow>
   \<exists>a b. a < b \<and> b < length xs \<and> xs ! a = filter P xs ! i \<and> xs ! b = filter P xs ! j"
proof (induction xs arbitrary: i j)
  case (Cons x xs)
  show ?case
  proof (cases "P x")
    case False
    with Cons.IH [of i j] Cons.prems obtain a b where "a < b" "b < length xs"
      "xs ! a = filter P xs ! i" "xs ! b = filter P xs ! j" by auto
    with False show ?thesis by (intro exI [of _ "Suc a"] exI [of _ "Suc b"]) simp
  next
    case True
    from Cons.prems obtain j' where j: "j = Suc j'" by (cases j) auto
    show ?thesis
    proof (cases i)
      case 0
      from Cons.prems True j have "filter P xs ! j' \<in> set xs"
        using nth_mem [of j' "filter P xs"] by simp
      then obtain b where "b < length xs" "xs ! b = filter P xs ! j'" by (metis in_set_conv_nth)
      with 0 j True show ?thesis by (intro exI [of _ 0] exI [of _ "Suc b"]) simp
    next
      case (Suc i')
      with Cons.IH [of i' j'] Cons.prems j True obtain a b where "a < b" "b < length xs"
        "xs ! a = filter P xs ! i'" "xs ! b = filter P xs ! j'" by auto
      with Suc j True show ?thesis by (intro exI [of _ "Suc a"] exI [of _ "Suc b"]) simp
    qed
  qed
qed simp

lemma same_instr: "same m m' \<longleftrightarrow> instr_of m = instr_of m'"
  by (simp add: same_def instr_of_def)

lemma same_log_nth:
  assumes "same_log ms log"
  shows "length (of_kind Traces ms) = length log"
    "i < length log \<Longrightarrow> m_thread (of_kind Traces ms ! i) = acc_thread (log ! i)"
    "i < length log \<Longrightarrow> m_locks (of_kind Traces ms ! i) = acc_locks (log ! i)"
proof -
  have e: "map (\<lambda>m. (m_thread m, m_locks m)) (of_kind Traces ms) =
      map (\<lambda>a. (acc_thread a, acc_locks a)) log"
    using assms by (simp add: same_log_def of_kind_def)
  then show l: "length (of_kind Traces ms) = length log" by (metis length_map)
  show "m_thread (of_kind Traces ms ! i) = acc_thread (log ! i)"
    "m_locks (of_kind Traces ms ! i) = acc_locks (log ! i)" if "i < length log"
    using arg_cong [OF e, of "\<lambda>xs. xs ! i"] l that by simp_all
qed

lemma logged_nth:
  assumes "logged x v = Some a" "same_log (marks x) (run_log (tool x))"
  obtains i where "i < length (run_log (tool x))" "run_log (tool x) ! i = a"
    "instr_of (of_kind Traces (marks x) ! i) = v"
proof -
  from assms(1) have "(v, a) \<in> set (zip (map instr_of (of_kind Traces (marks x))) (run_log (tool x)))"
    unfolding logged_def by (rule map_of_SomeD)
  then show thesis using that same_log_nth(1) [OF assms(2)] by (auto simp: set_zip)
qed

lemma of_kind_distinct: "distinct (map key_of ms) \<Longrightarrow> distinct (map instr_of (of_kind kind ms))"
  by (induction ms) (auto simp: of_kind_def key_of_def instr_of_def image_iff)

lemma conflict_locks:
  assumes "reachable bm k r" and "0 \<le> knob_timestamp_difference k" and "\<not> knob_turn_off k"
    and "a \<in> set (run_log r)" "a' \<in> set (run_log r)" "conflicting a a'"
  shows "set (acc_locks a) \<inter> set (acc_locks a') \<noteq> {}"
proof -
  from reachable_inv [OF assms(1-3)]
  have "log_ok (num_locks (run_state r)) (block_size_log (run_state r)) (run_log r)" by simp
  with assms(4-6) show ?thesis unfolding log_ok_def conflicting_def by blast
qed

lemma conflicting_sym: "conflicting a a' \<Longrightarrow> conflicting a' a"
  by (auto simp: conflicting_def)

text \<open>The marks of two conflicting accesses: what goes to memory first is traced first.\<close>

lemma performed_first:
  assumes ex: "executes bm k x" and k: "1 \<le> knob_timestamp_difference k" "\<not> knob_turn_off k"
    and uv: "u < v" "v < length (marks x)"
      "m_kind (marks x ! u) = Performs" "m_kind (marks x ! v) = Performs"
    and a: "logged x (instr_of (marks x ! u)) = Some a" "logged x (instr_of (marks x ! v)) = Some a'"
    and c: "conflicting a a'"
  shows "acc_time a < acc_time a'"
proof -
  let ?ms = "marks x" and ?log = "run_log (tool x)" and ?T = "of_kind Traces (marks x)"
  note re = execution_reachable [OF ex]
  have k0: "0 \<le> knob_timestamp_difference k" using k(1) by simp
  note inv = executes_inv [OF ex k]
  then have ok: "marks_ok (active x) (begun x) (held (run_state (tool x))) ?ms"
    and sl: "same_log ?ms ?log" by (simp_all add: execution_inv_def)
  from a(1) sl obtain i where i: "i < length ?log" "?log ! i = a" "same (?T ! i) (?ms ! u)"
    by (auto simp: same_instr elim: logged_nth)
  from a(2) sl obtain j where j: "j < length ?log" "?log ! j = a'" "same (?T ! j) (?ms ! v)"
    by (auto simp: same_instr elim: logged_nth)
  have ne: "\<not> same (?ms ! u) (?ms ! v)"
  proof
    assume "same (?ms ! u) (?ms ! v)"
    then have "key_of (?ms ! u) = key_of (?ms ! v)" using uv by (simp add: key_of_def same_def)
    with marks_okD(5) [OF ok] uv show False
      by (auto simp: distinct_conv_nth dest!: spec [of _ u])
  qed
  consider "i < j" | "i = j" | "j < i" by linarith
  then show ?thesis
  proof cases
    case 1
    with conflict_times [OF re k0 k(2), of i j] i j c show ?thesis by simp
  next
    case 2
    with i(3) j(3) ne show ?thesis by (auto simp: same_def)
  next
    case 3
    note len = same_log_nth(1) [OF sl]
    from filter_positions [OF 3, of "\<lambda>m. m_kind m = Traces" ?ms] i(1) len
    obtain b b' where b: "b < b'" "b' < length ?ms" "?ms ! b = ?T ! j" "?ms ! b' = ?T ! i"
      by (auto simp: of_kind_def)
    have tr: "m_kind (?T ! n) = Traces" if "n < length ?log" for n
      using nth_mem [of n ?T] that len by (simp add: of_kind_def)
    have "share (?ms ! b) (?ms ! b')"
      using conflict_locks [OF re k0 k(2), of a' a] i j c conflicting_sym same_log_nth(3) [OF sl]
      by (auto simp: share_def b)
    moreover have "\<not> same (?ms ! b) (?ms ! b')"
      using ne i(3) j(3) by (auto simp: b same_def)
    ultimately have "v < u"
      using b uv i j tr
      by (intro marks_ordered [OF ok, of b b' v u]) (auto simp: b same_def)
    with uv(1) show ?thesis by simp
  qed
qed

lemma memory_sorted:
  assumes ex: "executes bm k x" and k: "1 \<le> knob_timestamp_difference k" "\<not> knob_turn_off k"
  shows "sorted_wrt (\<lambda>a b. conflicting a b \<longrightarrow> acc_time a < acc_time b) (memory_accesses x)"
proof -
  let ?R = "\<lambda>m m'. \<forall>a b. m_kind m = Performs \<longrightarrow> m_kind m' = Performs \<longrightarrow>
      logged x (instr_of m) = Some a \<longrightarrow> logged x (instr_of m') = Some b \<longrightarrow> conflicting a b \<longrightarrow>
      acc_time a < acc_time b"
  have "sorted_wrt ?R (marks x)"
    unfolding sorted_wrt_iff_nth_less using performed_first [OF ex k] by blast
  then have "sorted_wrt ?R (filter (\<lambda>m. logged x (instr_of m) \<noteq> None) (of_kind Performs (marks x)))"
    by (simp add: of_kind_def sorted_wrt_filter)
  then have "sorted_wrt (\<lambda>m m'. conflicting (the (logged x (instr_of m))) (the (logged x (instr_of m'))) \<longrightarrow>
      acc_time (the (logged x (instr_of m))) < acc_time (the (logged x (instr_of m'))))
      (filter (\<lambda>m. logged x (instr_of m) \<noteq> None) (of_kind Performs (marks x)))"
    by (rule sorted_wrt_mono_rel [rotated]) (auto simp: of_kind_def)
  then show ?thesis
    by (simp add: memory_accesses_def List.map_filter_def sorted_wrt_map comp_def filter_map)
qed

lemma logged_all:
  assumes "distinct (map key_of (marks x))" "same_log (marks x) (run_log (tool x))"
  shows "map (logged x) (map instr_of (of_kind Traces (marks x))) = map Some (run_log (tool x))"
proof -
  let ?T = "map instr_of (of_kind Traces (marks x))"
  have "length ?T = length (run_log (tool x))" "distinct ?T"
    using same_log_nth(1) [OF assms(2)] of_kind_distinct [OF assms(1)] by simp_all
  then have "map_of (zip ?T (run_log (tool x))) (?T ! i) = Some (run_log (tool x) ! i)"
    if "i < length (run_log (tool x))" for i
    using that by (rule map_of_zip_nth)
  then show ?thesis
    using same_log_nth(1) [OF assms(2)] unfolding logged_def by (intro nth_equalityI) simp_all
qed

lemma instr_of_kind: "v \<in> set (map instr_of (of_kind kind (marks x))) \<longleftrightarrow> marked x (fst v) (snd v) kind"
  by (cases v) (auto simp: of_kind_def marked_def key_of_def instr_of_def image_iff)

lemma map_filter_mset:
  "mset (List.map_filter f xs) = image_mset (the \<circ> f) (filter_mset (\<lambda>v. f v \<noteq> None) (mset xs))"
  by (simp add: List.map_filter_def)

lemma memory_complete:
  assumes ex: "executes bm k x" and k: "1 \<le> knob_timestamp_difference k" "\<not> knob_turn_off k"
  shows "mset (memory_accesses x) \<subseteq># mset (run_log (tool x))"
    "at_rest x \<Longrightarrow> mset (memory_accesses x) = mset (run_log (tool x))"
proof -
  let ?T = "map instr_of (of_kind Traces (marks x))" and ?P = "map instr_of (of_kind Performs (marks x))"
  note inv = executes_inv [OF ex k]
  then have ok: "marks_ok (active x) (begun x) (held (run_state (tool x))) (marks x)"
    and sl: "same_log (marks x) (run_log (tool x))" by (simp_all add: execution_inv_def)
  note dk = marks_okD(5) [OF ok]
  have dT: "distinct ?T" and dP: "distinct ?P" by (simp_all add: of_kind_distinct [OF dk])
  have log: "mset (run_log (tool x)) = image_mset (the \<circ> logged x) (mset ?T)"
    using arg_cong [OF logged_all [OF dk sl], of "\<lambda>xs. mset (map the xs)"]
    by (simp add: comp_def image_mset.compositionality)
  have some: "logged x v \<noteq> None \<longleftrightarrow> v \<in> set ?T" for v
  proof -
    have "length ?T = length (run_log (tool x))" using same_log_nth(1) [OF sl] by simp
    then show ?thesis unfolding logged_def by (simp add: map_of_zip_is_None)
  qed
  have mem: "mset (memory_accesses x) = image_mset (the \<circ> logged x) (mset (filter (\<lambda>v. v \<in> set ?T) ?P))"
    by (simp only: memory_accesses_def map_filter_mset some mset_filter)
  have "mset (filter (\<lambda>v. v \<in> set ?T) ?P) \<subseteq># mset ?T"
    using dT dP subset_imp_msubset_mset_set [of "set (filter (\<lambda>v. v \<in> set ?T) ?P)" "set ?T"]
    by (subst (1 2) mset_set_set [symmetric]) auto
  then show "mset (memory_accesses x) \<subseteq># mset (run_log (tool x))"
    unfolding mem log by (rule image_mset_subseteq_mono)
  assume rest: "at_rest x"
  have "1 \<le> n \<and> n \<le> begun x p" if "marked x p n kind" for p n kind
    using that inv marks_okD(1) [OF ok]
    by (fastforce simp: marked_def key_of_def execution_inv_def)
  then have "marked x p n Traces \<longleftrightarrow> marked x p n Performs" for p n
    using inv rest unfolding execution_inv_def at_rest_def active_def by blast
  then have "set ?P = set ?T" by (intro set_eqI) (simp only: instr_of_kind)
  moreover from this have "mset ?P = mset ?T" using set_eq_iff_mset_eq_distinct [OF dP dT] by blast
  ultimately show "mset (memory_accesses x) = mset (run_log (tool x))"
    unfolding mem log by (simp add: filter_True)
qed

text \<open>Executions of a given list of calls and accesses.\<close>

datatype event_of_program = Routine call | Access int

fun do_execution :: "'b bimap_ops \<Rightarrow> event_of_program list \<Rightarrow> 'b execution \<Rightarrow> 'b execution option" where
  "do_execution bm [] x = Some x"
| "do_execution bm (Routine c # es) x =
     (if gives_back c \<and> pending x (caller c) then None
      else case do_call bm c (tool x) of
             None \<Rightarrow> None
           | Some r \<Rightarrow> do_execution bm es ((note_call c x)\<lparr>tool := r\<rparr>))"
| "do_execution bm (Access p # es) x =
     (if pending x p
      then do_execution bm es
        (x\<lparr>pending := (pending x)(p := False), marks := marks x @ [mark_now x p Performs]\<rparr>)
      else None)"

definition executed :: "'b bimap_ops \<Rightarrow> knobs \<Rightarrow> event_of_program list \<Rightarrow> 'b execution option" where
  "executed bm k es =
     (case tracer_main bm k of
        Inl e \<Rightarrow> None
      | Inr s \<Rightarrow> do_execution bm es
          \<lparr>tool = \<lparr>run_state = s, run_phase = (\<lambda>_. Free), run_log = []\<rparr>, begun = (\<lambda>_. 0),
           pending = (\<lambda>_. False), marks = []\<rparr>)"

lemma do_execution_executes: "do_execution bm es x = Some x' \<Longrightarrow> executes bm k x \<Longrightarrow> executes bm k x'"
proof (induction bm es x rule: do_execution.induct)
  case (2 bm c es x)
  from 2(2) obtain r where r: "do_call bm c (tool x) = Some r" "\<not> (gives_back c \<and> pending x (caller c))"
    "do_execution bm es ((note_call c x)\<lparr>tool := r\<rparr>) = Some x'"
    by (auto split: if_splits option.splits)
  have "execution_step bm x ((note_call c x)\<lparr>tool := r\<rparr>)"
    using do_call_step [OF r(1)] r(2) by (intro routine) auto
  with 2 r show ?case by (auto intro: execution_more)
qed (auto split: if_splits intro: execution_more access)

lemma executed_executes: "executed bm k es = Some x \<Longrightarrow> executes bm k x"
  by (auto simp: executed_def split: sum.splits intro: do_execution_executes execution_start)

lemmas execution_eval =
  executed_def mark_now_def tracing_def held_def memory_accesses_def logged_def of_kind_def
  instr_of_def List.map_filter_def

text \<open>Two threads write overlapping words, the second right after the first has its locks back.\<close>

definition writers_execute :: "event_of_program list" where
  "writers_execute =
     map Routine ([Start blank_thread 0 0, Start blank_thread 1 1] @ write_calls 0 4096) @
     [Access 0, Routine (Header 0)] @ map Routine (write_calls 1 4100) @ [Access 1]"

lemma writers_execute_run:
  "\<exists>x. executed alist_bimap default_knobs writers_execute = Some x \<and> length (memory_accesses x) = 2 \<and>
     acc_thread (memory_accesses x ! 0) = 0 \<and> acc_event (memory_accesses x ! 0) = Memory None None (Some (4096, 8)) \<and>
     acc_thread (memory_accesses x ! 1) = 1 \<and> acc_event (memory_accesses x ! 1) = Memory None None (Some (4100, 8))"
  by (simp add: writers_execute_def write_calls_def execution_eval tracer_eval)

text \<open>C4. The trace has the order of the memory: in every execution with locking on, accesses to a
  common byte are traced with times that increase in the order in which the instructions went to
  memory, however the threads and their instructions interleave; and when no instruction is in the
  middle, exactly the accesses that went to memory are traced.\<close>

theorem trace_order_is_memory_order:
  assumes "executes bm k x" and "1 \<le> knob_timestamp_difference k" and "\<not> knob_turn_off k"
  shows "sorted_wrt (\<lambda>a b. conflicting a b \<longrightarrow> acc_time a < acc_time b) (memory_accesses x) \<and>
    mset (memory_accesses x) \<subseteq># mset (run_log (tool x)) \<and>
    (at_rest x \<longrightarrow> mset (memory_accesses x) = mset (run_log (tool x)))"
  using memory_sorted [OF assms] memory_complete [OF assms] by blast

theorem trace_order_is_memory_order_witness:
  "\<exists>x. executes alist_bimap default_knobs x \<and> length (memory_accesses x) = 2 \<and>
     acc_time (memory_accesses x ! 0) < acc_time (memory_accesses x ! 1)"
proof -
  obtain x where x: "executed alist_bimap default_knobs writers_execute = Some x"
    "length (memory_accesses x) = 2"
    "acc_event (memory_accesses x ! 0) = Memory None None (Some (4096, 8))"
    "acc_event (memory_accesses x ! 1) = Memory None None (Some (4100, 8))"
    using writers_execute_run by blast
  note ex = executed_executes [OF x(1)]
  have k: "1 \<le> knob_timestamp_difference default_knobs" "\<not> knob_turn_off default_knobs"
    by (simp_all add: default_knobs_def)
  have "conflicting (memory_accesses x ! 0) (memory_accesses x ! 1)"
    unfolding conflicting_def x(3,4)
    by (simp add: in_range_def touches_def exI [of _ 4100])
  with trace_order_is_memory_order [OF ex k] x(2)
  have "acc_time (memory_accesses x ! 0) < acc_time (memory_accesses x ! 1)"
    by (simp add: sorted_wrt_iff_nth_less)
  with ex x(2) show ?thesis by blast
qed

section \<open>Without locks\<close>

text \<open>
  With \<open>-t\<close> the first thread's write is traced, then the second thread makes two, and only then
  does the first go to memory.
\<close>

definition unlocked_writers :: "event_of_program list" where
  "unlocked_writers =
     map Routine ([Start blank_thread 0 0, Start blank_thread 1 1] @ write_calls 0 4096 @
       write_calls 1 4096) @
     [Access 1] @ map Routine (write_calls 1 4096) @ [Access 1, Access 0]"

text \<open>C31. The option \<open>-t\<close> breaks this, as it is meant to: without the address locks there is an
  execution in which a write is traced two steps before one that went to memory first.\<close>

theorem unlocked_order_lost:
  "\<exists>x. executes alist_bimap (default_knobs\<lparr>knob_turn_off := True\<rparr>) x \<and>
     conflicting (memory_accesses x ! 1) (memory_accesses x ! 2) \<and>
     acc_time (memory_accesses x ! 2) < acc_time (memory_accesses x ! 1)"
proof -
  have "\<exists>x. executed alist_bimap (default_knobs\<lparr>knob_turn_off := True\<rparr>) unlocked_writers = Some x \<and>
      acc_event (memory_accesses x ! 1) = Memory None None (Some (4096, 8)) \<and>
      acc_event (memory_accesses x ! 2) = Memory None None (Some (4096, 8)) \<and>
      acc_time (memory_accesses x ! 2) < acc_time (memory_accesses x ! 1)"
    by (simp add: unlocked_writers_def write_calls_def execution_eval tracer_eval)
  then obtain x where x: "executed alist_bimap (default_knobs\<lparr>knob_turn_off := True\<rparr>) unlocked_writers = Some x"
    "acc_event (memory_accesses x ! 1) = Memory None None (Some (4096, 8))"
    "acc_event (memory_accesses x ! 2) = Memory None None (Some (4096, 8))"
    "acc_time (memory_accesses x ! 2) < acc_time (memory_accesses x ! 1)"
    by blast
  have "conflicting (memory_accesses x ! 1) (memory_accesses x ! 2)"
    unfolding conflicting_def x(2,3)
    by (simp add: in_range_def touches_def exI [of _ 4096])
  with executed_executes [OF x(1)] x(4) show ?thesis by blast
qed

end
