(* ===== verification/Line_Lengths.thy ===== *)
theory Line_Lengths
  imports Trace_Event
begin

text \<open>
  How long the lines of the trace are. The merge program \<open>src/src/merge.cpp\<close> reads them into a
  buffer of 128 characters (line 414); the pintool \<open>src/trace/trace.cpp\<close> puts no limit on them.
\<close>

section \<open>Numbers\<close>

lemma length_show_nat: "n < 10 ^ k \<Longrightarrow> 0 < k \<Longrightarrow> length (show_nat n) \<le> k"
proof (induction k arbitrary: n)
  case (Suc k)
  show ?case
  proof (cases "n < 10")
    case True
    then show ?thesis by (simp add: show_nat.simps [of n])
  next
    case False
    with Suc.prems have "n div 10 < 10 ^ k" "0 < k"
      by (auto simp: less_mult_imp_div_less mult.commute intro: gr0I)
    with Suc.IH False show ?thesis by (simp add: show_nat.simps [of n])
  qed
qed simp

lemma length_show_int:
  assumes "\<bar>i\<bar> < 10 ^ k" "0 < k"
  shows "length (show_int i) \<le> k + 1" "0 \<le> i \<Longrightarrow> length (show_int i) \<le> k"
proof -
  have n: "length (show_nat (nat \<bar>i\<bar>)) \<le> k"
    using assms by (intro length_show_nat) (simp_all add: nat_less_iff)
  then show "length (show_int i) \<le> k + 1" "0 \<le> i \<Longrightarrow> length (show_int i) \<le> k"
    by (auto simp: show_int_def abs_if split: if_splits)
qed

lemma length_show_int64: "int64_range i \<Longrightarrow> length (show_int i) \<le> 20"
  using length_show_int(1) [of i 19] by (simp add: int64_range_def abs_if)

lemma length_show_u64: "length (show_u64 w) \<le> 20"
  unfolding show_u64_def using unsigned_less [of w, where 'a = nat]
  by (intro length_show_nat) simp_all

section \<open>Entries\<close>

text \<open>An address of user space, and the size of an operand.\<close>

definition user_address :: "u64 \<Rightarrow> bool" where
  "user_address a \<longleftrightarrow> unat a < 2 ^ 47"

definition operand_size :: "u64 \<Rightarrow> bool" where
  "operand_size n \<longleftrightarrow> 0 \<le> sint n \<and> sint n < 1000"

definition name_chars :: "string \<Rightarrow> bool" where
  "name_chars name \<longleftrightarrow> NL \<notin> set name \<and> NUL \<notin> set name"

text \<open>The events whose lines fit whatever their time and thread id.\<close>

fun short_event :: "event \<Rightarrow> bool" where
  "short_event (Memory r r2 w) =
     ((case r of None \<Rightarrow> True | Some (a, n) \<Rightarrow> user_address a \<and> operand_size n) \<and>
      (case r2 of None \<Rightarrow> True | Some a \<Rightarrow> user_address a) \<and>
      (case w of None \<Rightarrow> True | Some (a, n) \<Rightarrow> user_address a \<and> operand_size n))"
| "short_event (Function_Call name sp a1 a2 a3) = False"
| "short_event (Function_Return name sp v) = (name_chars name \<and> length name \<le> 40)"
| "short_event (Change_Roi change_to) = (name_chars change_to \<and> length change_to \<le> 80)"
| "short_event ev = True"

lemma show_address: "user_address a \<Longrightarrow> length (show_u64 a) \<le> 15"
  unfolding show_u64_def user_address_def by (intro length_show_nat) simp_all

lemma show_size: "operand_size n \<Longrightarrow> length (show_int (sint n)) \<le> 3"
  using length_show_int(2) [of "sint n" 3] by (simp add: operand_size_def)

lemma show_u64_chars: "c \<in> set (show_u64 w) \<Longrightarrow> c \<noteq> TAB \<and> c \<noteq> NL \<and> c \<noteq> NUL"
  using show_nat_digits [of "unat w"] isdigit_not_sign by (auto simp: show_u64_def)

lemma length_event_text: "short_event ev \<Longrightarrow> length (event_text ev) \<le> 85"
proof (cases ev)
  case (Function_Return name sp v)
  then show "short_event ev \<Longrightarrow> ?thesis"
    using length_show_u64 [of sp] length_show_u64 [of v] by simp
next
  case (Memory r r2 w)
  assume "short_event ev"
  with Memory show ?thesis
    by (auto split: option.splits dest!: show_address show_size)
qed auto

lemma event_text_chars:
  "short_event ev \<Longrightarrow> c \<in> set (event_text ev) \<Longrightarrow> c \<noteq> NL \<and> c \<noteq> NUL"
  by (cases ev) (auto simp: name_chars_def split: option.splits dest: show_u64_chars show_int_chars)

lemma short_entry:
  assumes "int64_range t" "int64_range tid" "short_event ev"
  shows "length (entry_line (t, tid, ev)) \<le> 127" "NL \<notin> set (entry_line (t, tid, ev))"
    "NUL \<notin> set (entry_line (t, tid, ev))"
proof -
  show "length (entry_line (t, tid, ev)) \<le> 127"
    using length_show_int64 [OF assms(1)] length_show_int64 [OF assms(2)] length_event_text [OF assms(3)]
    by (simp add: entry_line_def trace_line_def)
  show "NL \<notin> set (entry_line (t, tid, ev))" "NUL \<notin> set (entry_line (t, tid, ev))"
    using event_text_chars [OF assms(3)] by (auto simp: entry_line_def trace_line_chars)
qed

lemma length_show_nat_pos: "0 < length (show_nat n)"
  using show_nat_nonempty by simp

lemma length_show_int_pos: "0 < length (show_int i)"
  using length_show_nat_pos by (simp add: show_int_def)

lemma length_show_u64_pos: "0 < length (show_u64 w)"
  using length_show_nat_pos by (simp add: show_u64_def)

lemma long_call:
  assumes "113 \<le> length name" "NL \<notin> set name"
  shows "128 \<le> length (entry_line (t, tid, Function_Call name sp a1 a2 a3))"
    "NL \<notin> set (entry_line (t, tid, Function_Call name sp a1 a2 a3))"
proof -
  have "length (entry_line (t, tid, Function_Call name sp a1 a2 a3)) =
      length (show_int t) + length (show_int tid) + length name + length (show_u64 sp) +
      length (show_u64 a1) + length (show_u64 a2) + length (show_u64 a3) + 9"
    by (simp add: entry_line_def trace_line_def)
  with assms(1) length_show_int_pos [of t] length_show_int_pos [of tid] length_show_u64_pos [of sp]
      length_show_u64_pos [of a1] length_show_u64_pos [of a2] length_show_u64_pos [of a3]
  show "128 \<le> length (entry_line (t, tid, Function_Call name sp a1 a2 a3))" by linarith
  show "NL \<notin> set (entry_line (t, tid, Function_Call name sp a1 a2 a3))"
    using assms(2) show_u64_chars [of NL] by (auto simp: entry_line_def trace_line_chars)
qed

section \<open>The property\<close>



end
