(* ===== verification/End_To_End.thy ===== *)
theory End_To_End
  imports Proper_Runs Tracer_Properties Line_Lengths
begin

text \<open>
  The two programs together: the pintool \<open>src/trace/trace.cpp\<close> writes the file, the merge
  program \<open>src/src/merge.cpp\<close> reads it and writes the accesses of all threads in one order, in
  which accesses to a common byte stand in the order in which they held its lock.
\<close>

section \<open>The text of the file\<close>

text \<open>An entry that \<open>getline\<close> reads whole: times and ids of 64 bits, at most 127 characters.\<close>

definition printable :: "entry \<Rightarrow> bool" where
  "printable e \<longleftrightarrow>
     int64_range (fst e) \<and> int64_range (fst (snd e)) \<and>
     length (entry_line e) \<le> 127 \<and> NL \<notin> set (entry_line e) \<and> NUL \<notin> set (entry_line e)"

definition file_text :: "'b tracer \<Rightarrow> string" where
  "file_text s = lines_text (map entry_line (trace_file s))"

lemma printable_short:
  "int64_range t \<Longrightarrow> int64_range tid \<Longrightarrow> short_event ev \<Longrightarrow> printable (t, tid, ev)"
  using short_entry [of t tid ev] by (simp add: printable_def)

lemma readable_entries:
  "list_all printable es \<Longrightarrow> readable (map entry_line es) (map parsed_entry es)"
  by (induction es) (auto simp: readable_def printable_def parse_entry_line)

text \<open>A line of the output: the entry's time, and its text with or without that time.\<close>

definition merged_line :: "bool \<Rightarrow> entry \<Rightarrow> int \<times> string" where
  "merged_line keep e = (fst e, kept_text keep (parsed_entry e) (entry_line e))"

definition syncs :: "entry \<Rightarrow> bool" where
  "syncs e \<longleftrightarrow> skipped (parsed_entry e)"

lemma kept_entries:
  "kept_lines keep (map parsed_entry es) (map entry_line es) =
   mset (map (merged_line keep) (filter (\<lambda>e. \<not> syncs e) es))"
  by (induction es) (auto simp: kept_line_def merged_line_def syncs_def split_beta parsed_entry_def)

lemma access_not_sync: "is_access (snd (snd e)) \<Longrightarrow> \<not> syncs e"
  by (cases e) (auto simp: syncs_def skipped_def)

text \<open>The option \<open>-t\<close> of the merge program.\<close>

definition keeps_times :: "string list \<Rightarrow> bool" where
  "keeps_times argv \<longleftrightarrow> 1 < length argv \<and> argv ! 1 = ''-t''"

text \<open>Runs of a given list of calls, each of them well used.\<close>

fun proper_calls :: "'b bimap_ops \<Rightarrow> call list \<Rightarrow> 'b run \<Rightarrow> 'b run option" where
  "proper_calls bm [] r = Some r"
| "proper_calls bm (c # cs) r =
     (if well_used c (run_state r)
      then case do_call bm c r of None \<Rightarrow> None | Some r' \<Rightarrow> proper_calls bm cs r'
      else None)"

definition proper_run :: "'b bimap_ops \<Rightarrow> knobs \<Rightarrow> call list \<Rightarrow> 'b run option" where
  "proper_run bm k cs =
     (case tracer_main bm k of
        Inl e \<Rightarrow> None
      | Inr s \<Rightarrow> proper_calls bm cs \<lparr>run_state = s, run_phase = (\<lambda>_. Free), run_log = []\<rparr>)"

lemma proper_calls_proper: "proper_calls bm cs r = Some r' \<Longrightarrow> proper bm k r \<Longrightarrow> proper bm k r'"
  by (induction cs arbitrary: r) (auto split: option.splits if_splits intro: proper_more do_call_step)

lemma proper_run_proper: "proper_run bm k cs = Some r \<Longrightarrow> proper bm k r"
  by (auto simp: proper_run_def split: sum.splits intro: proper_calls_proper proper_start)

text \<open>Two threads write overlapping words and end.\<close>

definition writers_end :: "call list" where
  "writers_end = two_writers @ [Fini 1, Fini 0]"

lemma writers_end_run:
  "\<exists>r. proper_run alist_bimap default_knobs writers_end = Some r \<and> tls (run_state r) = Map.empty \<and>
     trace_file (run_state r) =
       [(1, 0, Thread_Register), (2, 1, Thread_Register),
        (4, 1, Memory None None (Some (4100, 8))), (5, 1, Thread_Finish),
        (3, 0, Memory None None (Some (4096, 8))), (6, 0, Thread_Finish)] \<and>
     run_log r =
       [\<lparr>acc_time = 3, acc_thread = 0, acc_user = 0, acc_event = Memory None None (Some (4096, 8)),
         acc_locks = [0]\<rparr>,
        \<lparr>acc_time = 4, acc_thread = 1, acc_user = 1, acc_event = Memory None None (Some (4100, 8)),
         acc_locks = [0]\<rparr>]"
  by (simp add: proper_run_def writers_end_def two_writers_def write_calls_def tracer_eval
      fresh_uid_def may_leave_def)

section \<open>The properties\<close>

text \<open>C6. The pintool keeps the contract of the merge program: at every moment of a run in which
  ids are not reused, what is in the trace file is an input that the merge program accepts, and
  the threads that are live in it are the registered threads that are running.\<close>

theorem trace_file_accepted:
  assumes "proper bm k r" and "1 \<le> knob_timestamp_difference k" and "\<not> knob_turn_off k"
  shows "accepted no_history (map parsed_entry (trace_file (run_state r))) \<and>
    (\<forall>u. live (final_history (map parsed_entry (trace_file (run_state r)))) u \<noteq> None \<longleftrightarrow>
       (\<exists>p td. tls (run_state r) p = Some td \<and> user_threadid td = u \<and> 0 \<le> u))"
proof -
  from proper_contract [OF assms] have "in_contract (run_state r)" by simp
  then show ?thesis
    unfolding in_contract_def
  proof
    assume c: "contract {} (run_state r)"
    have "live (hist (run_state r)) u \<noteq> None" if "tls (run_state r) p = Some td" "user_threadid td = u" "0 \<le> u"
      for u p td
    proof -
      have "buffer_ok (live (hist (run_state r))) td"
        using c that(1) unfolding contract_def cohort_def by simp
      with that(2,3) show ?thesis by (auto simp: buffer_ok_def)
    qed
    with c show ?thesis unfolding contract_def cohort_def parsed_file_def by auto
  qed (simp add: parsed_file_def)
qed

theorem trace_file_accepted_witness:
  "\<exists>r. proper alist_bimap default_knobs r \<and> length (trace_file (run_state r)) = 6 \<and>
     accepted no_history (map parsed_entry (trace_file (run_state r))) \<and>
     live (final_history (map parsed_entry (trace_file (run_state r)))) 1 = None"
proof -
  obtain r where r: "proper_run alist_bimap default_knobs writers_end = Some r"
    "tls (run_state r) = Map.empty" "length (trace_file (run_state r)) = 6"
    using writers_end_run by force
  note pr = proper_run_proper [OF r(1)]
  have "1 \<le> knob_timestamp_difference default_knobs" "\<not> knob_turn_off default_knobs"
    by (simp_all add: default_knobs_def)
  from trace_file_accepted [OF pr this] r(2)
  have "accepted no_history (map parsed_entry (trace_file (run_state r)))"
    "live (final_history (map parsed_entry (trace_file (run_state r)))) 1 = None"
    by auto
  with pr r(3) show ?thesis by blast
qed

text \<open>The two programs together: when all threads of such a run have ended, the merge of the trace
  file neither fails nor loses anything: its output is the entries of the file, sync entries left
  out, in the order of their times; every traced access is in it, and of two accesses to a common
  byte the one that held the byte's lock first stands first.\<close>

theorem trace_then_merge:
  assumes "proper bm k r" and "1 \<le> knob_timestamp_difference k" and "\<not> knob_turn_off k"
    and "tls (run_state r) = Map.empty" and "list_all printable (trace_file (run_state r))"
    and "heap_choice pick"
  shows "\<exists>es. merge_program pick argv (file_text (run_state r)) = Inr (lines_text (map snd es)) \<and>
    sorted (map fst es) \<and>
    mset es = mset (map (merged_line (keeps_times argv))
      (filter (\<lambda>e. \<not> syncs e) (trace_file (run_state r)))) \<and>
    (\<forall>a \<in> set (run_log r). merged_line (keeps_times argv) (access_entry a) \<in> set es) \<and>
    (\<forall>i j x y. i < j \<longrightarrow> j < length (run_log r) \<longrightarrow> conflicting (run_log r ! i) (run_log r ! j) \<longrightarrow>
       x < length es \<longrightarrow> y < length es \<longrightarrow>
       es ! x = merged_line (keeps_times argv) (access_entry (run_log r ! i)) \<longrightarrow>
       es ! y = merged_line (keeps_times argv) (access_entry (run_log r ! j)) \<longrightarrow> x < y)"
proof -
  let ?s = "run_state r" and ?k = "keeps_times argv"
  have ic: "in_contract ?s" using proper_contract [OF assms(1-3)] by simp
  have re: "reachable bm k r" using assms(1) by (rule proper_reachable)
  have acc: "accepted no_history (parsed_file ?s)"
    using ic by (auto simp: in_contract_def contract_def)
  have fin: "live (hist ?s) = Map.empty"
    using ic assms(4) by (auto simp: in_contract_def contract_def cohort_def)
  obtain es where es: "merge_program pick argv (file_text ?s) = Inr (lines_text (map snd es))"
    "sorted (map fst es)"
    "mset es = kept_lines ?k (parsed_file ?s) (map entry_line (trace_file ?s))"
    using heap_choice.merge_main_ok [OF assms(6) readableD [OF readable_entries [OF assms(5)]],
        folded parsed_file_def, OF acc fin, of initial_capacity ?k]
    by (auto simp: merge_program_def file_text_def keeps_times_def initial_capacity_def)
  have m: "mset es = mset (map (merged_line ?k) (filter (\<lambda>e. \<not> syncs e) (trace_file ?s)))"
    unfolding es(3) parsed_file_def by (rule kept_entries)
  have all: "merged_line ?k (access_entry a) \<in> set es" if a: "a \<in> set (run_log r)" for a
  proof -
    have "accesses (trace_file ?s) = mset (map access_entry (run_log r))"
      using reachable_trace [OF re] assms(4) by (simp add: traced_def)
    then have "access_entry a \<in># accesses (trace_file ?s)" using a by simp
    then have "access_entry a \<in> set (filter (\<lambda>e. \<not> syncs e) (trace_file ?s))"
      using access_not_sync by (auto simp: accesses_def)
    then have "merged_line ?k (access_entry a) \<in># mset es" unfolding m by auto
    then show ?thesis by simp
  qed
  have ord: "x < y" if "i < j" "j < length (run_log r)" "conflicting (run_log r ! i) (run_log r ! j)"
    "x < length es" "y < length es" "es ! x = merged_line ?k (access_entry (run_log r ! i))"
    "es ! y = merged_line ?k (access_entry (run_log r ! j))" for i j x y
  proof -
    have "fst (es ! x) < fst (es ! y)"
      using conflict_times [OF re _ assms(3) that(1-3)] assms(2) that(6,7)
      by (simp add: merged_line_def access_entry_def)
    then show ?thesis
      using es(2) that(4,5) sorted_nth_mono [of "map fst es" y x] by (cases "x < y") auto
  qed
  from es(1,2) m all ord show ?thesis by blast
qed

theorem trace_then_merge_witness:
  "\<exists>r es. proper alist_bimap default_knobs r \<and>
     merge_program first_min [''merge''] (file_text (run_state r)) = Inr (lines_text (map snd es)) \<and>
     sorted (map fst es) \<and> length es = 6 \<and>
     merged_line False (3, 0, Memory None None (Some (4096, 8))) \<in> set es"
proof -
  obtain r where r: "proper_run alist_bimap default_knobs writers_end = Some r"
    "tls (run_state r) = Map.empty"
    "trace_file (run_state r) =
       [(1, 0, Thread_Register), (2, 1, Thread_Register),
        (4, 1, Memory None None (Some (4100, 8))), (5, 1, Thread_Finish),
        (3, 0, Memory None None (Some (4096, 8))), (6, 0, Thread_Finish)]"
    "run_log r =
       [\<lparr>acc_time = 3, acc_thread = 0, acc_user = 0, acc_event = Memory None None (Some (4096, 8)),
         acc_locks = [0]\<rparr>,
        \<lparr>acc_time = 4, acc_thread = 1, acc_user = 1, acc_event = Memory None None (Some (4100, 8)),
         acc_locks = [0]\<rparr>]"
    using writers_end_run by blast
  note pr = proper_run_proper [OF r(1)]
  have k: "1 \<le> knob_timestamp_difference default_knobs" "\<not> knob_turn_off default_knobs"
    by (simp_all add: default_knobs_def)
  have "list_all printable (trace_file (run_state r))"
    by (simp add: r(3) printable_short int64_range_def user_address_def operand_size_def)
  from trace_then_merge [OF pr k r(2) this fm.heap_choice_axioms, of "[''merge'']"]
  obtain es where es: "merge_program first_min [''merge''] (file_text (run_state r)) =
      Inr (lines_text (map snd es))" "sorted (map fst es)"
    "mset es = mset (map (merged_line False) (filter (\<lambda>e. \<not> syncs e) (trace_file (run_state r))))"
    "\<forall>a \<in> set (run_log r). merged_line False (access_entry a) \<in> set es"
    by (auto simp: keeps_times_def)
  have "size (mset es) = 6"
    by (simp add: es(3) r(3) syncs_def skipped_def)
  moreover have "merged_line False (3, 0, Memory None None (Some (4096, 8))) \<in> set es"
    using es(4) by (simp add: r(4) access_entry_def)
  ultimately show ?thesis using pr es(1,2) by (intro exI [of _ r] exI [of _ es]) simp
qed

section \<open>A thread that starts behind the others\<close>

text \<open>
  With \<open>register_threads\<close>, a thread starts at timestamp 0. Where the only other thread that still
  knows the greatest timestamp ends unregistered, the next entry goes back in time.
\<close>

definition late_start :: "call list" where
  "late_start =
     [Start blank_thread 0 0, Start blank_thread 0 1, Register 0 0, Fini 0,
      Start blank_thread 0 2, Fini 1, Register 2 1, Fini 2]"

text \<open>C37. The condition on the end of unregistered threads is needed: a run in which an unregistered
  thread ends while the other thread has only started writes a trace file whose times go back, and
  which breaks the contract of the merge program.\<close>

theorem late_start_goes_back:
  "\<exists>r. reachable alist_bimap (default_knobs\<lparr>knob_register_threads := True\<rparr>) r \<and>
     trace_file (run_state r) =
       [(1, 0, Thread_Register), (2, 0, Thread_Finish), (1, 1, Thread_Register),
        (2, 1, Thread_Finish)] \<and>
     \<not> accepted no_history (map parsed_entry (trace_file (run_state r)))"
proof -
  have "\<exists>r. do_run alist_bimap (default_knobs\<lparr>knob_register_threads := True\<rparr>) late_start = Some r \<and>
     trace_file (run_state r) =
       [(1, 0, Thread_Register), (2, 0, Thread_Finish), (1, 1, Thread_Register),
        (2, 1, Thread_Finish)]"
    by (simp add: do_run_def late_start_def tracer_eval)
  then obtain r where r: "do_run alist_bimap (default_knobs\<lparr>knob_register_threads := True\<rparr>) late_start = Some r"
    "trace_file (run_state r) =
       [(1, 0, Thread_Register), (2, 0, Thread_Finish), (1, 1, Thread_Register),
        (2, 1, Thread_Finish)]"
    by blast
  have "\<not> accepted no_history (map parsed_entry (trace_file (run_state r)))"
    by (simp add: r(2) no_history_def line_ok_def advance_def)
  with do_run_reachable [OF r(1)] r(2) show ?thesis by blast
qed

end
