(* ===== verification/Output_Bounds.thy ===== *)
theory Output_Bounds
  imports End_To_End
begin

text \<open>
  How large the numbers of the tracer \<open>src/trace/trace.cpp\<close> grow: a call moves the greatest timestamp
  and the length of a buffer by one at most, so that after \<open>n\<close> calls none is beyond \<open>n\<close>. Together
  with limits on the operands and names of the program, every line of the file then fits the buffer
  of the merge program.
\<close>

section \<open>What fits\<close>

definition in_bound :: "int \<Rightarrow> int \<Rightarrow> bool" where
  "in_bound m t \<longleftrightarrow> 0 \<le> t \<and> t \<le> m"

definition short_text :: "event \<Rightarrow> bool" where
  "short_text ev \<longleftrightarrow>
     length (event_text ev) \<le> 85 \<and> NL \<notin> set (event_text ev) \<and> NUL \<notin> set (event_text ev)"

definition entry_fits :: "int \<Rightarrow> entry \<Rightarrow> bool" where
  "entry_fits m e \<longleftrightarrow> in_bound m (fst e) \<and> int64_range (fst (snd e)) \<and> short_text (snd (snd e)) \<and>
     (snd (snd e) = Thread_Sync \<longrightarrow> 0 \<le> fst (snd e))"

definition thread_fits :: "int \<Rightarrow> int \<Rightarrow> thread_data \<Rightarrow> bool" where
  "thread_fits m n td \<longleftrightarrow>
     in_bound m (lamport_timestamp td) \<and> in_bound n (buffered_entries td) \<and>
     int64_range (user_threadid td) \<and> list_all (entry_fits m) (trace_stream td)"

text \<open>Times up to \<open>m\<close>, buffers up to \<open>n\<close>.\<close>

definition fits :: "int \<Rightarrow> int \<Rightarrow> 'b tracer \<Rightarrow> bool" where
  "fits m n s \<longleftrightarrow>
     0 \<le> m \<and> list_all (entry_fits m) (trace_file s) \<and>
     (\<forall>i. in_bound m (lock_time (address_lock_bank s i))) \<and>
     (\<forall>p td. tls s p = Some td \<longrightarrow> thread_fits m n td)"

lemma in_bound_mono: "in_bound m t \<Longrightarrow> m \<le> m' \<Longrightarrow> in_bound m' t"
  by (simp add: in_bound_def)

lemma entry_fits_mono: "entry_fits m e \<Longrightarrow> m \<le> m' \<Longrightarrow> entry_fits m' e"
  by (simp add: entry_fits_def in_bound_def)

lemma entries_fit_mono: "list_all (entry_fits m) es \<Longrightarrow> m \<le> m' \<Longrightarrow> list_all (entry_fits m') es"
  by (auto simp: list_all_iff entry_fits_mono)

lemma thread_fits_mono: "thread_fits m n td \<Longrightarrow> m \<le> m' \<Longrightarrow> n \<le> n' \<Longrightarrow> thread_fits m' n' td"
  by (auto simp: thread_fits_def in_bound_mono entries_fit_mono)

lemma fits_mono: "fits m n s \<Longrightarrow> m \<le> m' \<Longrightarrow> n \<le> n' \<Longrightarrow> fits m' n' s"
  unfolding fits_def by (meson in_bound_mono entries_fit_mono thread_fits_mono order_trans)

lemma fits_thread: "fits m n s \<Longrightarrow> tls s p = Some td \<Longrightarrow> thread_fits m n td"
  by (simp add: fits_def)

lemma fits_set_tls: "fits m n s \<Longrightarrow> thread_fits m n td \<Longrightarrow> fits m n (set_tls p td s)"
  by (simp add: fits_def set_tls_def)

lemma fits_cong:
  "trace_file s' = trace_file s \<Longrightarrow> address_lock_bank s' = address_lock_bank s \<Longrightarrow> tls s' = tls s \<Longrightarrow>
   fits m n s' \<longleftrightarrow> fits m n s"
  by (simp add: fits_def)

lemma write_file_fits:
  "write_file es s = Inr s' \<Longrightarrow> fits m n s \<Longrightarrow> list_all (entry_fits m) es \<Longrightarrow> fits m n s'"
  by (auto simp: write_file_Inr fits_def)

lemma short_text_simple [simp]: "short_text Thread_Sync" "short_text Thread_Register"
    "short_text Thread_Finish" "short_text Context_Change"
  by (simp_all add: short_text_def)

text \<open>An event that a thread traces of its own: sync entries are written by others, for registered
  threads only.\<close>

definition own_event :: "event \<Rightarrow> bool" where
  "own_event ev \<longleftrightarrow> short_text ev \<and> ev \<noteq> Thread_Sync"

lemma own_event_simps [simp]: "own_event Thread_Register" "own_event Thread_Finish" "own_event Context_Change"
  "own_event (Memory r r2 w) = short_text (Memory r r2 w)"
  "own_event (Function_Call name sp a b c) = short_text (Function_Call name sp a b c)"
  "own_event (Function_Return name sp v) = short_text (Function_Return name sp v)"
  "own_event (Change_Roi name) = short_text (Change_Roi name)"
  by (simp_all add: own_event_def)

section \<open>Buffering\<close>

lemma sync_thread_fits:
  assumes "thread_fits m n td" "in_bound m t"
  shows "list_all (entry_fits m) (trace_stream (sync_thread t td))"
    "int64_range (user_threadid (sync_thread t td))"
    "\<not> 0 < buffered_entries (sync_thread t td) \<Longrightarrow> thread_fits m n (sync_thread t td)"
  using assms by (auto simp: sync_thread_def thread_fits_def entry_fits_def in_bound_def)

lemma attempt_flush_one_fits:
  assumes run: "attempt_flush_one bm t p s = Inr s'" and f: "fits m n s" and t: "in_bound m t" and n: "0 \<le> n"
  shows "fits m n s'"
proof (cases "p \<in> set (pin_threadid_set s)")
  case False
  with run f show ?thesis by (simp add: attempt_flush_one_def)
next
  case True
  with run obtain td where td: "tls s p = Some td"
    by (auto simp: attempt_flush_one_def andThen_Inr get_tls_Inr)
  note tf = fits_thread [OF f td]
  let ?td = "sync_thread t td"
  consider "s' = s" | "s' = set_tls p ?td s" "\<not> 0 < buffered_entries ?td"
    | s1 where "write_file (trace_stream ?td) s = Inr s1"
      "s' = set_tls p (?td\<lparr>buffered_entries := 0, trace_stream := []\<rparr>)
        (s1\<lparr>last_flushed := bm_insert bm p t (bm_erase bm p (last_flushed s1))\<rparr>)"
    using run td True by (auto simp: attempt_flush_one_def andThen_Inr Let_def split: if_splits)
  then show ?thesis
  proof cases
    case 2
    then show ?thesis using fits_set_tls [OF f sync_thread_fits(3) [OF tf t]] by simp
  next
    case 3
    then have "fits m n s1" using f sync_thread_fits(1) [OF tf t] by (blast intro: write_file_fits)
    then have "fits m n (s1\<lparr>last_flushed := bm_insert bm p t (bm_erase bm p (last_flushed s1))\<rparr>)"
      by (simp add: fits_def)
    then show ?thesis unfolding 3(2)
      by (rule fits_set_tls)
        (use tf t n sync_thread_fits(2) [OF tf t] in \<open>simp add: thread_fits_def in_bound_def\<close>)
  qed (use f in simp)
qed

lemma attempt_flush_others_fits:
  "attempt_flush_others bm t ps s = Inr s' \<Longrightarrow> fits m n s \<Longrightarrow> in_bound m t \<Longrightarrow> 0 \<le> n \<Longrightarrow> fits m n s'"
  by (induction ps arbitrary: s) (auto simp: andThen_Inr dest: attempt_flush_one_fits)

lemma check_last_flushed_fits:
  assumes "check_last_flushed bm t s = Inr (ps, s')" shows "fits m n s' \<longleftrightarrow> fits m n s"
  using assms
  by (auto simp: check_last_flushed_def Let_def fits_def split: if_splits list.splits prod.splits)

lemma touch_buffer_fits:
  assumes run: "touch_buffer bm p t force s = Inr s'" and f: "fits m n s" and t: "in_bound m t"
    and n: "0 \<le> n"
  shows "fits m (n + 1) s'"
proof -
  from run obtain td where td: "tls s p = Some td" by (auto simp: touch_buffer_def andThen_Inr get_tls_Inr)
  let ?td = "td\<lparr>lamport_timestamp := t, flush_others := [], buffered_entries := buffered_entries td + 1\<rparr>"
  note tf = fits_thread [OF f td]
  have f': "fits m (n + 1) s" using f by (rule fits_mono) simp_all
  have td': "thread_fits m (n + 1) ?td" using tf t by (auto simp: thread_fits_def in_bound_def)
  have flushed: "fits m (n + 1) s'"
    if "attempt_flush_others bm t ps u = Inr s' \<or> s' = u" "fits m (n + 1) u" for ps u
    using that t n attempt_flush_others_fits [of bm t ps u s' m "n + 1"] by auto
  show ?thesis
  proof (cases "accesses_flush s \<le> buffered_entries td + 1 \<or> force")
    case True
    with run td obtain s1 ps s2 where w: "write_file (trace_stream td) s = Inr s1"
      and c: "check_last_flushed bm t (s1\<lparr>last_flushed :=
          bm_insert bm p t (bm_erase bm p (last_flushed s1))\<rparr>) = Inr (ps, s2)"
      and rest: "attempt_flush_others bm t ps
          (set_tls p (?td\<lparr>buffered_entries := 0, trace_stream := [], flush_others := ps\<rparr>) s2) = Inr s' \<or>
        s' = set_tls p (?td\<lparr>buffered_entries := 0, trace_stream := [], flush_others := ps\<rparr>) s2"
      by (auto simp: touch_buffer_def andThen_Inr Let_def split: if_splits)
    have "fits m (n + 1) s1"
      using w f' tf by (auto simp: thread_fits_def intro: write_file_fits)
    then have "fits m (n + 1)
        (s1\<lparr>last_flushed := bm_insert bm p t (bm_erase bm p (last_flushed s1))\<rparr>)"
      by (simp add: fits_def)
    then have "fits m (n + 1) s2" using check_last_flushed_fits [OF c] by blast
    then have "fits m (n + 1)
        (set_tls p (?td\<lparr>buffered_entries := 0, trace_stream := [], flush_others := ps\<rparr>) s2)"
      by (rule fits_set_tls) (use td' n in \<open>simp add: thread_fits_def in_bound_def\<close>)
    with rest show ?thesis by (rule flushed)
  next
    case False
    with run td have "s' = set_tls p ?td s"
      by (auto simp: touch_buffer_def andThen_Inr Let_def)
    then show ?thesis using fits_set_tls [OF f' td'] by simp
  qed
qed

section \<open>All threads\<close>

lemma max_thread_time_fits:
  "max_thread_time s ps t0 = Inr t \<Longrightarrow> fits m n s \<Longrightarrow> in_bound m t0 \<Longrightarrow> in_bound m t"
proof (induction ps arbitrary: t0)
  case (Cons p ps)
  from Cons.prems(1) obtain td where td: "tls s p = Some td"
    and r: "max_thread_time s ps (if t0 < lamport_timestamp td then lamport_timestamp td else t0) = Inr t"
    by (auto simp: andThen_Inr get_tls_Inr)
  from fits_thread [OF Cons.prems(2) td] Cons.prems(3)
  have "in_bound m (if t0 < lamport_timestamp td then lamport_timestamp td else t0)"
    by (simp add: thread_fits_def)
  with r Cons.prems(2) show ?case by (rule Cons.IH)
qed simp

lemma acquire_all_fits: "acquire_all_thread_locks s = Inr t \<Longrightarrow> fits m n s \<Longrightarrow> in_bound m t"
  unfolding acquire_all_thread_locks_def
  by (erule max_thread_time_fits) (auto simp: fits_def in_bound_def)

lemma set_thread_times_fits:
  "set_thread_times ps t s = Inr s' \<Longrightarrow> fits m n s \<Longrightarrow> in_bound m t \<Longrightarrow> fits m n s'"
proof (induction ps arbitrary: s)
  case (Cons p ps)
  from Cons.prems(1) obtain td where td: "tls s p = Some td"
    and r: "set_thread_times ps t (set_tls p (td\<lparr>lamport_timestamp := t\<rparr>) s) = Inr s'"
    by (auto simp: andThen_Inr get_tls_Inr)
  from fits_thread [OF Cons.prems(2) td] Cons.prems(3)
  have "thread_fits m n (td\<lparr>lamport_timestamp := t\<rparr>)" by (simp add: thread_fits_def)
  then show ?case by (rule Cons.IH [OF r fits_set_tls [OF Cons.prems(2)] Cons.prems(3)])
qed simp

lemma fits_bank:
  "fits m n s \<Longrightarrow> (\<And>i. in_bound m (lock_time (bank i))) \<Longrightarrow> fits m n (s\<lparr>address_lock_bank := bank\<rparr>)"
  by (simp add: fits_def)

lemma release_fits:
  assumes "release_address_locks p s = Inr s'" "fits m n s"
  shows "fits m n s'"
  using assms(1)
proof (rule release_result)
  fix td assume td: "tls s p = Some td"
    and s': "s' = set_tls p (td\<lparr>index_lock_list := []\<rparr>) (s\<lparr>address_lock_bank :=
      freed (index_lock_list td) (lamport_timestamp td) (address_lock_bank s)\<rparr>)"
  note tf = fits_thread [OF assms(2) td]
  show ?thesis unfolding s'
    by (intro fits_set_tls fits_bank assms(2))
      (use tf assms(2) in \<open>auto simp: freed_def fits_def thread_fits_def\<close>)
qed

lemma release_then_fits:
  "andThen (release_address_locks p s) f = Inr s' \<Longrightarrow> fits m n s \<Longrightarrow>
   (\<And>s1. fits m n s1 \<Longrightarrow> f s1 = Inr s' \<Longrightarrow> fits m' n' s') \<Longrightarrow> fits m' n' s'"
  by (auto simp: andThen_Inr dest: release_fits)

text \<open>An entry at the next time is appended to the thread's buffer.\<close>

lemma append_fits:
  assumes f: "fits m n s" and td: "tls s p = Some td" and t: "in_bound (m + 1) t" and ev: "own_event ev"
    and td': "trace_stream td' = trace_stream td @ [(t, user_threadid td, ev)]"
      "user_threadid td' = user_threadid td" "buffered_entries td' = buffered_entries td"
      "in_bound (m + 1) (lamport_timestamp td')"
  shows "fits (m + 1) n (set_tls p td' s)"
proof (rule fits_set_tls)
  show "fits (m + 1) n s" using f by (rule fits_mono) simp_all
  have "thread_fits (m + 1) n td" using fits_thread [OF f td] by (rule thread_fits_mono) simp_all
  with td' t ev show "thread_fits (m + 1) n td'" by (simp add: thread_fits_def entry_fits_def own_event_def)
qed

lemma in_bound_Suc: "in_bound m t \<Longrightarrow> in_bound (m + 1) t" "in_bound m t \<Longrightarrow> in_bound (m + 1) (t + 1)"
  by (simp_all add: in_bound_def)

lemma touch_entry_fits:
  assumes f: "fits m n s" and td: "tls s p = Some td" and t: "in_bound (m + 1) t" and ev: "own_event ev"
    and td': "trace_stream td' = trace_stream td @ [(t, user_threadid td, ev)]"
      "user_threadid td' = user_threadid td" "buffered_entries td' = buffered_entries td"
      "in_bound (m + 1) (lamport_timestamp td')"
    and run: "touch_buffer bm p t force (set_tls p td' s) = Inr s'"
  shows "fits (m + 1) (n + 1) s'"
proof -
  have "0 \<le> n" using fits_thread [OF f td] by (simp add: thread_fits_def in_bound_def)
  with touch_buffer_fits [OF run append_fits [OF f td t ev td'] t] show ?thesis by simp
qed

lemma synchronised_fits:
  assumes run: "trace_synchronised bm p ev s = Inr s'" and f: "fits m n s" and ev: "own_event ev"
  shows "fits (m + 1) (n + 1) s'"
proof -
  from run obtain t td s1 where t: "acquire_all_thread_locks s = Inr t" and td: "tls s p = Some td"
    and touch: "touch_buffer bm p (t + 1) True
      (set_tls p (td\<lparr>trace_stream := trace_stream td @ [(t + 1, user_threadid td, ev)]\<rparr>) s) = Inr s1"
    and rel: "release_all_thread_locks (t + 1) s1 = Inr s'"
    by (auto simp: trace_synchronised_def andThen_Inr get_tls_Inr Let_def)
  note b = in_bound_Suc [OF acquire_all_fits [OF t f]]
  have "fits (m + 1) (n + 1) s1"
    by (rule touch_entry_fits [OF f td b(2) ev _ _ _ _ touch])
      (use fits_thread [OF f td] in \<open>auto simp: thread_fits_def intro: in_bound_Suc\<close>)
  then show ?thesis
    using set_thread_times_fits b(2) rel unfolding release_all_thread_locks_def by blast
qed

lemma function_fits:
  assumes run: "trace_function bm p ev s = Inr s'" and f: "fits m n s" and ev: "own_event ev"
  shows "fits (m + 1) (n + 1) s'"
proof -
  from run obtain td t s1 where td: "tls s p = Some td"
    and t: "(if 0 \<le> user_threadid td then Inr (lamport_timestamp td) else acquire_all_thread_locks s) = Inr t"
    and touch: "touch_buffer bm p (t + 1) (\<not> 0 \<le> user_threadid td)
      (set_tls p (td\<lparr>lamport_timestamp := t + 1,
         trace_stream := trace_stream td @ [(t + 1, user_threadid td, ev)]\<rparr>) s) = Inr s1"
    and rel: "(if 0 \<le> user_threadid td then Inr s1 else release_all_thread_locks (t + 1) s1) = Inr s'"
    by (auto simp: trace_function_def andThen_Inr get_tls_Inr Let_def)
  have "in_bound m t"
    using t acquire_all_fits [of s t m n] f fits_thread [OF f td]
    by (auto simp: thread_fits_def split: if_splits)
  note b = in_bound_Suc [OF this]
  have "fits (m + 1) (n + 1) s1"
    by (rule touch_entry_fits [OF f td b(2) ev _ _ _ _ touch]) (use b in simp_all)
  with rel show ?thesis
    using set_thread_times_fits [OF _ _ b(2)] unfolding release_all_thread_locks_def
    by (auto split: if_splits)
qed

section \<open>Calls\<close>

text \<open>What is asked of the program: addresses of user space, operands below 1000 bytes, 64-bit ids,
  names that leave room for the rest of their line.\<close>

fun call_fits :: "call \<Rightarrow> bool" where
  "call_fits (Read1 p a n) = (user_address a \<and> operand_size n)"
| "call_fits (Read2 p a) = user_address a"
| "call_fits (Write p a n) = (user_address a \<and> operand_size n)"
| "call_fits (Call name p sp a b c) = short_text (Function_Call name sp a b c)"
| "call_fits (Return name p sp v) = short_text (Function_Return name sp v)"
| "call_fits (Roi p b name) = short_text (Change_Roi name)"
| "call_fits (Register p uid) = int64_range uid"
| "call_fits (Start g uid p) = int64_range uid"
| "call_fits c = True"

definition operands_fit :: "thread_data \<Rightarrow> bool" where
  "operands_fit td \<longleftrightarrow>
     (is_read td \<longrightarrow> user_address (read1_address td) \<and> operand_size (read_size td)) \<and>
     (is_read2 td \<longrightarrow> user_address (read2_address td)) \<and>
     (is_write td \<longrightarrow> user_address (write_address td) \<and> operand_size (write_size td))"

lemma short_event_text: "short_event ev \<Longrightarrow> short_text ev"
  using length_event_text [of ev] event_text_chars [of ev] by (auto simp: short_text_def)

lemma operands_short: "operands_fit td \<Longrightarrow> own_event (access_event td)"
  unfolding own_event_def by (intro conjI short_event_text) (simp_all add: operands_fit_def access_event_def)

text \<open>Between the header and the footer of an instruction.\<close>

definition middle_fits :: "int \<Rightarrow> phase \<Rightarrow> thread_data \<Rightarrow> bool" where
  "middle_fits m ph td \<longleftrightarrow>
     (ph \<noteq> Free \<longrightarrow> trace_this_access td \<longrightarrow>
        operands_fit td \<and> (ph = Locked \<longrightarrow> in_bound m (max_locked_timestamp td)))"

lemma middle_fits_core:
  assumes "core td' = core td" and m: "middle_fits m ph td" "m \<le> m'"
  shows "middle_fits m' ph td'"
  using m core_fields [OF assms(1)] by (auto simp: middle_fits_def operands_fit_def in_bound_def)

lemma middle_free [simp]: "middle_fits m Free td"
  by (simp add: middle_fits_def)

lemma lock_all_fits:
  "lock_all p ixs t0 s = Inr (t, s') \<Longrightarrow> fits m n s \<Longrightarrow> in_bound m t0 \<Longrightarrow> in_bound m t \<and> fits m n s'"
proof (induction ixs arbitrary: t0 s)
  case (Cons idx ixs)
  let ?s = "s\<lparr>address_lock_bank := (address_lock_bank s)
         (idx := (address_lock_bank s idx)\<lparr>lock_owner := Some p\<rparr>)\<rparr>"
  from Cons.prems(1) have run: "lock_all p ixs (if lock_time (address_lock_bank s idx) < t0 then t0
          else lock_time (address_lock_bank s idx)) ?s = Inr (t, s')"
    by (auto simp: andThen_Inr lock_address_def split: if_splits)
  have "fits m n ?s" using Cons.prems(2) by (intro fits_bank) (auto simp: fits_def)
  moreover have "in_bound m (if lock_time (address_lock_bank s idx) < t0 then t0
      else lock_time (address_lock_bank s idx))"
    using Cons.prems by (simp add: fits_def)
  ultimately show ?case by (rule Cons.IH [OF run])
qed simp

lemma header_fits:
  assumes run: "memory_access_header_a p s = Inr s'" and f: "fits m n s"
  shows "fits m n s'" "tls s' p = Some td \<Longrightarrow> middle_fits m Headed td"
proof -
  from run obtain s1 td0 where r: "release_address_locks p s = Inr s1" and td: "tls s1 p = Some td0"
    and s': "s' = set_tls p (td0\<lparr>trace_this_access := (in_roi s1 \<or> \<not> require_roi s1) \<and> 0 \<le> user_threadid td0,
        is_read := False, is_read2 := False, is_write := False\<rparr>) s1"
    by (auto simp: memory_access_header_a_def andThen_Inr get_tls_Inr Let_def)
  note f1 = release_fits [OF r f]
  show "fits m n s'" unfolding s'
    by (rule fits_set_tls [OF f1]) (use fits_thread [OF f1 td] in \<open>simp add: thread_fits_def\<close>)
  show "middle_fits m Headed td" if "tls s' p = Some td"
    using that by (auto simp: s' middle_fits_def operands_fit_def)
qed

text \<open>The routines that only note operands.\<close>

lemma operands_call_fits:
  assumes run: "run_call bm c s = Inr s'" and f: "fits m n s" and c: "call_fits c"
    and ph: "next_phase c (ph (caller c)) = Some x"
    and mid: "\<And>q td. tls s q = Some td \<Longrightarrow> middle_fits m (ph q) td"
    and kind: "(\<exists>p a k. c = Read1 p a k) \<or> (\<exists>p a. c = Read2 p a) \<or> (\<exists>p a k. c = Write p a k) \<or>
      (\<exists>p r. c = Cas_Footer p r)"
  shows "fits m n s'" "tls s' (caller c) = Some td \<Longrightarrow> middle_fits m x td"
proof -
  from kind run obtain td0 where td0: "tls s (caller c) = Some td0"
    by (auto simp: memory_access_read1_a_def memory_access_read2_a_def memory_access_write_a_def
        memory_access_CAS_footer_a_def andThen_Inr get_tls_Inr)
  note tf = fits_thread [OF f td0]
  have "(s' = s \<or> (\<exists>td1. s' = set_tls (caller c) td1 s \<and> thread_fits m n td1)) \<and>
      (\<forall>td. tls s' (caller c) = Some td \<longrightarrow> middle_fits m x td)"
  proof (cases c)
    case (Read1 p a k)
    let ?td = "td0\<lparr>is_read := True, read1_address := a, read_size := k\<rparr>"
    have e: "s' = (if trace_this_access td0 then set_tls p ?td s else s)"
      using run td0 Read1 by (auto simp: memory_access_read1_a_def andThen_Inr)
    have t: "thread_fits m n ?td" using tf by (simp add: thread_fits_def)
    have "middle_fits m x td0" "trace_this_access td0 \<Longrightarrow> middle_fits m x ?td"
      using mid [OF td0] ph c Read1
      by (simp_all add: middle_fits_def operands_fit_def split: if_splits)
    with e t td0 Read1 show ?thesis by (cases "trace_this_access td0") auto
  next
    case (Read2 p a)
    let ?td = "td0\<lparr>is_read2 := True, read2_address := a\<rparr>"
    have e: "s' = (if trace_this_access td0 then set_tls p ?td s else s)"
      using run td0 Read2 by (auto simp: memory_access_read2_a_def andThen_Inr)
    have t: "thread_fits m n ?td" using tf by (simp add: thread_fits_def)
    have "middle_fits m x td0" "trace_this_access td0 \<Longrightarrow> middle_fits m x ?td"
      using mid [OF td0] ph c Read2
      by (simp_all add: middle_fits_def operands_fit_def split: if_splits)
    with e t td0 Read2 show ?thesis by (cases "trace_this_access td0") auto
  next
    case (Write p a k)
    let ?td = "td0\<lparr>is_write := True, write_address := a, write_size := k\<rparr>"
    have e: "s' = (if trace_this_access td0 then set_tls p ?td s else s)"
      using run td0 Write by (auto simp: memory_access_write_a_def andThen_Inr)
    have t: "thread_fits m n ?td" using tf by (simp add: thread_fits_def)
    have "middle_fits m x td0" "trace_this_access td0 \<Longrightarrow> middle_fits m x ?td"
      using mid [OF td0] ph c Write
      by (simp_all add: middle_fits_def operands_fit_def split: if_splits)
    with e t td0 Write show ?thesis by (cases "trace_this_access td0") auto
  next
    case (Cas_Footer p r)
    let ?td = "td0\<lparr>is_write := False\<rparr>"
    have e: "s' = s \<or> s' = set_tls p ?td s"
      using run td0 Cas_Footer
      by (auto simp: memory_access_CAS_footer_a_def Let_def andThen_Inr split: if_splits)
    have t: "thread_fits m n ?td" using tf by (simp add: thread_fits_def)
    have "middle_fits m x td0" "middle_fits m x ?td"
      using mid [OF td0] ph Cas_Footer
      by (simp_all add: middle_fits_def operands_fit_def split: if_splits)
    with e t td0 Cas_Footer show ?thesis by auto
  qed (use kind in auto)
  with f show "fits m n s'" "tls s' (caller c) = Some td \<Longrightarrow> middle_fits m x td"
    by (auto intro: fits_set_tls)
qed

lemma acquire_fits:
  assumes run: "memory_access_acquire_locks_a p s = Inr s'" and f: "fits m n s"
    and mid: "\<And>td. tls s p = Some td \<Longrightarrow> middle_fits m Headed td"
  shows "fits m n s'" "tls s' p = Some td \<Longrightarrow> middle_fits m Locked td"
proof -
  from run obtain td0 where td0: "tls s p = Some td0"
    by (auto simp: memory_access_acquire_locks_a_def andThen_Inr get_tls_Inr)
  note tf = fits_thread [OF f td0]
  have m: "0 \<le> m" using f by (simp add: fits_def)
  have "fits m n s' \<and> (\<forall>td. tls s' p = Some td \<longrightarrow> middle_fits m Locked td)"
  proof (cases "trace_this_access td0 \<and> \<not> turn_off_locks s")
    case True
    let ?td = "td0\<lparr>index_lock_list := needed_indices s td0\<rparr>"
    from run td0 True obtain t s1 where
      l: "lock_all p (needed_indices s td0) 0 (set_tls p ?td s) = Inr (t, s1)"
      and r: "andThen (get_tls s1 p) (\<lambda>td1.
        Inr (set_tls p (td1\<lparr>max_locked_timestamp := t\<rparr>) s1)) = Inr s'"
      by (auto simp: memory_access_acquire_locks_a_def acquire_address_locks_def andThen_Inr Let_def)
    have "tls s1 = tls (set_tls p ?td s)" using lock_all_result [OF l] by simp
    with r have s': "s' = set_tls p (?td\<lparr>max_locked_timestamp := t\<rparr>) s1"
      by (auto simp: andThen_Inr)
    have "fits m n (set_tls p ?td s)"
      by (rule fits_set_tls [OF f]) (use tf in \<open>simp add: thread_fits_def\<close>)
    from lock_all_fits [OF l this] m have t: "in_bound m t" and f1: "fits m n s1"
      by (simp_all add: in_bound_def)
    have "fits m n s'" unfolding s'
      by (rule fits_set_tls [OF f1]) (use tf in \<open>simp add: thread_fits_def\<close>)
    with t mid [OF td0] show ?thesis
      by (auto simp: s' middle_fits_def operands_fit_def)
  next
    case False
    with run td0 have "s' = s \<and> \<not> trace_this_access td0 \<or>
        s' = set_tls p (td0\<lparr>max_locked_timestamp := 0\<rparr>) s"
      by (auto simp: memory_access_acquire_locks_a_def split: if_splits)
    with f tf td0 mid [OF td0] m show ?thesis
      by (auto simp: middle_fits_def operands_fit_def in_bound_def thread_fits_def intro!: fits_set_tls)
  qed
  then show "fits m n s'" "tls s' p = Some td \<Longrightarrow> middle_fits m Locked td" by simp_all
qed

lemma footer_fits:
  assumes run: "memory_access_footer_a bm p s = Inr s'" and f: "fits m n s"
    and mid: "\<And>td. tls s p = Some td \<Longrightarrow> middle_fits m Locked td"
  shows "fits (m + 1) (n + 1) s'"
proof -
  from run obtain td where td: "tls s p = Some td"
    by (auto simp: memory_access_footer_a_def andThen_Inr get_tls_Inr)
  note tf = fits_thread [OF f td]
  show ?thesis
  proof (cases "trace_this_access td")
    case True
    with mid [OF td] have o: "operands_fit td" "in_bound m (max_locked_timestamp td)"
      by (simp_all add: middle_fits_def)
    then have t: "in_bound (m + 1) (access_time td)"
      using tf by (simp add: access_time_def thread_fits_def in_bound_def)
    from run td True have "touch_buffer bm p (access_time td) False (set_tls p (td\<lparr>trace_stream :=
        trace_stream td @ [(access_time td, user_threadid td, access_event td)]\<rparr>) s) = Inr s'"
      by (simp add: memory_access_footer_a_def Let_def)
    from touch_entry_fits [OF f td t operands_short [OF o(1)] _ _ _ _ this] tf show ?thesis
      by (auto simp: thread_fits_def in_bound_def)
  next
    case False
    with run td have "s' = s" by (simp add: memory_access_footer_a_def)
    then show ?thesis using f by (simp add: fits_mono)
  qed
qed

lemma start_parts:
  assumes "thread_start_a bm g uid p s = Inr s'"
  obtains s2 where "(if \<not> register_threads s
      then trace_synchronised bm p Thread_Register
        (set_tls p ((new_thread_data g)\<lparr>user_threadid := uid\<rparr>)
          (set_tls p (new_thread_data g) (s\<lparr>num_threads := num_threads s + 1\<rparr>)))
      else Inr (set_tls p ((new_thread_data g)\<lparr>lamport_timestamp := 0\<rparr>)
        (set_tls p (new_thread_data g) (s\<lparr>num_threads := num_threads s + 1\<rparr>)))) = Inr s2"
    "tls s' = tls s2" "trace_file s' = trace_file s2" "address_lock_bank s' = address_lock_bank s2"
proof -
  have r: "register_threads (set_tls p (new_thread_data g) (s\<lparr>num_threads := num_threads s + 1\<rparr>)) =
      register_threads s" by (simp add: set_tls_def)
  from assms show thesis
    unfolding thread_start_a_def Let_def andThen_Inr r by (auto intro: that)
qed

lemma start_fits:
  assumes run: "thread_start_a bm g uid p s = Inr s'" and f: "fits m n s" and u: "int64_range uid"
    and n: "0 \<le> n"
  shows "fits (m + 1) (n + 1) s'"
proof -
  let ?s1 = "\<lambda>td. set_tls p td (s\<lparr>num_threads := num_threads s + 1\<rparr>)"
  have m: "0 \<le> m" using f by (simp add: fits_def)
  have new: "fits m n (?s1 ((new_thread_data g)\<lparr>user_threadid := v\<rparr>))" if "int64_range v" for v
    by (rule fits_set_tls) (use f m n that in \<open>simp_all add: fits_def thread_fits_def
        new_thread_data_def in_bound_def\<close>)
  from run obtain s2 where s2: "(if \<not> register_threads s
      then trace_synchronised bm p Thread_Register
        (set_tls p ((new_thread_data g)\<lparr>user_threadid := uid\<rparr>) (?s1 (new_thread_data g)))
      else Inr (set_tls p ((new_thread_data g)\<lparr>lamport_timestamp := 0\<rparr>) (?s1 (new_thread_data g)))) = Inr s2"
    and s': "fits (m + 1) (n + 1) s' \<longleftrightarrow> fits (m + 1) (n + 1) s2"
    using start_parts [OF run] by (metis fits_cong)
  have "fits (m + 1) (n + 1) s2"
  proof (cases "register_threads s")
    case True
    have "(new_thread_data g)\<lparr>lamport_timestamp := 0\<rparr> = (new_thread_data g)\<lparr>user_threadid := - 1\<rparr>"
      by (simp add: new_thread_data_def)
    with s2 True have "s2 = ?s1 ((new_thread_data g)\<lparr>user_threadid := - 1\<rparr>)"
      by (simp add: set_tls_def)
    then show ?thesis using new [of "- 1"] by (simp add: int64_range_def fits_mono)
  next
    case False
    with s2 have "trace_synchronised bm p Thread_Register
        (?s1 ((new_thread_data g)\<lparr>user_threadid := uid\<rparr>)) = Inr s2"
      by (simp add: set_tls_def)
    then show ?thesis by (rule synchronised_fits) (use new u in simp_all)
  qed
  with s' show ?thesis by simp
qed

lemma fini_fits:
  assumes run: "thread_fini_a bm p s = Inr s'" and f: "fits m n s"
  shows "fits (m + 1) (n + 1) s'"
proof -
  from run obtain s1 td s2 td2 where rel: "release_address_locks p s = Inr s1" and td: "tls s1 p = Some td"
    and s2: "(if 0 \<le> user_threadid td then trace_synchronised bm p Thread_Finish s1 else Inr s1) = Inr s2"
    and td2: "tls s2 p = Some td2" and s': "tls s' = (tls s2)(p := None)"
      "trace_file s' = trace_file s2 @ (if 0 < buffered_entries td2 then trace_stream td2 else [])"
      "address_lock_bank s' = address_lock_bank s2"
    by (rule fini_parts)
  note f1 = release_fits [OF rel f]
  have "fits (m + 1) (n + 1) s2"
    using s2 synchronised_fits [OF _ f1, of bm p Thread_Finish s2] fits_mono [OF f1, of "m + 1" "n + 1"]
    by (auto split: if_splits)
  with fits_thread [OF this td2] s' show ?thesis
    by (auto simp: fits_def thread_fits_def)
qed

lemma register_fits:
  assumes run: "register_thread_a bm p uid s = Inr s'" and f: "fits m n s" and u: "int64_range uid"
  shows "fits (m + 1) (n + 1) s'"
proof (rule release_then_fits [OF run [unfolded register_thread_a_def] f])
  fix s1 assume f1: "fits m n s1"
    and r: "(if register_threads s1 then andThen (get_tls s1 p) (\<lambda>td.
        trace_synchronised bm p Thread_Register (set_tls p (td\<lparr>user_threadid := uid\<rparr>) s1))
      else Inr s1) = Inr s'"
  show "fits (m + 1) (n + 1) s'"
  proof (cases "register_threads s1")
    case True
    with r obtain td where td: "tls s1 p = Some td" and
      t: "trace_synchronised bm p Thread_Register (set_tls p (td\<lparr>user_threadid := uid\<rparr>) s1) = Inr s'"
      by (auto simp: andThen_Inr get_tls_Inr)
    have "fits m n (set_tls p (td\<lparr>user_threadid := uid\<rparr>) s1)"
      by (rule fits_set_tls [OF f1]) (use fits_thread [OF f1 td] u in \<open>simp add: thread_fits_def\<close>)
    then show ?thesis using synchronised_fits [OF t] by simp
  qed (use r f1 in \<open>simp add: fits_mono\<close>)
qed

lemma ctxt_change_fits:
  assumes run: "ctxt_change_release bm p s = Inr s'" and f: "fits m n s"
  shows "fits (m + 1) (n + 1) s'"
proof (rule release_then_fits [OF run [unfolded ctxt_change_release_def] f])
  fix s1 assume f1: "fits m n s1" and r: "andThen (get_tls s1 p) (\<lambda>td.
        let time = lamport_timestamp td + 1;
            td1 = td\<lparr>trace_stream := trace_stream td @ [(time, user_threadid td, Context_Change)]\<rparr>
        in touch_buffer bm p time False (set_tls p td1 s1)) = Inr s'"
  then obtain td where td: "tls s1 p = Some td" by (auto simp: andThen_Inr get_tls_Inr)
  note tf = fits_thread [OF f1 td]
  then have t: "in_bound (m + 1) (lamport_timestamp td + 1)" by (simp add: thread_fits_def in_bound_def)
  from r td have "touch_buffer bm p (lamport_timestamp td + 1) False (set_tls p (td\<lparr>trace_stream :=
      trace_stream td @ [(lamport_timestamp td + 1, user_threadid td, Context_Change)]\<rparr>) s1) = Inr s'"
    by (simp add: Let_def)
  from touch_entry_fits [OF f1 td t _ _ _ _ _ this] tf show "fits (m + 1) (n + 1) s'"
    by (auto simp: thread_fits_def in_bound_def)
qed

text \<open>Every call: the bounds move by one, what is known in the middle of an instruction is kept.\<close>

definition run_fits :: "int \<Rightarrow> (int \<Rightarrow> phase) \<Rightarrow> 'b tracer \<Rightarrow> bool" where
  "run_fits m ph s \<longleftrightarrow>
     fits m m s \<and> (\<forall>p td. tls s p = Some td \<longrightarrow> middle_fits m (ph p) td)"

lemma call_keeps_fits:
  assumes run: "run_call bm c s = Inr s'" and f: "fits m m s" and c: "call_fits c"
    and ph: "next_phase c (ph (caller c)) = Some x"
    and mid: "\<And>q td. tls s q = Some td \<Longrightarrow> middle_fits m (ph q) td"
  shows "fits (m + 1) (m + 1) s' \<and>
    (\<forall>td. tls s' (caller c) = Some td \<longrightarrow> middle_fits (m + 1) x td)"
proof -
  have m: "0 \<le> m" using f by (simp add: fits_def)
  have up: "fits (m + 1) (m + 1) s'" if "fits m m s'" using that by (simp add: fits_mono)
  have mup: "middle_fits (m + 1) y td" if "middle_fits m y td" for y td
    by (rule middle_fits_core [OF refl that]) simp
  show ?thesis
  proof (cases c)
    case (Header p)
    with run ph header_fits [of p s s' m m] f show ?thesis
      by (auto intro!: up mup split: if_splits)
  next
    case (Acquire p)
    with ph have h: "ph p = Headed" "x = Locked" by (auto split: if_splits)
    from Acquire run mid [of p] have "memory_access_acquire_locks_a p s = Inr s'"
      "\<And>td. tls s p = Some td \<Longrightarrow> middle_fits m Headed td" by (simp_all add: h)
    from acquire_fits [OF this(1) f this(2)] Acquire h show ?thesis by (auto intro!: up mup)
  next
    case (Footer p)
    with ph have h: "ph p = Locked" "x = Free" by (auto split: if_splits)
    from Footer run mid [of p] have "memory_access_footer_a bm p s = Inr s'"
      "\<And>td. tls s p = Some td \<Longrightarrow> middle_fits m Locked td" by (simp_all add: h)
    from footer_fits [OF this(1) f this(2)] h show ?thesis by simp
  next
    case (Read1 p a k)
    show ?thesis
      using operands_call_fits [where ph = ph, OF run f c ph mid] Read1 by (auto intro!: up mup)
  next
    case (Read2 p a)
    show ?thesis
      using operands_call_fits [where ph = ph, OF run f c ph mid] Read2 by (auto intro!: up mup)
  next
    case (Write p a k)
    show ?thesis
      using operands_call_fits [where ph = ph, OF run f c ph mid] Write by (auto intro!: up mup)
  next
    case (Cas_Footer p r)
    show ?thesis
      using operands_call_fits [where ph = ph, OF run f c ph mid] Cas_Footer by (auto intro!: up mup)
  next
    case (Release p)
    with run ph f show ?thesis
      by (auto simp: memory_access_release_a_def split: if_splits intro: up release_fits)
  next
    case (Call name p sp a b e)
    with run have "andThen (release_address_locks p s)
        (trace_function bm p (Function_Call name sp a b e)) = Inr s'" by (simp add: function_call_a_def)
    from release_then_fits [OF this f function_fits] c ph Call show ?thesis
      by (auto split: if_splits)
  next
    case (Return name p sp v)
    with run have "andThen (release_address_locks p s)
        (trace_function bm p (Function_Return name sp v)) = Inr s'" by (simp add: function_return_a_def)
    from release_then_fits [OF this f function_fits] c ph Return show ?thesis
      by (auto split: if_splits)
  next
    case (Roi p b name)
    with run have r: "change_roi_a bm p b name s = Inr s'" by simp
    have "fits (m + 1) (m + 1) s'"
    proof (rule release_then_fits [OF r [unfolded change_roi_a_def] f])
      fix s1 assume f1: "fits m m s1"
        and t: "trace_synchronised bm p (Change_Roi name) (s1\<lparr>in_roi := b\<rparr>) = Inr s'"
      have "fits m m (s1\<lparr>in_roi := b\<rparr>)" using f1 by (simp add: fits_def)
      then show "fits (m + 1) (m + 1) s'" by (rule synchronised_fits [OF t]) (use c Roi in simp)
    qed
    with ph Roi show ?thesis by (auto split: if_splits)
  next
    case (Register p uid)
    with run c f ph show ?thesis by (auto intro: register_fits split: if_splits)
  next
    case (Start g uid p)
    with run c f ph m show ?thesis by (auto intro: start_fits split: if_splits)
  next
    case (Fini p)
    with run f ph show ?thesis by (auto intro: fini_fits split: if_splits)
  next
    case (Ctxt_Change p)
    with run f ph show ?thesis by (auto intro: ctxt_change_fits split: if_splits)
  qed
qed

section \<open>Runs\<close>

lemma do_call_parts:
  assumes "do_call bm c r = Some r'"
  shows "run_step bm r c r'"
    "run_call bm c (run_state r) = Inr (run_state r')"
    "next_phase c (run_phase r (caller c)) = Some (run_phase r' (caller c))"
    "\<And>q. q \<noteq> caller c \<Longrightarrow> run_phase r' q = run_phase r q" "start_ok c (run_state r)"
proof -
  show "run_step bm r c r'" by (rule do_call_step [OF assms])
  show "run_call bm c (run_state r) = Inr (run_state r')"
    "next_phase c (run_phase r (caller c)) = Some (run_phase r' (caller c))"
    "\<And>q. q \<noteq> caller c \<Longrightarrow> run_phase r' q = run_phase r q" "start_ok c (run_state r)"
    using assms by (auto simp: do_call_def split: sum.splits option.splits if_splits)
qed

lemma do_calls_fit:
  assumes "do_calls bm cs r = Some r'" and "reachable bm k r" and "list_all call_fits cs"
    and k: "1 \<le> knob_timestamp_difference k" "\<not> knob_turn_off k"
    and "run_fits m (run_phase r) (run_state r)"
  shows "run_fits (m + int (length cs)) (run_phase r') (run_state r')"
  using assms(1-3,6)
proof (induction cs arbitrary: r m)
  case (Cons c cs)
  from Cons.prems(1) obtain r1 where r1: "do_call bm c r = Some r1" "do_calls bm cs r1 = Some r'"
    by (auto split: option.splits)
  note parts = do_call_parts [OF r1(1)]
  let ?s = "run_state r" and ?s' = "run_state r1"
  have re: "reachable bm k r1" using Cons.prems(2) parts(1) by (rule reachable.more)
  have k0: "0 \<le> knob_timestamp_difference k" using k(1) by simp
  have m: "members ?s" "1 \<le> timestamp_difference ?s"
    using reachable_inv [OF Cons.prems(2) k0 k(2)] k(1)
    by (simp_all add: members_def threads_ok_def config_def)
  have mid: "\<And>q td. tls ?s q = Some td \<Longrightarrow> middle_fits m (run_phase r q) td"
    and fit: "fits m m ?s" using Cons.prems(4) by (simp_all add: run_fits_def)
  have c: "call_fits c" using Cons.prems(3) by simp
  from call_keeps_fits [where ph = "run_phase r", OF parts(2) fit c parts(3) mid]
  have keep: "fits (m + 1) (m + 1) ?s'" "\<And>td. tls ?s' (caller c) = Some td \<Longrightarrow>
      middle_fits (m + 1) (run_phase r1 (caller c)) td" by auto
  have "middle_fits (m + 1) (run_phase r1 q) td" if td: "tls ?s' q = Some td" for q td
  proof (cases "q = caller c")
    case False
    from run_call_others [OF parts(2) m parts(5)] False td
    have "map_option core (tls ?s' q) = map_option core (tls ?s q)" unfolding others_kept_def by blast
    with td have "map_option core (tls ?s q) = Some (core td)" by simp
    then obtain td0 where td0: "tls ?s q = Some td0" "core td = core td0" by auto
    from middle_fits_core [OF td0(2) mid [OF td0(1)]] parts(4) [OF False] show ?thesis by simp
  qed (use keep td in simp)
  with keep have "run_fits (m + 1) (run_phase r1) ?s'" by (simp add: run_fits_def)
  from Cons.IH [OF r1(2) re _ this] Cons.prems(3) show ?case by (simp add: algebra_simps)
qed simp

lemma do_run_fits:
  assumes "do_run bm k cs = Some r" and "list_all call_fits cs"
    and "1 \<le> knob_timestamp_difference k" "\<not> knob_turn_off k"
  shows "fits (int (length cs)) (int (length cs)) (run_state r)"
proof -
  from assms(1) obtain s where s: "tracer_main bm k = Inr s"
    and run: "do_calls bm cs \<lparr>run_state = s, run_phase = (\<lambda>_. Free), run_log = []\<rparr> = Some r"
    by (auto simp: do_run_def split: sum.splits)
  have "run_fits 0 (\<lambda>_. Free) s"
    using s by (auto simp: tracer_main_def run_fits_def fits_def in_bound_def split: if_splits)
  from do_calls_fit [OF run reachable.start [OF s] assms(2-4), of 0] this show ?thesis
    by (simp add: run_fits_def)
qed

lemma entry_fits_printable: "entry_fits m e \<Longrightarrow> m < 2 ^ 63 \<Longrightarrow> printable e"
proof -
  assume f: "entry_fits m e" and m: "m < 2 ^ 63"
  obtain t tid ev where e: "e = (t, tid, ev)" by (cases e)
  have t: "int64_range t" and tid: "int64_range tid" and ev: "short_text ev"
    using f m by (simp_all add: e entry_fits_def in_bound_def int64_range_def)
  have "length (entry_line e) \<le> 127"
    using length_show_int64 [OF t] length_show_int64 [OF tid] ev
    by (simp add: e entry_line_def trace_line_def short_text_def)
  with t tid ev show "printable e"
    by (simp add: e printable_def entry_line_def trace_line_chars short_text_def)
qed

lemma file_printable:
  "fits m n s \<Longrightarrow> m < 2 ^ 63 \<Longrightarrow> list_all printable (trace_file s)"
  by (auto simp: fits_def list_all_iff intro: entry_fits_printable)

section \<open>The properties\<close>

text \<open>C9. No number of the tracer overflows: after any run of fewer than 2 ^ 63 calls the timestamps of
  the file, of the threads, of their buffers and of the locks, and the lengths of the buffers, lie
  between 0 and the number of calls; and every line of the file can be read by the merge program.\<close>

theorem numbers_stay_small:
  assumes "do_run bm k cs = Some r" and "list_all call_fits cs" and "length cs < 2 ^ 63"
    and "1 \<le> knob_timestamp_difference k" and "\<not> knob_turn_off k"
  shows "(\<forall>e \<in> set (trace_file (run_state r)). 0 \<le> fst e \<and> fst e \<le> int (length cs)) \<and>
    (\<forall>i. 0 \<le> lock_time (address_lock_bank (run_state r) i) \<and>
       lock_time (address_lock_bank (run_state r) i) \<le> int (length cs)) \<and>
    (\<forall>p td. tls (run_state r) p = Some td \<longrightarrow>
       0 \<le> lamport_timestamp td \<and> lamport_timestamp td \<le> int (length cs) \<and>
       0 \<le> buffered_entries td \<and> buffered_entries td \<le> int (length cs) \<and>
       (\<forall>e \<in> set (trace_stream td). 0 \<le> fst e \<and> fst e \<le> int (length cs))) \<and>
    list_all printable (trace_file (run_state r))"
proof -
  note f = do_run_fits [OF assms(1,2,4,5)]
  have "int (length cs) < int (2 ^ 63)" using assms(3) by (simp only: of_nat_less_iff)
  then have "list_all printable (trace_file (run_state r))"
    by (intro file_printable [OF f]) simp
  with f show ?thesis
    by (auto simp: fits_def thread_fits_def entry_fits_def in_bound_def list_all_iff)
qed

theorem numbers_stay_small_witness:
  "\<exists>r. do_run alist_bimap default_knobs two_writers = Some r \<and>
     (\<forall>p td. tls (run_state r) p = Some td \<longrightarrow> lamport_timestamp td \<le> 11) \<and>
     list_all printable (trace_file (run_state r))"
proof -
  obtain r where r: "do_run alist_bimap default_knobs two_writers = Some r"
    using two_writers_run by blast
  have "list_all call_fits two_writers" "length two_writers = 11"
    by (simp_all add: two_writers_def write_calls_def int64_range_def user_address_def operand_size_def)
  with numbers_stay_small [OF r] r show ?thesis by (auto simp: default_knobs_def)
qed

end
