(* ===== verification/Merged_Order.thy ===== *)
theory Merged_Order
  imports Memory_Order Output_Bounds
begin

text \<open>
  The whole chain: a program runs under \<open>src/trace/trace.cpp\<close>, its instructions going to memory as
  they like, and \<open>src/src/merge.cpp\<close> reads the file. What is assumed is said of the program: the list
  of its calls and memory accesses.
\<close>

section \<open>Calls of an execution\<close>

fun calls_of :: "event_of_program list \<Rightarrow> call list" where
  "calls_of [] = []"
| "calls_of (Routine c # es) = c # calls_of es"
| "calls_of (Access p # es) = calls_of es"

lemma note_call_tool [simp]: "tool (note_call c x) = tool x"
  by (cases c) simp_all

lemma do_execution_calls:
  "do_execution bm es x = Some x' \<Longrightarrow> do_calls bm (calls_of es) (tool x) = Some (tool x')"
  by (induction bm es x rule: do_execution.induct) (auto split: if_splits option.splits)

lemma executed_run: "executed bm k es = Some x \<Longrightarrow> do_run bm k (calls_of es) = Some (tool x)"
  by (auto simp: executed_def do_run_def split: sum.splits dest: do_execution_calls)

lemma proper_calls_do: "proper_calls bm cs r = Some r' \<Longrightarrow> do_calls bm cs r = Some r'"
  by (induction cs arbitrary: r) (auto split: if_splits option.splits)

lemma proper_run_do: "proper_run bm k cs = Some r \<Longrightarrow> do_run bm k cs = Some r"
  by (auto simp: proper_run_def do_run_def split: sum.splits dest: proper_calls_do)

lemma ended_at_rest:
  assumes "executes bm k x" "1 \<le> knob_timestamp_difference k" "\<not> knob_turn_off k"
    and "tls (run_state (tool x)) = Map.empty"
  shows "at_rest x"
  using executes_inv [OF assms(1-3)] assms(4)
  by (auto simp: at_rest_def active_def locked_def tracing_def execution_inv_def)

section \<open>The property\<close>

lemma output_order:
  assumes "sorted (map fst out)" "acc_time a < acc_time b" "u < length out" "v < length out"
    and "out ! u = merged_line keep (access_entry a)" "out ! v = merged_line keep (access_entry b)"
  shows "u < v"
proof (rule ccontr)
  assume "\<not> u < v"
  with assms(1,3,4) have "fst (out ! v) \<le> fst (out ! u)"
    using sorted_nth_mono [of "map fst out" v u] by simp
  with assms(2,5,6) show False by (simp add: merged_line_def access_entry_def)
qed

text \<open>What the merge program makes of a run in which all threads have ended.\<close>

definition merges_to :: "string list \<Rightarrow> 'b tracer \<Rightarrow> string \<Rightarrow> (int \<times> string) list \<Rightarrow> bool" where
  "merges_to argv s res out \<longleftrightarrow>
     res = lines_text (map snd out) \<and> sorted (map fst out) \<and>
     mset out = mset (map (merged_line (keeps_times argv)) (filter (\<lambda>e. \<not> syncs e) (trace_file s)))"

text \<open>A run of a program under the tracer to its end, with numbers and names of ordinary size.\<close>

definition runs_to_end :: "'b bimap_ops \<Rightarrow> knobs \<Rightarrow> event_of_program list \<Rightarrow> 'b execution \<Rightarrow> bool" where
  "runs_to_end bm k es x \<longleftrightarrow>
     executed bm k es = Some x \<and> proper_run bm k (calls_of es) = Some (tool x) \<and>
     list_all call_fits (calls_of es) \<and> length (calls_of es) < 2 ^ 63 \<and>
     1 \<le> knob_timestamp_difference k \<and> \<not> knob_turn_off k \<and> tls (run_state (tool x)) = Map.empty"

lemma runs_to_endD:
  assumes "runs_to_end bm k es x"
  shows "executed bm k es = Some x" "proper_run bm k (calls_of es) = Some (tool x)"
    "list_all call_fits (calls_of es)" "length (calls_of es) < 2 ^ 63"
    "1 \<le> knob_timestamp_difference k" "\<not> knob_turn_off k" "tls (run_state (tool x)) = Map.empty"
  using assms unfolding runs_to_end_def by blast+

text \<open>Every entry of such a run fits a line, and the merge of the trace file loses nothing.\<close>

lemma ended_printable:
  assumes "executed bm k es = Some x" "list_all call_fits (calls_of es)" "length (calls_of es) < 2 ^ 63"
    and "1 \<le> knob_timestamp_difference k" "\<not> knob_turn_off k"
  shows "list_all printable (trace_file (run_state (tool x)))"
proof -
  have "int (length (calls_of es)) < int (2 ^ 63)" using assms(3) by (simp only: of_nat_less_iff)
  then show ?thesis
    by (intro file_printable [OF do_run_fits [OF executed_run [OF assms(1)] assms(2,4,5)]]) simp
qed

text \<open>The sync entries of the file are of registered threads; the merge program skips them all.\<close>

lemma ended_syncs:
  assumes "executed bm k es = Some x" "list_all call_fits (calls_of es)"
    and "1 \<le> knob_timestamp_difference k" "\<not> knob_turn_off k"
    and "e \<in> set (trace_file (run_state (tool x)))"
  shows "syncs e \<longleftrightarrow> snd (snd e) = Thread_Sync"
proof -
  note f = do_run_fits [OF executed_run [OF assms(1)] assms(2-4)]
  with assms(5) have "snd (snd e) = Thread_Sync \<longrightarrow> 0 \<le> fst (snd e)"
    by (auto simp: fits_def list_all_iff entry_fits_def)
  then show ?thesis by (cases e) (auto simp: syncs_def skipped_def)
qed

lemma ended_merges:
  assumes "executed bm k es = Some x" "proper_run bm k (calls_of es) = Some (tool x)"
    and "list_all call_fits (calls_of es)" "length (calls_of es) < 2 ^ 63"
    and "1 \<le> knob_timestamp_difference k" "\<not> knob_turn_off k"
    and "tls (run_state (tool x)) = Map.empty" "heap_choice pick"
  obtains out where
    "merge_program pick argv (file_text (run_state (tool x))) = Inr (lines_text (map snd out))"
    "merges_to argv (run_state (tool x)) (lines_text (map snd out)) out"
    "\<forall>a \<in> set (run_log (tool x)). merged_line (keeps_times argv) (access_entry a) \<in> set out"
  using trace_then_merge [OF proper_run_proper [OF assms(2)] assms(5-7)
      ended_printable [OF assms(1,3-6)] assms(8), of argv]
  by (auto simp: merges_to_def)

lemma ended_complete:
  assumes "executed bm k es = Some x" "1 \<le> knob_timestamp_difference k" "\<not> knob_turn_off k"
    and "tls (run_state (tool x)) = Map.empty"
  shows "mset (memory_accesses x) = mset (run_log (tool x))"
  using assms executed_executes ended_at_rest memory_complete(2) by metis

text \<open>The two writers of \<open>Memory_Order\<close>, to their end.\<close>

definition writers_complete :: "event_of_program list" where
  "writers_complete = writers_execute @ map Routine [Fini 1, Fini 0]"

lemma writers_complete_run:
  "\<exists>x. executed alist_bimap default_knobs writers_complete = Some x \<and>
     tls (run_state (tool x)) = Map.empty \<and> length (run_log (tool x)) = 2"
  by (simp add: writers_complete_def writers_execute_def write_calls_def execution_eval tracer_eval)

lemma writers_complete_calls: "calls_of writers_complete = writers_end"
  by (simp add: writers_complete_def writers_execute_def writers_end_def two_writers_def write_calls_def)

lemma writers_complete_ends:
  "\<exists>x. runs_to_end alist_bimap default_knobs writers_complete x \<and> length (run_log (tool x)) = 2 \<and>
     trace_file (run_state (tool x)) =
       [(1, 0, Thread_Register), (2, 1, Thread_Register),
        (4, 1, Memory None None (Some (4100, 8))), (5, 1, Thread_Finish),
        (3, 0, Memory None None (Some (4096, 8))), (6, 0, Thread_Finish)]"
proof -
  obtain x where x: "executed alist_bimap default_knobs writers_complete = Some x"
    "tls (run_state (tool x)) = Map.empty" "length (run_log (tool x)) = 2"
    using writers_complete_run by blast
  obtain r where r: "proper_run alist_bimap default_knobs writers_end = Some r"
    "trace_file (run_state r) =
       [(1, 0, Thread_Register), (2, 1, Thread_Register),
        (4, 1, Memory None None (Some (4100, 8))), (5, 1, Thread_Finish),
        (3, 0, Memory None None (Some (4096, 8))), (6, 0, Thread_Finish)]"
    using writers_end_run by blast
  have pr: "proper_run alist_bimap default_knobs (calls_of writers_complete) = Some (tool x)"
    "tool x = r"
    using executed_run [OF x(1)] proper_run_do [OF r(1)] r(1) by (simp_all add: writers_complete_calls)
  have "list_all call_fits (calls_of writers_complete)" "length (calls_of writers_complete) < 2 ^ 63"
    by (simp_all add: writers_complete_calls writers_end_def two_writers_def write_calls_def
        int64_range_def user_address_def operand_size_def)
  then have "runs_to_end alist_bimap default_knobs writers_complete x"
    using x(1,2) pr(1) by (simp add: runs_to_end_def default_knobs_def)
  with x(3) r(2) pr(2) show ?thesis by blast
qed

text \<open>C1. From the memory to the merged trace. A program of fewer than 2 ^ 63 calls, with operands and
  names of ordinary size, that uses the tracer as it asks, runs to its end with its instructions and
  threads interleaved in any way. Then the merge program, given the trace file, neither fails nor
  loses anything, exactly the accesses that went to memory are in its output, and accesses to a
  common byte stand there in the order in which they went to memory.\<close>

theorem merged_in_memory_order:
  assumes "runs_to_end bm k es x" and "heap_choice pick"
  shows "\<exists>res out. merge_program pick argv (file_text (run_state (tool x))) = Inr res \<and>
    merges_to argv (run_state (tool x)) res out \<and>
    mset (memory_accesses x) = mset (run_log (tool x)) \<and>
    (\<forall>a \<in> set (memory_accesses x). merged_line (keeps_times argv) (access_entry a) \<in> set out) \<and>
    (\<forall>i j u v. i < j \<longrightarrow> j < length (memory_accesses x) \<longrightarrow>
       conflicting (memory_accesses x ! i) (memory_accesses x ! j) \<longrightarrow>
       u < length out \<longrightarrow> v < length out \<longrightarrow>
       out ! u = merged_line (keeps_times argv) (access_entry (memory_accesses x ! i)) \<longrightarrow>
       out ! v = merged_line (keeps_times argv) (access_entry (memory_accesses x ! j)) \<longrightarrow> u < v)"
proof -
  note ends = runs_to_endD [OF assms(1)]
  obtain out where out:
    "merge_program pick argv (file_text (run_state (tool x))) = Inr (lines_text (map snd out))"
    "merges_to argv (run_state (tool x)) (lines_text (map snd out)) out"
    "\<forall>a \<in> set (run_log (tool x)). merged_line (keeps_times argv) (access_entry a) \<in> set out"
    using ends assms(2) by (rule ended_merges)
  note all = ended_complete [OF ends(1,5-7)]
  have "u < v" if "i < j" "j < length (memory_accesses x)"
    "conflicting (memory_accesses x ! i) (memory_accesses x ! j)" "u < length out" "v < length out"
    "out ! u = merged_line (keeps_times argv) (access_entry (memory_accesses x ! i))"
    "out ! v = merged_line (keeps_times argv) (access_entry (memory_accesses x ! j))" for i j u v
  proof -
    have "acc_time (memory_accesses x ! i) < acc_time (memory_accesses x ! j)"
      using memory_sorted [OF executed_executes [OF ends(1)] ends(5,6)] that(1-3)
      by (simp add: sorted_wrt_iff_nth_less)
    from output_order [OF _ this that(4-7)] out(2) show ?thesis by (simp add: merges_to_def)
  qed
  moreover have "\<forall>a \<in> set (memory_accesses x). merged_line (keeps_times argv) (access_entry a) \<in> set out"
    using out(3) mset_eq_setD [OF all] by simp
  ultimately show ?thesis using out(1,2) all by blast
qed

theorem merged_in_memory_order_witness:
  "\<exists>x res out. executed alist_bimap default_knobs writers_complete = Some x \<and>
     merge_program first_min [''merge''] (file_text (run_state (tool x))) = Inr res \<and>
     res = lines_text (map snd out) \<and> length (memory_accesses x) = 2 \<and>
     (\<forall>a \<in> set (memory_accesses x). merged_line False (access_entry a) \<in> set out)"
proof -
  obtain x where x: "runs_to_end alist_bimap default_knobs writers_complete x"
    "length (run_log (tool x)) = 2"
    using writers_complete_ends by blast
  from merged_in_memory_order [OF x(1) fm.heap_choice_axioms, of "[''merge'']"]
  obtain res out where o: "merge_program first_min [''merge''] (file_text (run_state (tool x))) = Inr res"
    "res = lines_text (map snd out)" "mset (memory_accesses x) = mset (run_log (tool x))"
    "\<forall>a \<in> set (memory_accesses x). merged_line False (access_entry a) \<in> set out"
    by (auto simp: merges_to_def keeps_times_def)
  from o(3) x(2) have "length (memory_accesses x) = 2" by (metis size_mset)
  with runs_to_endD(1) [OF x(1)] o show ?thesis by blast
qed

end
