(* ===== verification/Trace_Reader.thy ===== *)
theory Trace_Reader
  imports Merged_Order
begin

text \<open>
  The reader of the merged trace, \<open>src/src/AtomicTrace.py\<close>: it splits every line into its fields and
  calls the simulation that it was given. A Python exception is the fault \<open>Raises\<close>.
\<close>

section \<open>Strings in Python\<close>

text \<open>Iteration over a file; the newline at the end of each line is stripped next.\<close>

fun file_lines :: "string \<Rightarrow> string list" where
  "file_lines [] = []"
| "file_lines (c # cs) =
     (if c = NL then [] # file_lines cs
      else case file_lines cs of [] \<Rightarrow> [[c]] | l # ls \<Rightarrow> (c # l) # ls)"

definition strip :: "string \<Rightarrow> string" where
  "strip s = rev (dropWhile isspace (rev (dropWhile isspace s)))"

fun split_tabs :: "string \<Rightarrow> string list" where
  "split_tabs [] = [[]]"
| "split_tabs (c # cs) =
     (if c = TAB then [] # split_tabs cs
      else case split_tabs cs of [] \<Rightarrow> [[c]] | l # ls \<Rightarrow> (c # l) # ls)"

text \<open>\<open>int(s)\<close>: blanks around, an optional sign, at least one digit and nothing else.\<close>

definition digits_int :: "string \<Rightarrow> int result" where
  "digits_int s =
     (if s \<noteq> [] \<and> list_all isdigit s then Inr (int (digits_value 0 s)) else Inl (Raises ''ValueError''))"

definition python_int :: "string \<Rightarrow> int result" where
  "python_int s =
     (case strip s of
        [] \<Rightarrow> Inl (Raises ''ValueError'')
      | c # cs \<Rightarrow>
          if c = CHR ''-'' then andThen (digits_int cs) (\<lambda>i. Inr (- i))
          else if c = CHR ''+'' then digits_int cs
          else digits_int (c # cs))"

text \<open>\<open>l_list[n]\<close> and \<open>l_list[-n]\<close>.\<close>

definition item :: "string list \<Rightarrow> nat \<Rightarrow> string result" where
  "item fs n = (if n < length fs then Inr (fs ! n) else Inl (Raises ''IndexError''))"

definition item_from_end :: "string list \<Rightarrow> nat \<Rightarrow> string result" where
  "item_from_end fs n =
     (if n \<le> length fs then Inr (fs ! (length fs - n)) else Inl (Raises ''IndexError''))"

definition int_item :: "string result \<Rightarrow> int result" where
  "int_item r = andThen r python_int"

section \<open>\<open>Trace.run\<close>\<close>

text \<open>
  The methods of the simulation object. The reader passes the line number, the thread, which
  operands the line has, and their values.
\<close>

record 's simulation =
  sim_memory_access :: "nat \<Rightarrow> int \<Rightarrow> bool \<Rightarrow> bool \<Rightarrow> bool \<Rightarrow> int \<Rightarrow> int \<Rightarrow> int \<Rightarrow> int \<Rightarrow> int \<Rightarrow> 's \<Rightarrow> 's result"
  sim_start_thread :: "nat \<Rightarrow> int \<Rightarrow> 's \<Rightarrow> 's result"
  sim_finish_thread :: "nat \<Rightarrow> int \<Rightarrow> 's \<Rightarrow> 's result"
  sim_function_call :: "nat \<Rightarrow> string \<Rightarrow> int \<Rightarrow> int \<Rightarrow> int \<Rightarrow> int \<Rightarrow> int \<Rightarrow> 's \<Rightarrow> 's result"
  sim_function_return :: "nat \<Rightarrow> string \<Rightarrow> int \<Rightarrow> int \<Rightarrow> int \<Rightarrow> 's \<Rightarrow> 's result"
  sim_start_roi :: "nat \<Rightarrow> 's \<Rightarrow> 's result"
  sim_end_roi :: "nat \<Rightarrow> 's \<Rightarrow> 's result"

text \<open>The operand variables live across the lines.\<close>

record operands =
  read_1_address :: int
  read_size :: int
  read_2_address :: int
  write_address :: int
  write_size :: int

definition no_operands :: operands where
  "no_operands = \<lparr>read_1_address = 0, read_size = 0, read_2_address = 0, write_address = 0,
     write_size = 0\<rparr>"

definition read_memory ::
  "'s simulation \<Rightarrow> nat \<Rightarrow> int \<Rightarrow> string list \<Rightarrow> operands \<Rightarrow> 's \<Rightarrow> (operands \<times> 's) result" where
  "read_memory sim i threadid fs vs s =
     (let have_read_1 = 2 < length fs \<and> fs ! 2 = ''r'';
          have_read_2 = have_read_1 \<and> 5 < length fs \<and> fs ! 5 = ''r2''
      in andThen (item_from_end fs 3) (\<lambda>third.
         let have_write = third = ''w'' in
         andThen (if have_read_1
                  then andThen (int_item (item fs 3)) (\<lambda>a. andThen (int_item (item fs 4)) (\<lambda>n.
                    Inr (vs\<lparr>read_1_address := a, read_size := n\<rparr>)))
                  else Inr vs) (\<lambda>vs1.
         andThen (if have_read_2
                  then andThen (int_item (item fs 6)) (\<lambda>a. Inr (vs1\<lparr>read_2_address := a\<rparr>))
                  else Inr vs1) (\<lambda>vs2.
         andThen (if have_write
                  then andThen (int_item (item_from_end fs 2)) (\<lambda>a.
                    andThen (int_item (item_from_end fs 1)) (\<lambda>n.
                    Inr (vs2\<lparr>write_address := a, write_size := n\<rparr>)))
                  else Inr vs2) (\<lambda>vs3.
         andThen (sim_memory_access sim i threadid have_read_1 have_read_2 have_write
                    (read_1_address vs3) (read_size vs3) (read_2_address vs3)
                    (write_address vs3) (write_size vs3) s)
           (\<lambda>s1. Inr (vs3, s1)))))))"

text \<open>
  A context change calls \<open>end_roi\<close> with one argument more than it takes.
\<close>

definition read_fields ::
  "'s simulation \<Rightarrow> nat \<Rightarrow> string list \<Rightarrow> operands \<Rightarrow> 's \<Rightarrow> (operands \<times> 's) result" where
  "read_fields sim i fs vs s =
     andThen (int_item (item fs 0)) (\<lambda>threadid.
     andThen (item fs 1) (\<lambda>operation.
     if operation = ''m'' then read_memory sim i threadid fs vs s
     else andThen
       (if operation = ''tr'' then sim_start_thread sim i threadid s
        else if operation = ''tf'' then sim_finish_thread sim i threadid s
        else if operation = ''fc'' then
          andThen (item fs 2) (\<lambda>func_name. andThen (int_item (item fs 3)) (\<lambda>stack_pointer.
          andThen (int_item (item fs 4)) (\<lambda>arg1. andThen (int_item (item fs 5)) (\<lambda>arg2.
          andThen (int_item (item fs 6)) (\<lambda>arg3.
            sim_function_call sim i func_name threadid stack_pointer arg1 arg2 arg3 s)))))
        else if operation = ''fr'' then
          andThen (item fs 2) (\<lambda>func_name. andThen (int_item (item fs 3)) (\<lambda>stack_pointer.
          andThen (int_item (item fs 4)) (\<lambda>return_value.
            sim_function_return sim i func_name threadid stack_pointer return_value s)))
        else if operation = ''start_roi'' then sim_start_roi sim i s
        else if operation = ''end_roi'' then sim_end_roi sim i s
        else if operation = ''ctxt_change'' then Inl (Raises ''TypeError'')
        else Inr s)
       (\<lambda>s1. Inr (vs, s1))))"

fun run_lines ::
  "'s simulation \<Rightarrow> nat \<Rightarrow> string list \<Rightarrow> operands \<Rightarrow> 's \<Rightarrow> 's result" where
  "run_lines sim i [] vs s = Inr s"
| "run_lines sim i (l # ls) vs s =
     andThen (read_fields sim i (split_tabs (strip l)) vs s) (\<lambda>(vs1, s1).
       run_lines sim (i + 1) ls vs1 s1)"

definition run_trace :: "'s simulation \<Rightarrow> string \<Rightarrow> 's \<Rightarrow> 's result" where
  "run_trace sim contents s = run_lines sim 0 (file_lines contents) no_operands s"

section \<open>Reading what the tracer writes\<close>

lemma file_lines_append: "NL \<notin> set l \<Longrightarrow> file_lines (l @ NL # rest) = l # file_lines rest"
  by (induction l) auto

lemma file_lines_text: "\<forall>l \<in> set ls. NL \<notin> set l \<Longrightarrow> file_lines (lines_text ls) = ls"
  by (induction ls) (auto simp: lines_text_def file_lines_append)

lemma split_tabs_append: "TAB \<notin> set f \<Longrightarrow> split_tabs (f @ TAB # rest) = f # split_tabs rest"
  by (induction f) auto

lemma split_tabs_plain: "TAB \<notin> set f \<Longrightarrow> split_tabs f = [f]"
  by (induction f) auto

lemma strip_plain:
  assumes "s \<noteq> []" "\<not> isspace (hd s)" "\<not> isspace (last s)"
  shows "strip s = s"
proof -
  have "dropWhile isspace s = s" using assms by (cases s) auto
  moreover have "dropWhile isspace (rev s) = rev s"
    using assms(1,3) by (cases "rev s") (auto simp: last_rev hd_rev [symmetric])
  ultimately show ?thesis by (simp add: strip_def)
qed

lemma show_nat_ends: "isdigit (hd (show_nat n))" "isdigit (last (show_nat n))"
  using show_nat_digits [of n] show_nat_nonempty [of n] by simp_all

lemma show_int_ends: "\<not> isspace (hd (show_int i))" "\<not> isspace (last (show_int i))"
  using show_nat_ends isdigit_not_space show_nat_nonempty
  by (auto simp: show_int_def isspace_def code_of_def)

lemma show_int_nonempty: "show_int i \<noteq> []"
  by (simp add: show_int_def show_nat_nonempty)

lemma digits_show_nat: "digits_int (show_nat n) = Inr (int n)"
  using show_nat_digits [of n] by (simp add: digits_int_def show_nat_nonempty digits_value_show_nat list_all_iff)

lemma python_int_show: "python_int (show_int i) = Inr i"
proof (cases "i < 0")
  case True
  have "strip (show_int i) = show_int i"
    using show_int_nonempty show_int_ends by (rule strip_plain)
  with True show ?thesis by (simp add: python_int_def show_int_def digits_show_nat)
next
  case False
  obtain c cs where c: "show_nat (nat i) = c # cs" using show_nat_nonempty by (metis neq_Nil_conv)
  then have "isdigit c" using show_nat_ends(1) [of "nat i"] by simp
  moreover have "strip (show_int i) = show_int i"
    using show_int_nonempty show_int_ends by (rule strip_plain)
  ultimately show ?thesis
    using False c digits_show_nat [of "nat i"] isdigit_not_sign [of c]
    by (simp add: python_int_def show_int_def)
qed

lemma show_u64_int: "show_u64 w = show_int (uint w)"
  by (simp add: show_u64_def show_int_def)

text \<open>
  What a line can be read back from: a memory entry with a first read or a write, and a second read
  only with a first one; names without tabs.
\<close>

fun clean_event :: "event \<Rightarrow> bool" where
  "clean_event (Memory r r2 w) = ((r \<noteq> None \<or> w \<noteq> None) \<and> (r2 \<noteq> None \<longrightarrow> r \<noteq> None))"
| "clean_event (Function_Call name sp a1 a2 a3) = (TAB \<notin> set name)"
| "clean_event (Function_Return name sp v) = (TAB \<notin> set name)"
| "clean_event (Change_Roi name) = (TAB \<notin> set name)"
| "clean_event ev = True"

definition event_fields :: "event \<Rightarrow> string list" where
  "event_fields ev = split_tabs (event_text ev)"

lemma no_tab_show: "TAB \<notin> set (show_int i)" "TAB \<notin> set (show_u64 w)"
  using show_int_chars [of TAB i] show_int_chars [of TAB "uint w"] by (auto simp: show_u64_int)

lemma no_tab_names [simp]: "TAB \<notin> set ''m''" "TAB \<notin> set ''r''" "TAB \<notin> set ''r2''" "TAB \<notin> set ''w''"
    "TAB \<notin> set ''fc''" "TAB \<notin> set ''fr''" "TAB \<notin> set ''_roi''" "TAB \<notin> set ''tr''" "TAB \<notin> set ''tf''"
    "TAB \<notin> set ''thread_sync''" "TAB \<notin> set ''ctxt_change''"
  by simp_all

lemmas split_show = split_tabs_append split_tabs_plain no_tab_show

lemma event_fields_simps:
  "event_fields (Memory r r2 w) = ''m'' #
     (case r of None \<Rightarrow> [] | Some (a, n) \<Rightarrow> [''r'', show_u64 a, show_int (sint n)]) @
     (case r2 of None \<Rightarrow> [] | Some a \<Rightarrow> [''r2'', show_u64 a]) @
     (case w of None \<Rightarrow> [] | Some (a, n) \<Rightarrow> [''w'', show_u64 a, show_int (sint n)])"
  "TAB \<notin> set name \<Longrightarrow> event_fields (Function_Call name sp a1 a2 a3) =
     [''fc'', name, show_u64 sp, show_u64 a1, show_u64 a2, show_u64 a3]"
  "TAB \<notin> set name \<Longrightarrow> event_fields (Function_Return name sp v) = [''fr'', name, show_u64 sp, show_u64 v]"
  "TAB \<notin> set name \<Longrightarrow> event_fields (Change_Roi name) = [name @ ''_roi'']"
  "event_fields Thread_Register = [''tr'']" "event_fields Thread_Finish = [''tf'']"
  "event_fields Thread_Sync = [''thread_sync'']" "event_fields Context_Change = [''ctxt_change'']"
  using split_tabs_append [of "''m''"] split_tabs_append [of "''fc''"] split_tabs_append [of "''fr''"]
    split_tabs_append [of "''r''"] split_tabs_append [of "''r2''"] split_tabs_append [of "''w''"]
    split_tabs_plain [of "''m''"]
  by (auto simp: event_fields_def split_show split: option.split)

text \<open>What the methods are called with for an event; absent operands are shown as 0 here.\<close>

fun apply_event :: "'s simulation \<Rightarrow> nat \<Rightarrow> int \<Rightarrow> event \<Rightarrow> 's \<Rightarrow> 's result" where
  "apply_event sim i tid (Memory r r2 w) s =
     sim_memory_access sim i tid (r \<noteq> None) (r2 \<noteq> None) (w \<noteq> None)
       (case r of None \<Rightarrow> 0 | Some (a, n) \<Rightarrow> uint a) (case r of None \<Rightarrow> 0 | Some (a, n) \<Rightarrow> sint n)
       (case r2 of None \<Rightarrow> 0 | Some a \<Rightarrow> uint a)
       (case w of None \<Rightarrow> 0 | Some (a, n) \<Rightarrow> uint a) (case w of None \<Rightarrow> 0 | Some (a, n) \<Rightarrow> sint n) s"
| "apply_event sim i tid (Function_Call name sp a1 a2 a3) s =
     sim_function_call sim i name tid (uint sp) (uint a1) (uint a2) (uint a3) s"
| "apply_event sim i tid (Function_Return name sp v) s =
     sim_function_return sim i name tid (uint sp) (uint v) s"
| "apply_event sim i tid (Change_Roi name) s =
     (if name = ''start'' then sim_start_roi sim i s
      else if name = ''end'' then sim_end_roi sim i s else Inr s)"
| "apply_event sim i tid Thread_Register s = sim_start_thread sim i tid s"
| "apply_event sim i tid Thread_Finish s = sim_finish_thread sim i tid s"
| "apply_event sim i tid Context_Change s = Inl (Raises ''TypeError'')"
| "apply_event sim i tid Thread_Sync s = Inr s"

fun apply_events :: "'s simulation \<Rightarrow> nat \<Rightarrow> entry list \<Rightarrow> 's \<Rightarrow> 's result" where
  "apply_events sim i [] s = Inr s"
| "apply_events sim i (e # es) s =
     andThen (apply_event sim i (fst (snd e)) (snd (snd e)) s) (apply_events sim (i + 1) es)"

text \<open>The text of an entry without its time.\<close>

definition entry_text :: "entry \<Rightarrow> string" where
  "entry_text e = show_int (fst (snd e)) @ TAB # event_text (snd (snd e))"

lemma kept_entry_text: "kept_text False (parsed_entry e) (entry_line e) = entry_text e"
  by (cases e) (simp add: kept_text_def parsed_entry_def entry_line_def trace_line_def entry_text_def)

lemma event_text_last: "event_text ev \<noteq> [] \<and> \<not> isspace (last (event_text ev))"
  using show_int_ends(2) show_int_nonempty
  by (cases ev) (auto simp: show_u64_int isspace_def code_of_def split: option.split)

lemma strip_entry: "strip (entry_text e) = entry_text e"
proof (rule strip_plain)
  show "\<not> isspace (hd (entry_text e))"
    using show_int_ends(1) show_int_nonempty by (simp add: entry_text_def)
  show "\<not> isspace (last (entry_text e))" using event_text_last by (simp add: entry_text_def)
qed (simp add: entry_text_def)

lemma fields_entry: "split_tabs (entry_text e) = show_int (fst (snd e)) # event_fields (snd (snd e))"
  by (simp add: entry_text_def split_tabs_append no_tab_show event_fields_def)

lemma int_item_simps [simp]: "int_item (Inr (show_int i)) = Inr i" "int_item (Inr (show_u64 w)) = Inr (uint w)"
  by (simp_all add: int_item_def python_int_show show_u64_int)

lemma item_simps [simp]:
  "item (f # fs) 0 = Inr f" "item (f # fs) (Suc n) = item fs n" "item [] n = Inl (Raises ''IndexError'')"
  by (simp_all add: item_def)

lemma item_numeral [simp]: "item (f # fs) (numeral k) = item fs (pred_numeral k)"
  by (simp add: numeral_eq_Suc)

lemma item_from_end_append:
  "n \<le> length gs \<Longrightarrow> 0 < n \<Longrightarrow> item_from_end (fs @ gs) n = Inr (gs ! (length gs - n))"
  by (auto simp: item_from_end_def nth_append)

lemma not_write: "show_int i \<noteq> ''w''" "show_u64 w \<noteq> ''w''" "show_int i \<noteq> ''r2''"
proof -
  have "show_int j \<noteq> ''w'' \<and> show_int j \<noteq> ''r2''" for j
  proof (intro conjI notI)
    assume "show_int j = ''w''"
    then have "show_nat (nat (- j)) = ''w'' \<or> show_nat (nat j) = ''w''" by (auto simp: show_int_def split: if_splits)
    then show False
      using show_nat_ends(1) [of "nat (- j)"] show_nat_ends(1) [of "nat j"]
      by (auto simp: isdigit_def code_of_def)
  next
    assume "show_int j = ''r2''"
    then have "show_nat (nat (- j)) = ''r2'' \<or> show_nat (nat j) = ''r2''" by (auto simp: show_int_def split: if_splits)
    then show False
      using show_nat_ends(1) [of "nat (- j)"] show_nat_ends(1) [of "nat j"]
      by (auto simp: isdigit_def code_of_def)
  qed
  then show "show_int i \<noteq> ''w''" "show_u64 w \<noteq> ''w''" "show_int i \<noteq> ''r2''" by (simp_all add: show_u64_int)
qed

section \<open>The interface of a simulation\<close>

text \<open>A simulation does not look at the operands that a line does not have.\<close>

locale trace_client =
  fixes sim :: "'s simulation"
  assumes absent: "(h1 \<longrightarrow> a1 = b1 \<and> n1 = m1) \<Longrightarrow> (h2 \<longrightarrow> a2 = b2) \<Longrightarrow> (hw \<longrightarrow> aw = bw \<and> nw = mw) \<Longrightarrow>
    sim_memory_access sim i tid h1 h2 hw a1 n1 a2 aw nw s =
    sim_memory_access sim i tid h1 h2 hw b1 m1 b2 bw mw s"
begin

lemma read_memory_entry:
  assumes "clean_event (Memory r r2 w)"
  shows "\<exists>vs'. read_memory sim i tid (show_int u # event_fields (Memory r r2 w)) vs s =
    andThen (apply_event sim i tid (Memory r r2 w) s) (\<lambda>s1. Inr (vs', s1))"
proof -
  have ab: "\<exists>vs'. andThen (sim_memory_access sim i tid h1 h2 hw a1 n1 a2 aw nw s) (\<lambda>s1. Inr (vs1, s1)) =
      andThen (sim_memory_access sim i tid h1 h2 hw b1 m1 b2 bw mw s) (\<lambda>s1. Inr (vs', s1))"
    if "h1 \<longrightarrow> a1 = b1 \<and> n1 = m1" "h2 \<longrightarrow> a2 = b2" "hw \<longrightarrow> aw = bw \<and> nw = mw"
    for h1 h2 hw a1 n1 a2 aw nw b1 m1 b2 bw mw vs1
    using absent [OF that] by auto
  note defs = read_memory_def Let_def event_fields_simps item_from_end_def not_write
  show ?thesis
  proof (cases r)
    case None
    with assms obtain x y where "w = Some (x, y)" "r2 = None" by auto
    with None show ?thesis by (simp add: defs) (rule ab, simp_all)
  next
    case (Some ra)
    obtain a n where r: "r = Some (a, n)" using Some by (cases ra) simp
    show ?thesis
    proof (cases r2)
      case None
      with r show ?thesis
        by (cases w) (simp_all add: defs split_beta, (rule ab, simp_all)+)
    next
      case (Some b)
      with r show ?thesis
        by (cases w) (simp_all add: defs split_beta, (rule ab, simp_all)+)
    qed
  qed
qed

lemma read_fields_entry:
  assumes "clean_event ev"
  shows "\<exists>vs'. read_fields sim i (show_int u # event_fields ev) vs s =
    andThen (apply_event sim i u ev s) (\<lambda>s1. Inr (vs', s1))"
proof (cases ev)
  case (Memory r r2 w)
  from read_memory_entry [of r r2 w i u u vs s] assms Memory
  show ?thesis by (simp add: read_fields_def) (simp add: event_fields_simps)
next
  case (Change_Roi name)
  have "name @ ''_roi'' = ''start_roi'' \<longleftrightarrow> name = ''start''" "name @ ''_roi'' = ''end_roi'' \<longleftrightarrow> name = ''end''"
    using append_same_eq [of name "''_roi''" "''start''"] append_same_eq [of name "''_roi''" "''end''"]
    by simp_all
  moreover have "name @ ''_roi'' \<noteq> x" if "x \<in> {''m'', ''tr'', ''tf'', ''fc'', ''fr'', ''ctxt_change''}" for x
    using that by (auto simp: append_eq_Cons_conv)
  ultimately show ?thesis
    using assms Change_Roi by (auto simp: read_fields_def event_fields_simps)
qed (use assms in \<open>auto simp: read_fields_def event_fields_simps\<close>)

lemma run_lines_entries:
  "list_all (\<lambda>e. clean_event (snd (snd e))) es \<Longrightarrow>
   run_lines sim i (map entry_text es) vs s = apply_events sim i es s"
proof (induction es arbitrary: i vs s)
  case (Cons e es)
  then obtain vs' where v: "read_fields sim i (split_tabs (strip (entry_text e))) vs s =
      andThen (apply_event sim i (fst (snd e)) (snd (snd e)) s) (\<lambda>s1. Inr (vs', s1))"
    unfolding strip_entry fields_entry using read_fields_entry by fastforce
  with Cons show ?case by (simp add: andThen_def split: sum.split)
qed simp

text \<open>A trace written by the tracer and merged without its times is the sequence of its events.\<close>

lemma run_trace_entries:
  assumes "list_all (\<lambda>e. clean_event (snd (snd e))) es" "\<forall>e \<in> set es. NL \<notin> set (entry_text e)"
  shows "run_trace sim (lines_text (map entry_text es)) s = apply_events sim 0 es s"
proof -
  have "file_lines (lines_text (map entry_text es)) = map entry_text es"
    using assms(2) by (intro file_lines_text) simp
  then show ?thesis by (simp add: run_trace_def run_lines_entries [OF assms(1)])
qed

text \<open>No run of the reader gets past a context change.\<close>

lemma apply_context_change:
  "\<exists>e \<in> set es. snd (snd e) = Context_Change \<Longrightarrow> apply_events sim i es s \<noteq> Inr st"
  by (induction es arbitrary: i s) (auto simp: andThen_def split: sum.split)

lemma run_context_change:
  assumes "list_all (\<lambda>e. clean_event (snd (snd e))) es" "\<forall>e \<in> set es. NL \<notin> set (entry_text e)"
    and "\<exists>e \<in> set es. snd (snd e) = Context_Change"
  shows "run_trace sim (lines_text (map entry_text es)) s \<noteq> Inr st"
  unfolding run_trace_entries [OF assms(1,2)] using assms(3) by (rule apply_context_change)

end

end
