(* ===== verification/Inc_Simulation.thy ===== *)
theory Inc_Simulation
  imports Trace_Reader
begin

text \<open>
  The simulations that check the counter programs against their traces: \<open>my_sim\<close> of
  \<open>src/src/inc_sim.py\<close> and of \<open>src/src/inc_sim_cas.py\<close>. They find the counter as the memory that
  \<open>special_malloc\<close> returned, replay the increments on it, and count per thread.
\<close>

section \<open>\<open>my_sim\<close>\<close>

text \<open>\<open>reads\<close> is only used by \<open>inc_sim_cas.py\<close>, \<open>even_increments\<close> only by \<open>inc_sim.py\<close>.\<close>

record my_sim =
  special_address :: "int option"
  special_size :: int
  special_value :: int
  active_threads :: "int set"
  increments_of :: "int \<Rightarrow> int option"
  even_increments_of :: "int \<Rightarrow> int option"
  reads_of :: "int \<Rightarrow> int option"

definition new_sim :: my_sim where
  "new_sim =
     \<lparr>special_address = None, special_size = 0, special_value = 0, active_threads = {},
      increments_of = Map.empty, even_increments_of = Map.empty, reads_of = Map.empty\<rparr>"

text \<open>\<open>not self._special_address\<close> holds of None and of 0.\<close>

definition unset :: "int option \<Rightarrow> bool" where
  "unset a \<longleftrightarrow> a = None \<or> a = Some 0"

text \<open>\<open>d[k] += 1\<close> on a \<open>defaultdict(int)\<close>.\<close>

definition count_in :: "(int \<Rightarrow> int option) \<Rightarrow> int \<Rightarrow> int" where
  "count_in d k = (case d k of None \<Rightarrow> 0 | Some n \<Rightarrow> n)"

definition bump :: "int \<Rightarrow> (int \<Rightarrow> int option) \<Rightarrow> int \<Rightarrow> int option" where
  "bump k d = d(k \<mapsto> count_in d k + 1)"

text \<open>The test whether an operand meets the special memory, as the scripts write it.\<close>

definition hits :: "int \<Rightarrow> int \<Rightarrow> int \<Rightarrow> int \<Rightarrow> bool" where
  "hits address n special special_sz \<longleftrightarrow>
     address < special \<and> special \<le> address + n \<or> special \<le> address \<and> address \<le> special + special_sz"

definition inc_memory_access ::
  "nat \<Rightarrow> int \<Rightarrow> bool \<Rightarrow> bool \<Rightarrow> bool \<Rightarrow> int \<Rightarrow> int \<Rightarrow> int \<Rightarrow> int \<Rightarrow> int \<Rightarrow> my_sim \<Rightarrow> my_sim result" where
  "inc_memory_access line_num threadid have_read_1 have_read_2 have_write read_1_addr read_sz
     read_2_addr write_addr write_sz s =
     (case special_address s of
        None \<Rightarrow> Inr s
      | Some special \<Rightarrow>
          if special = 0 then Inr s
          else if have_read_1 \<and> \<not> have_read_2 \<and> have_write \<and> read_1_addr = write_addr \<and>
                  read_sz = write_sz \<and> hits write_addr write_sz special (special_size s)
          then if \<not> (write_addr = special \<and> write_sz = 8)
               then Inl (Assertion ''write_address == self._special_address and write_size == 8'')
               else Inr (s\<lparr>even_increments_of :=
                              (if special_value s mod 2 = 0
                               then bump threadid (even_increments_of s) else even_increments_of s),
                           increments_of := bump threadid (increments_of s),
                           special_value := special_value s + 1\<rparr>)
          else Inr s)"

definition cas_memory_access ::
  "nat \<Rightarrow> int \<Rightarrow> bool \<Rightarrow> bool \<Rightarrow> bool \<Rightarrow> int \<Rightarrow> int \<Rightarrow> int \<Rightarrow> int \<Rightarrow> int \<Rightarrow> my_sim \<Rightarrow> my_sim result" where
  "cas_memory_access line_num threadid have_read_1 have_read_2 have_write read_1_addr read_sz
     read_2_addr write_addr write_sz s =
     (case special_address s of
        None \<Rightarrow> Inr s
      | Some special \<Rightarrow>
          if special = 0 then Inr s
          else
            let read1 = have_read_1 \<and> \<not> have_read_2 \<and> \<not> have_write;
                RMW = have_read_1 \<and> \<not> have_read_2 \<and> have_write \<and> read_1_addr = write_addr \<and>
                      read_sz = write_sz;
                read1_special = have_read_1 \<and> hits read_1_addr read_sz special (special_size s);
                read_first_8 = have_read_1 \<and> read_1_addr = special \<and> read_sz = 8
            in if RMW \<and> read1_special
               then if \<not> read_first_8 then Inl (Assertion ''read_first_8'')
                    else Inr (s\<lparr>increments_of := bump threadid (increments_of s),
                                special_value := special_value s + 1,
                                reads_of := bump threadid (reads_of s)\<rparr>)
               else if read1 \<and> read1_special
               then Inr (s\<lparr>reads_of := bump threadid (reads_of s)\<rparr>)
               else Inr s)"

definition sim_start :: "nat \<Rightarrow> int \<Rightarrow> my_sim \<Rightarrow> my_sim result" where
  "sim_start line_num threadid s =
     (if threadid \<in> active_threads s then Inl (Assertion ''threadid not in self._active_threads'')
      else Inr (s\<lparr>active_threads := insert threadid (active_threads s)\<rparr>))"

definition sim_finish :: "nat \<Rightarrow> int \<Rightarrow> my_sim \<Rightarrow> my_sim result" where
  "sim_finish line_num threadid s =
     (if threadid \<notin> active_threads s then Inl (Assertion ''threadid in self._active_threads'')
      else Inr (s\<lparr>active_threads := active_threads s - {threadid}\<rparr>))"

definition sim_call ::
  "nat \<Rightarrow> string \<Rightarrow> int \<Rightarrow> int \<Rightarrow> int \<Rightarrow> int \<Rightarrow> int \<Rightarrow> my_sim \<Rightarrow> my_sim result" where
  "sim_call line_num name threadid stack_pointer arg1 arg2 arg3 s =
     (if name = ''atomic_trace::special_malloc'' then
        if \<not> unset (special_address s) then Inl (Assertion ''not self._special_address'')
        else if special_size s \<noteq> 0 then Inl (Assertion ''self._special_size == 0'')
        else Inr (s\<lparr>special_size := arg1\<rparr>)
      else if name = ''atomic_trace::special_free'' then Inr s
      else Inl (Assertion ''False''))"

definition sim_return ::
  "nat \<Rightarrow> string \<Rightarrow> int \<Rightarrow> int \<Rightarrow> int \<Rightarrow> my_sim \<Rightarrow> my_sim result" where
  "sim_return line_num name threadid stack_pointer return_value s =
     (if name = ''atomic_trace::special_malloc'' then
        if \<not> unset (special_address s) then Inl (Assertion ''not self._special_address'')
        else if \<not> 8 \<le> special_size s then Inl (Assertion ''self._special_size >= 8'')
        else Inr (s\<lparr>special_address := Some return_value\<rparr>)
      else if name = ''atomic_trace::special_free'' then Inr s
      else Inl (Assertion ''False''))"

definition inc_sim :: "my_sim simulation" where
  "inc_sim =
     \<lparr>sim_memory_access = inc_memory_access, sim_start_thread = sim_start,
      sim_finish_thread = sim_finish, sim_function_call = sim_call, sim_function_return = sim_return,
      sim_start_roi = (\<lambda>i s. Inr s), sim_end_roi = (\<lambda>i s. Inr s)\<rparr>"

definition inc_sim_cas :: "my_sim simulation" where
  "inc_sim_cas = inc_sim\<lparr>sim_memory_access := cas_memory_access\<rparr>"

text \<open>What \<open>main\<close> prints.\<close>

definition inc_sim_report :: "my_sim \<Rightarrow> string" where
  "inc_sim_report s =
     ''final counter value: '' @ show_int (special_value s) @ NL #
     concat (map (\<lambda>t. ''thread'' @ TAB # show_int t @ TAB # show_int (count_in (increments_of s) t) @
       TAB # show_int (count_in (even_increments_of s) t) @ [NL])
       (sorted_list_of_set (dom (increments_of s))))"

definition inc_sim_cas_report :: "my_sim \<Rightarrow> string" where
  "inc_sim_cas_report s =
     ''final counter value: '' @ show_int (special_value s) @ NL #
     concat (map (\<lambda>t. ''thread'' @ TAB # show_int t @ TAB # show_int (count_in (increments_of s) t) @ [NL])
       (sorted_list_of_set (dom (increments_of s)))) @
     ''fails: '' @
     show_int ((\<Sum>t \<in> dom (reads_of s). count_in (reads_of s) t) - 2 * special_value s) @ [NL]"

definition inc_sim_main :: "string \<Rightarrow> string result" where
  "inc_sim_main contents =
     andThen (run_trace inc_sim contents new_sim) (\<lambda>s. Inr (inc_sim_report s))"

definition inc_sim_cas_main :: "string \<Rightarrow> string result" where
  "inc_sim_cas_main contents =
     andThen (run_trace inc_sim_cas contents new_sim) (\<lambda>s. Inr (inc_sim_cas_report s))"

text \<open>Both are clients of the reader.\<close>

interpretation isim: trace_client inc_sim
  by unfold_locales (auto simp: inc_sim_def inc_memory_access_def split: option.split)

interpretation csim: trace_client inc_sim_cas
  by unfold_locales
    (auto simp: inc_sim_cas_def inc_sim_def cas_memory_access_def Let_def split: option.split)

end
