(* ===== verification/Counter_Trace.thy ===== *)
theory Counter_Trace
  imports Inc_Simulation
begin

text \<open>
  What the simulations make of the trace of a counter program: the interface of a simulation that
  watches the memory of \<open>special_malloc\<close>, and its replay of a merged trace, whatever the events of
  other threads between.
\<close>

section \<open>Entries\<close>

abbreviation entry_time :: "entry \<Rightarrow> int" where
  "entry_time e \<equiv> fst e"

abbreviation entry_user :: "entry \<Rightarrow> int" where
  "entry_user e \<equiv> fst (snd e)"

abbreviation entry_event :: "entry \<Rightarrow> event" where
  "entry_event e \<equiv> snd (snd e)"

text \<open>The increment of the counter at address \<open>A\<close>, and a read of it.\<close>

definition increment :: "u64 \<Rightarrow> event" where
  "increment A = Memory (Some (A, 8)) None (Some (A, 8))"

definition plain_read :: "u64 \<Rightarrow> event" where
  "plain_read A = Memory (Some (A, 8)) None None"

fun is_malloc_call :: "event \<Rightarrow> bool" where
  "is_malloc_call (Function_Call name sp a1 a2 a3) = (name = ''atomic_trace::special_malloc'')"
| "is_malloc_call ev = False"

fun is_malloc_return :: "event \<Rightarrow> bool" where
  "is_malloc_return (Function_Return name sp v) = (name = ''atomic_trace::special_malloc'')"
| "is_malloc_return ev = False"

definition times_of :: "(event \<Rightarrow> bool) \<Rightarrow> entry list \<Rightarrow> int list" where
  "times_of P es = map fst (filter (\<lambda>e. P (entry_event e)) es)"

text \<open>
  The functions a counter program is traced in, and what it gives \<open>special_malloc\<close> and gets from it;
  no context change.
\<close>

fun counter_event :: "(event \<Rightarrow> bool) \<Rightarrow> u64 \<Rightarrow> u64 \<Rightarrow> event \<Rightarrow> bool" where
  "counter_event ok A sz (Memory r r2 w) = ok (Memory r r2 w)"
| "counter_event ok A sz (Function_Call name sp a1 a2 a3) =
     (name = ''atomic_trace::special_malloc'' \<and> a1 = sz \<or> name = ''atomic_trace::special_free'')"
| "counter_event ok A sz (Function_Return name sp v) =
     (name = ''atomic_trace::special_malloc'' \<and> v = A \<or> name = ''atomic_trace::special_free'')"
| "counter_event ok A sz Context_Change = False"
| "counter_event ok A sz ev = True"

text \<open>
  The trace of a counter program: it allocates the counter once, before the accesses to it, and
  there is no access that meets the counter's memory but does not fit.
\<close>

definition tests_counter ::
  "(u64 \<Rightarrow> event \<Rightarrow> bool) \<Rightarrow> (u64 \<Rightarrow> u64 \<Rightarrow> event \<Rightarrow> bool) \<Rightarrow> u64 \<Rightarrow> u64 \<Rightarrow> entry list \<Rightarrow> bool" where
  "tests_counter watched other A sz es \<longleftrightarrow>
     A \<noteq> 0 \<and> in_range A 8 \<and> 8 \<le> uint sz \<and>
     list_all (\<lambda>e. clean_event (entry_event e)) es \<and>
     list_all (\<lambda>e. counter_event (\<lambda>ev. watched A ev \<or> other A sz ev) A sz (entry_event e)) es \<and>
     (case (times_of is_malloc_call es, times_of is_malloc_return es) of
        ([t], [t']) \<Rightarrow> t < t' \<and> list_all (\<lambda>e. watched A (entry_event e) \<longrightarrow> t' < entry_time e) es
      | _ \<Rightarrow> False)"

lemma tests_counterD:
  assumes "tests_counter watched other A sz es"
  obtains t t' where "A \<noteq> 0" "in_range A 8" "8 \<le> uint sz" "list_all (\<lambda>e. clean_event (entry_event e)) es"
    "list_all (\<lambda>e. counter_event (\<lambda>ev. watched A ev \<or> other A sz ev) A sz (entry_event e)) es"
    "times_of is_malloc_call es = [t]" "times_of is_malloc_return es = [t']" "t < t'"
    "list_all (\<lambda>e. watched A (entry_event e) \<longrightarrow> t' < entry_time e) es"
proof -
  from assms obtain t t' where "times_of is_malloc_call es = [t]" "times_of is_malloc_return es = [t']"
    "t < t'" "list_all (\<lambda>e. watched A (entry_event e) \<longrightarrow> t' < entry_time e) es"
    unfolding tests_counter_def by (auto split: list.splits)
  with assms that show thesis unfolding tests_counter_def by blast
qed

lemma syncs_event: "syncs e \<Longrightarrow> entry_event e = Thread_Sync"
  by (cases e) (simp add: syncs_def skipped_def)

lemma times_of_mset:
  assumes "mset es' = mset (filter (\<lambda>e. \<not> syncs e) es)" "\<not> P Thread_Sync" "times_of P es = [t]"
  shows "times_of P es' = [t]"
proof -
  have "filter (\<lambda>e. P (entry_event e) \<and> \<not> syncs e) es = filter (\<lambda>e. P (entry_event e)) es"
    using assms(2) by (intro filter_cong) (auto dest: syncs_event)
  then have "mset (times_of P es') = mset (times_of P es)"
    unfolding times_of_def mset_map mset_filter assms(1)
    by (simp add: filter_filter_mset conj_commute flip: mset_filter)
  then show ?thesis by (simp add: assms(3))
qed

lemma tests_counter_mset:
  assumes "mset es' = mset (filter (\<lambda>e. \<not> syncs e) es)" "tests_counter watched other A sz es"
  shows "tests_counter watched other A sz es'"
proof -
  have sub: "set es' \<subseteq> set es" using mset_eq_setD [OF assms(1)] by auto
  then have all: "list_all P es'" if "list_all P es" for P using that by (auto simp: list_all_iff)
  obtain t t' where t: "times_of is_malloc_call es = [t]" "times_of is_malloc_return es = [t']" "t < t'"
    "list_all (\<lambda>e. watched A (entry_event e) \<longrightarrow> t' < entry_time e) es"
    using assms(2) by (rule tests_counterD)
  have "times_of is_malloc_call es' = [t]" "times_of is_malloc_return es' = [t']"
    using times_of_mset [OF assms(1)] t by simp_all
  with t all assms(2) show ?thesis unfolding tests_counter_def by simp
qed

section \<open>Registrations in an accepted file\<close>

definition users_of :: "event \<Rightarrow> entry list \<Rightarrow> int list" where
  "users_of ev es = map fst (map snd (filter (\<lambda>e. entry_event e = ev) es))"

lemma users_of_simps [simp]: "users_of ev [] = []"
  "users_of ev (es @ es') = users_of ev es @ users_of ev es'"
  "users_of ev (e # es) = (if entry_event e = ev then [entry_user e] else []) @ users_of ev es"
  by (simp_all add: users_of_def)

text \<open>Every user is registered once and finishes once, at a later time.\<close>

definition well_registered :: "entry list \<Rightarrow> bool" where
  "well_registered es \<longleftrightarrow>
     distinct (users_of Thread_Register es) \<and> distinct (users_of Thread_Finish es) \<and>
     (\<forall>e \<in> set es. entry_event e = Thread_Finish \<longrightarrow>
        (\<exists>d \<in> set es. entry_event d = Thread_Register \<and> entry_user d = entry_user e \<and>
           entry_time d < entry_time e))"

lemma accepted_users:
  assumes "accepted h (map parsed_entry es)" "history_ok h"
  shows "distinct (users_of Thread_Register es) \<and> distinct (users_of Thread_Finish es) \<and>
    (\<forall>u \<in> set (users_of Thread_Register es). live h u = None \<and> u \<notin> set (ended h)) \<and>
    (\<forall>u \<in> set (users_of Thread_Finish es). u \<notin> set (ended h)) \<and>
    (\<forall>e \<in> set es. entry_event e = Thread_Finish \<longrightarrow>
       (\<exists>t. live h (entry_user e) = Some t \<and> t < entry_time e) \<or>
       (\<exists>d \<in> set es. entry_event d = Thread_Register \<and> entry_user d = entry_user e \<and>
           entry_time d < entry_time e))"
  using assms
proof (induction es arbitrary: h)
  case (Cons e es)
  obtain t u ev where e: "e = (t, u, ev)" by (cases e) auto
  let ?p = "parsed_entry e"
  from Cons.prems have ok: "line_ok h ?p" and acc: "accepted (advance h ?p) (map parsed_entry es)"
    by simp_all
  note IH = Cons.IH [OF acc history_advance(1) [OF Cons.prems(2) ok]]
  have live_ended: "live h v = None" if "v \<in> set (ended h)" for v
    using Cons.prems(2) that by (cases "live h v") (auto simp: history_ok_def)
  have adv: "live (advance h ?p) = (if ev = Thread_Finish then (live h)(u := None)
       else if 0 \<le> u then (live h)(u \<mapsto> t) else live h)"
    "ended (advance h ?p) = (if ev = Thread_Finish then u # ended h else ended h)"
    by (simp_all add: advance_def e)
  show ?case
  proof (intro conjI ballI impI)
    show "distinct (users_of Thread_Register (e # es))" "distinct (users_of Thread_Finish (e # es))"
      using IH ok adv by (auto simp: e line_ok_def split: if_splits option.splits)
    fix v assume "v \<in> set (users_of Thread_Register (e # es))"
    then show "live h v = None" "v \<notin> set (ended h)"
      using IH ok adv live_ended by (fastforce simp: e line_ok_def split: if_splits option.splits)+
  next
    fix v assume "v \<in> set (users_of Thread_Finish (e # es))"
    then show "v \<notin> set (ended h)"
      using IH ok adv live_ended by (fastforce simp: e line_ok_def split: if_splits option.splits)
  next
    fix f assume f: "f \<in> set (e # es)" "entry_event f = Thread_Finish"
    let ?ok = "\<lambda>h xs. (\<exists>t. live h (entry_user f) = Some t \<and> t < entry_time f) \<or>
       (\<exists>d \<in> set xs. entry_event d = Thread_Register \<and> entry_user d = entry_user f \<and>
           entry_time d < entry_time f)"
    show "?ok h (e # es)"
    proof (cases "f = e")
      case True
      with ok f(2) show ?thesis by (auto simp: e line_ok_def split: if_splits option.splits)
    next
      case False
      with f IH have "?ok (advance h ?p) es" by auto
      then show ?thesis
      proof
        assume "\<exists>t. live (advance h ?p) (entry_user f) = Some t \<and> t < entry_time f"
        then show ?thesis
          using ok adv by (auto simp: e line_ok_def split: if_splits option.splits)
      qed auto
    qed
  qed
qed simp

lemma accepted_registered:
  assumes "accepted no_history (map parsed_entry es)"
  shows "well_registered es"
proof -
  have "history_ok no_history" by (simp add: history_ok_def no_history_def)
  from accepted_users [OF assms this] show ?thesis
    by (auto simp: well_registered_def no_history_def)
qed

lemma well_registered_mset:
  assumes "mset es' = mset (filter (\<lambda>e. \<not> syncs e) es)" "well_registered es"
  shows "well_registered es'"
proof -
  have "mset (users_of ev es') = mset (users_of ev es)" if "ev \<noteq> Thread_Sync" for ev
  proof -
    have "filter (\<lambda>e. entry_event e = ev \<and> \<not> syncs e) es = filter (\<lambda>e. entry_event e = ev) es"
      using that by (intro filter_cong) (auto dest: syncs_event)
    then show ?thesis
      unfolding users_of_def mset_map mset_filter assms(1)
      by (simp add: filter_filter_mset conj_commute flip: mset_filter)
  qed
  then have "distinct (users_of ev es') \<longleftrightarrow> distinct (users_of ev es)" if "ev \<noteq> Thread_Sync" for ev
    using that mset_eq_imp_distinct_iff by blast
  moreover have "set es' = {e \<in> set es. \<not> syncs e}" using mset_eq_setD [OF assms(1)] by auto
  ultimately show ?thesis
    using assms(2) unfolding well_registered_def by (fastforce dest: syncs_event)
qed

lemma earlier_entry:
  assumes "sorted (map fst (pre @ e # post))" "d \<in> set (pre @ e # post)" "entry_time d < entry_time e"
  shows "d \<in> set pre"
  using assms by (auto simp: sorted_append)

lemma times_of_snoc:
  "times_of P (es @ [e]) = times_of P es @ (if P (entry_event e) then [entry_time e] else [])"
  by (simp add: times_of_def)

lemma times_of_reached:
  assumes "sorted (map fst (pre @ e # post))" "times_of P (pre @ e # post) = [t]"
  shows "t < entry_time e \<Longrightarrow> times_of P pre \<noteq> []"
    "P (entry_event e) \<Longrightarrow> times_of P pre = [] \<and> entry_time e = t"
    "times_of P pre \<noteq> [] \<Longrightarrow> t \<le> entry_time e"
proof -
  have split: "times_of P pre @ (if P (entry_event e) then [entry_time e] else []) @ times_of P post = [t]"
    using assms(2) by (cases "P (entry_event e)") (simp_all add: times_of_def)
  have sub: "set (times_of P es) \<subseteq> fst ` set es" for es by (auto simp: times_of_def)
  have le: "\<forall>d \<in> set pre. entry_time d \<le> entry_time e" "\<forall>d \<in> set post. entry_time e \<le> entry_time d"
    using assms(1) by (auto simp: sorted_append)
  show "times_of P pre \<noteq> []" if "t < entry_time e"
  proof
    assume "times_of P pre = []"
    with split that have "times_of P post = [t]" by (auto split: if_splits)
    with sub [of post] le(2) that show False by force
  qed
  show "times_of P pre = [] \<and> entry_time e = t" if "P (entry_event e)"
    using split that by (auto simp: append_eq_Cons_conv)
  show "t \<le> entry_time e" if "times_of P pre \<noteq> []"
  proof -
    from split that have "times_of P pre = [t]" by (auto simp: append_eq_Cons_conv)
    with sub [of pre] le(1) show ?thesis by force
  qed
qed

lemma users_of_set: "u \<in> set (users_of ev es) \<longleftrightarrow> (\<exists>e \<in> set es. entry_event e = ev \<and> entry_user e = u)"
  by (auto simp: users_of_def)

lemma finish_registered:
  assumes "sorted (map fst (pre @ e # post))" "well_registered (pre @ e # post)"
    and "entry_event e = Thread_Finish"
  shows "entry_user e \<in> set (users_of Thread_Register pre)"
proof -
  have "e \<in> set (pre @ e # post)" by simp
  with assms(2,3) obtain d where d: "d \<in> set (pre @ e # post)" "entry_event d = Thread_Register"
    "entry_user d = entry_user e" "entry_time d < entry_time e"
    unfolding well_registered_def by metis
  then have "d \<in> set pre" using earlier_entry [OF assms(1)] by blast
  with d show ?thesis by (auto simp: users_of_set)
qed

lemma finish_registers:
  assumes "sorted (map fst (pre @ e # post))" "well_registered (pre @ e # post)"
    and "entry_event e = Thread_Register"
  shows "entry_user e \<notin> set (users_of Thread_Finish pre)"
proof
  assume "entry_user e \<in> set (users_of Thread_Finish pre)"
  then obtain f where f: "f \<in> set pre" "entry_event f = Thread_Finish" "entry_user f = entry_user e"
    by (auto simp: users_of_set)
  then have "f \<in> set (pre @ e # post)" by simp
  with assms(2) f(2,3) obtain d where d: "d \<in> set (pre @ e # post)" "entry_event d = Thread_Register"
    "entry_user d = entry_user e" "entry_time d < entry_time f"
    unfolding well_registered_def by metis
  moreover have "entry_time f \<le> entry_time e" using assms(1) f(1) by (auto simp: sorted_append)
  ultimately have "d \<in> set pre" using earlier_entry [OF assms(1), of d] by simp
  with d(2,3) have "entry_user e \<in> set (users_of Thread_Register pre)" by (auto simp: users_of_set)
  moreover have "distinct (users_of Thread_Register (pre @ e # post))"
    using assms(2) by (simp add: well_registered_def)
  ultimately show False using assms(3) by simp
qed

lemma apply_events_append:
  "apply_events sim i (es @ es') s = andThen (apply_events sim i es s) (apply_events sim (i + length es) es')"
  by (induction es arbitrary: i s) (simp_all add: andThen_def split: sum.split)

section \<open>The interface of a counter simulation\<close>

text \<open>
  Before \<open>special_malloc\<close> has returned, memory accesses change nothing; after that \<open>watched\<close> events
  are tallied and \<open>other\<close> events pass. All of them access the counter's first byte.
\<close>

locale counter_simulation = trace_client sim
  for sim :: "my_sim simulation" +
  fixes watched :: "u64 \<Rightarrow> event \<Rightarrow> bool" and other :: "u64 \<Rightarrow> u64 \<Rightarrow> event \<Rightarrow> bool"
    and tally :: "event \<Rightarrow> int \<Rightarrow> my_sim \<Rightarrow> my_sim"
  assumes methods: "sim_start_thread sim = sim_start" "sim_finish_thread sim = sim_finish"
      "sim_function_call sim = sim_call" "sim_function_return sim = sim_return"
      "sim_start_roi sim = (\<lambda>i s. Inr s)" "sim_end_roi sim = (\<lambda>i s. Inr s)"
    and unarmed: "special_address s = None \<Longrightarrow> apply_event sim i u (Memory r r2 w) s = Inr s"
    and counts: "special_address s = Some (uint A) \<Longrightarrow> 0 \<le> special_size s \<Longrightarrow> A \<noteq> 0 \<Longrightarrow>
      watched A ev \<Longrightarrow> apply_event sim i u ev s = Inr (tally ev u s)"
    and passes: "special_address s = Some (uint A) \<Longrightarrow> special_size s = uint sz \<Longrightarrow> A \<noteq> 0 \<Longrightarrow>
      \<not> watched A (Memory r r2 w) \<Longrightarrow> other A sz (Memory r r2 w) \<Longrightarrow>
      apply_event sim i u (Memory r r2 w) s = Inr s"
    and tally_frame: "tally ev u (s\<lparr>special_address := a, special_size := n, active_threads := ts\<rparr>) =
      (tally ev u s)\<lparr>special_address := a, special_size := n, active_threads := ts\<rparr>"
    and watched_access: "watched A ev \<Longrightarrow> is_access ev"
    and watched_touches: "watched A ev \<Longrightarrow> in_range A 8 \<Longrightarrow> event_in_range ev \<and> event_touches ev A"
begin

definition tallied :: "u64 \<Rightarrow> entry list \<Rightarrow> my_sim" where
  "tallied A es =
     fold (\<lambda>e. tally (entry_event e) (entry_user e)) (filter (\<lambda>e. watched A (entry_event e)) es) new_sim"

definition state_after :: "u64 \<Rightarrow> u64 \<Rightarrow> entry list \<Rightarrow> my_sim" where
  "state_after A sz es =
     (tallied A es)
       \<lparr>special_address := (if times_of is_malloc_return es = [] then None else Some (uint A)),
        special_size := (if times_of is_malloc_call es = [] then 0 else uint sz),
        active_threads := set (users_of Thread_Register es) - set (users_of Thread_Finish es)\<rparr>"

lemma state_after_sel [simp]:
  "special_address (state_after A sz es) =
     (if times_of is_malloc_return es = [] then None else Some (uint A))"
  "special_size (state_after A sz es) = (if times_of is_malloc_call es = [] then 0 else uint sz)"
  "active_threads (state_after A sz es) =
     set (users_of Thread_Register es) - set (users_of Thread_Finish es)"
  by (simp_all add: state_after_def)

lemma state_after_snoc:
  "state_after A sz (es @ [e]) =
     (if watched A (entry_event e) then tally (entry_event e) (entry_user e) (state_after A sz es)
      else state_after A sz es)
       \<lparr>special_address := (if times_of is_malloc_return (es @ [e]) = [] then None else Some (uint A)),
        special_size := (if times_of is_malloc_call (es @ [e]) = [] then 0 else uint sz),
        active_threads := set (users_of Thread_Register (es @ [e])) - set (users_of Thread_Finish (es @ [e]))\<rparr>"
  by (simp add: state_after_def tallied_def tally_frame)

lemma state_after_same:
  "special_address s = a \<Longrightarrow> special_size s = n \<Longrightarrow> active_threads s = ts \<Longrightarrow>
   s\<lparr>special_address := a, special_size := n, active_threads := ts\<rparr> = s"
  by simp

lemma tally_sel [simp]:
  "special_address (tally ev u s) = special_address s" "special_size (tally ev u s) = special_size s"
  "active_threads (tally ev u s) = active_threads s"
proof -
  have "tally ev u s = tally ev u (s\<lparr>special_address := special_address s,
    special_size := special_size s, active_threads := active_threads s\<rparr>)" by simp
  then have e: "tally ev u s = (tally ev u s)\<lparr>special_address := special_address s,
    special_size := special_size s, active_threads := active_threads s\<rparr>" unfolding tally_frame .
  show "special_address (tally ev u s) = special_address s" by (subst e) simp
  show "special_size (tally ev u s) = special_size s" by (subst e) simp
  show "active_threads (tally ev u s) = active_threads s" by (subst e) simp
qed

lemma tallied_snoc:
  "tallied A (es @ [e]) = (if watched A (entry_event e) then tally (entry_event e) (entry_user e) (tallied A es)
     else tallied A es)"
  by (simp add: tallied_def)

lemma not_watched: "\<not> is_access ev \<Longrightarrow> \<not> watched A ev"
  using watched_access by blast

lemma replay_step:
  assumes tests: "tests_counter watched other A sz (pre @ e # post)"
    and sorted: "sorted (map fst (pre @ e # post))"
    and reg: "well_registered (pre @ e # post)"
  shows "apply_event sim i (entry_user e) (entry_event e) (state_after A sz pre) =
    Inr (state_after A sz (pre @ [e]))"
proof -
  let ?s = "state_after A sz pre"
  obtain t t' where t: "A \<noteq> 0" "8 \<le> uint sz"
    "list_all (\<lambda>e. clean_event (entry_event e)) (pre @ e # post)"
    "list_all (\<lambda>e. counter_event (\<lambda>ev. watched A ev \<or> other A sz ev) A sz (entry_event e)) (pre @ e # post)"
    "times_of is_malloc_call (pre @ e # post) = [t]" "times_of is_malloc_return (pre @ e # post) = [t']"
    "t < t'" "list_all (\<lambda>e. watched A (entry_event e) \<longrightarrow> t' < entry_time e) (pre @ e # post)"
    using tests by (rule tests_counterD)
  note called = times_of_reached [OF sorted t(5)] and returned = times_of_reached [OF sorted t(6)]
  have ok: "clean_event (entry_event e)"
    "counter_event (\<lambda>ev. watched A ev \<or> other A sz ev) A sz (entry_event e)"
    "watched A (entry_event e) \<Longrightarrow> t' < entry_time e"
    using t(3,4,8) by simp_all
  note snoc = state_after_snoc times_of_snoc
  show ?thesis
  proof (cases "entry_event e")
    case (Memory r r2 w)
    consider "watched A (entry_event e)" | "\<not> watched A (entry_event e)" "times_of is_malloc_return pre = []"
      | "\<not> watched A (entry_event e)" "times_of is_malloc_return pre \<noteq> []"
      by blast
    then show ?thesis
    proof cases
      case 1
      have "apply_event sim i (entry_user e) (entry_event e) ?s = Inr (tally (entry_event e) (entry_user e) ?s)"
        by (rule counts [OF _ _ t(1) 1]) (use returned(1) ok(3) 1 in auto)
      with 1 Memory show ?thesis by (simp add: snoc state_after_same)
    next
      case 2
      with Memory unarmed [of ?s i "entry_user e" r r2 w] show ?thesis by (simp add: snoc state_after_same)
    next
      case 3
      have "times_of is_malloc_call pre \<noteq> []"
        using 3(2) returned(3) called(1) t(7) by fastforce
      with 3 Memory ok(2) show ?thesis
        using passes [of ?s A sz r r2 w i "entry_user e"] t(1)
        by (simp add: snoc state_after_same)
    qed
  next
    case (Function_Call name sp a1 a2 a3)
    then have nw: "\<not> watched A (entry_event e)" by (simp add: not_watched)
    show ?thesis
    proof (cases "name = ''atomic_trace::special_malloc''")
      case True
      with Function_Call called(2) have c: "times_of is_malloc_call pre = []" "entry_time e = t" by simp_all
      with returned(3) t(7) have "times_of is_malloc_return pre = []" by fastforce
      with True Function_Call nw c ok(2) show ?thesis
        by (auto intro!: my_sim.equality simp: times_of_snoc tallied_snoc methods sim_call_def unset_def state_after_def)
    qed (use Function_Call nw ok(2) in \<open>simp add: snoc methods sim_call_def state_after_same\<close>)
  next
    case (Function_Return name sp v)
    then have nw: "\<not> watched A (entry_event e)" by (simp add: not_watched)
    show ?thesis
    proof (cases "name = ''atomic_trace::special_malloc''")
      case True
      with Function_Return returned(2) have c: "times_of is_malloc_return pre = []" "entry_time e = t'" by simp_all
      with called(1) t(7) have "times_of is_malloc_call pre \<noteq> []" by simp
      with True Function_Return nw c ok(2) t(2) show ?thesis
        by (auto intro!: my_sim.equality simp: times_of_snoc tallied_snoc methods sim_return_def unset_def state_after_def)
    qed (use Function_Return nw ok(2) in \<open>simp add: snoc methods sim_return_def state_after_same\<close>)
  next
    case Thread_Register
    then have nw: "\<not> watched A (entry_event e)" by (simp add: not_watched)
    have "entry_user e \<notin> set (users_of Thread_Register pre)" "entry_user e \<notin> set (users_of Thread_Finish pre)"
      using finish_registers [OF sorted reg] reg Thread_Register by (auto simp: well_registered_def)
    then show ?thesis
      using Thread_Register nw
      by (auto intro!: my_sim.equality simp: times_of_snoc tallied_snoc methods sim_start_def state_after_def)
  next
    case Thread_Finish
    then have nw: "\<not> watched A (entry_event e)" by (simp add: not_watched)
    have "entry_user e \<in> set (users_of Thread_Register pre)" "entry_user e \<notin> set (users_of Thread_Finish pre)"
      using finish_registered [OF sorted reg] reg Thread_Finish by (auto simp: well_registered_def)
    then show ?thesis
      using Thread_Finish nw
      by (auto intro!: my_sim.equality simp: times_of_snoc tallied_snoc methods sim_finish_def state_after_def)
  next
    case (Change_Roi name)
    then have "\<not> watched A (entry_event e)" by (simp add: not_watched)
    with Change_Roi show ?thesis by (simp add: snoc methods state_after_same)
  next
    case Thread_Sync
    then have "\<not> watched A (entry_event e)" by (simp add: not_watched)
    with Thread_Sync show ?thesis by (simp add: snoc state_after_same)
  qed (use ok(2) in simp)
qed

lemma replay_prefix:
  assumes "tests_counter watched other A sz es" "sorted (map fst es)" "well_registered es"
  shows "es = pre @ post \<Longrightarrow> apply_events sim i pre new_sim = Inr (state_after A sz pre)"
proof (induction pre arbitrary: post rule: rev_induct)
  case Nil
  then show ?case by (simp add: state_after_def tallied_def times_of_def new_sim_def)
next
  case (snoc e pre)
  from snoc.IH [of "e # post"] snoc.prems
    replay_step [of A sz pre e post "i + length pre"] assms
  show ?case by (simp add: apply_events_append)
qed

end

end
