(* ===== verification/Counter_Test.thy ===== *)
theory Counter_Test
  imports Prelude
begin

text \<open>
  The test programs \<open>src/src/inc.cpp\<close> and \<open>src/src/inc_cas.cpp\<close>: threads that increment a shared
  counter until they see the stop count, with an atomic fetch-and-add or with a compare-and-swap
  loop, and count their increments, those on even values and the failed swaps. A step is one
  access of the shared counter with the local work that goes with it, or the work after it. The
  numbers stay below the stop count plus the number of threads, so they do not wrap.
\<close>

section \<open>State and steps\<close>

text \<open>
  Where a worker is: at the top of its loop, in the compare-and-swap loop with \<open>orig\<close> and \<open>first\<close>,
  with its old value, at the end.
\<close>

datatype worker_pc = Ready | Trying nat bool | Got nat | Ended

record worker =
  w_pc :: worker_pc
  w_count :: nat
  w_even_count :: nat
  w_fail_count :: nat

record counter_state =
  counter :: nat
  workers :: "nat \<Rightarrow> worker"

definition new_worker :: worker where
  "new_worker = \<lparr>w_pc = Ready, w_count = 0, w_even_count = 0, w_fail_count = 0\<rparr>"

text \<open>\<open>main\<close>: the assertions on its arguments, the stop count, the counter at 0.\<close>

definition inc_main :: "int \<Rightarrow> int \<Rightarrow> (nat \<times> nat \<times> counter_state) result" where
  "inc_main num_threads to_insert_total =
     (if \<not> 0 < num_threads then Inl (Assertion ''num_threads > 0'')
      else if \<not> num_threads < to_insert_total
      then Inl (Assertion ''to_insert_total > num_threads'')
      else Inr (nat (to_insert_total - num_threads), nat num_threads,
                \<lparr>counter = 0, workers = (\<lambda>_. new_worker)\<rparr>))"

text \<open>After an increment that returned \<open>old_val\<close>: the counts, and the test of the loop.\<close>

definition account :: "nat \<Rightarrow> nat \<Rightarrow> worker \<Rightarrow> worker" where
  "account stop_count old_val w =
     w\<lparr>w_even_count := (if old_val mod 2 = 0 then w_even_count w + 1 else w_even_count w),
       w_count := w_count w + 1,
       w_pc := (if old_val < stop_count then Ready else Ended)\<rparr>"

definition set_worker :: "nat \<Rightarrow> worker \<Rightarrow> counter_state \<Rightarrow> counter_state" where
  "set_worker i w s = s\<lparr>workers := (workers s)(i := w)\<rparr>"

inductive inc_step :: "nat \<Rightarrow> nat \<Rightarrow> counter_state \<Rightarrow> counter_state \<Rightarrow> bool" for stop n where
  fetch: "i < n \<Longrightarrow> w_pc (workers s i) = Ready \<Longrightarrow>
    inc_step stop n s
      (set_worker i ((workers s i)\<lparr>w_pc := Got (counter s)\<rparr>) (s\<lparr>counter := counter s + 1\<rparr>))"
| count: "i < n \<Longrightarrow> w_pc (workers s i) = Got v \<Longrightarrow>
    inc_step stop n s (set_worker i (account stop v (workers s i)) s)"

text \<open>One round of the loop of \<open>inc_with_CAS\<close>: the failure count, the swap, the new \<open>orig\<close>.\<close>

definition cas_round :: "nat \<Rightarrow> bool \<Rightarrow> nat \<Rightarrow> worker \<Rightarrow> nat \<times> worker" where
  "cas_round orig fst_try c w =
     (let w1 = (if fst_try then w else w\<lparr>w_fail_count := w_fail_count w + 1\<rparr>) in
      if c = orig then (c + 1, w1\<lparr>w_pc := Got orig\<rparr>) else (c, w1\<lparr>w_pc := Trying c False\<rparr>))"

inductive cas_step :: "nat \<Rightarrow> nat \<Rightarrow> counter_state \<Rightarrow> counter_state \<Rightarrow> bool" for stop n where
  load: "i < n \<Longrightarrow> w_pc (workers s i) = Ready \<Longrightarrow>
    cas_step stop n s (set_worker i ((workers s i)\<lparr>w_pc := Trying (counter s) True\<rparr>) s)"
| swap: "i < n \<Longrightarrow> w_pc (workers s i) = Trying orig fst_try \<Longrightarrow>
    cas_round orig fst_try (counter s) (workers s i) = (c, w) \<Longrightarrow>
    cas_step stop n s (set_worker i w (s\<lparr>counter := c\<rparr>))"
| count: "i < n \<Longrightarrow> w_pc (workers s i) = Got v \<Longrightarrow>
    cas_step stop n s (set_worker i (account stop v (workers s i)) s)"

section \<open>The invariant\<close>

definition total :: "nat \<Rightarrow> (worker \<Rightarrow> nat) \<Rightarrow> counter_state \<Rightarrow> nat" where
  "total n f s = (\<Sum>i < n. f (workers s i))"

definition increments :: "worker \<Rightarrow> nat" where
  "increments w = w_count w + (case w_pc w of Got v \<Rightarrow> 1 | _ \<Rightarrow> 0)"

definition evens :: "worker \<Rightarrow> nat" where
  "evens w = w_even_count w + (case w_pc w of Got v \<Rightarrow> if even v then 1 else 0 | _ \<Rightarrow> 0)"

definition past :: "nat \<Rightarrow> worker \<Rightarrow> nat" where
  "past stop w = (case w_pc w of Got v \<Rightarrow> if stop \<le> v then 1 else 0 | Ended \<Rightarrow> 1 | _ \<Rightarrow> 0)"

definition count_inv :: "nat \<Rightarrow> nat \<Rightarrow> counter_state \<Rightarrow> bool" where
  "count_inv stop n s \<longleftrightarrow>
     total n increments s = counter s \<and> total n evens s = (counter s + 1) div 2 \<and>
     total n (past stop) s = counter s - stop \<and>
     (\<forall>i < n. \<forall>orig b. w_pc (workers s i) = Trying orig b \<longrightarrow> orig \<le> counter s)"

lemma total_set_worker:
  "i < n \<Longrightarrow> total n f (set_worker i w s) + f (workers s i) = total n f s + f w"
proof -
  assume i: "i < n"
  have split: "total n f u = f (workers u i) + (\<Sum>j \<in> {..<n} - {i}. f (workers u j))" for u
    unfolding total_def using i by (simp add: sum.remove)
  have "(\<Sum>j \<in> {..<n} - {i}. f (workers (set_worker i w s) j)) = (\<Sum>j \<in> {..<n} - {i}. f (workers s j))"
    by (rule sum.cong) (auto simp: set_worker_def)
  then show ?thesis
    using split [of "set_worker i w s"] split [of s] by (simp add: set_worker_def)
qed

lemma total_counter [simp]: "total n f (s\<lparr>counter := c\<rparr>) = total n f s"
  by (simp add: total_def)

lemma set_worker_sel [simp]: "counter (set_worker i w s) = counter s"
  "workers (set_worker i w s) = (workers s)(i := w)"
  by (simp_all add: set_worker_def)

lemma count_inv_update:
  assumes inv: "count_inv stop n s" and i: "i < n"
    and inc: "increments w + counter s = increments (workers s i) + c"
    and ev: "evens w + (counter s + 1) div 2 = evens (workers s i) + (c + 1) div 2"
    and pa: "past stop w + (counter s - stop) = past stop (workers s i) + (c - stop)"
    and orig: "\<And>v b. w_pc w = Trying v b \<Longrightarrow> v \<le> c" and le: "counter s \<le> c"
  shows "count_inv stop n (set_worker i w (s\<lparr>counter := c\<rparr>))"
proof -
  let ?t = "set_worker i w (s\<lparr>counter := c\<rparr>)"
  note T = total_set_worker [OF i, of _ w "s\<lparr>counter := c\<rparr>"]
  have "total n increments ?t = c" "total n evens ?t = (c + 1) div 2"
    "total n (past stop) ?t = c - stop"
    using T [of increments] T [of evens] T [of "past stop"] inv inc ev pa
    by (simp_all add: count_inv_def)
  moreover have "v \<le> c" if "j < n" "w_pc (workers ?t j) = Trying v b" for j v b
    using that inv orig le by (auto simp: count_inv_def split: if_splits intro: order_trans)
  ultimately show ?thesis by (simp add: count_inv_def)
qed

lemma total_member: "i < n \<Longrightarrow> f (workers s i) \<le> total n f s"
  unfolding total_def by (rule member_le_sum) simp_all

lemma past_le: "past stop w \<le> 1"
  by (simp add: past_def split: worker_pc.split)

text \<open>The counter never passes the stop count by more than one increment of each thread.\<close>

lemma counter_bound: "count_inv stop n s \<Longrightarrow> counter s \<le> stop + n"
proof -
  assume "count_inv stop n s"
  moreover have "total n (past stop) s \<le> (\<Sum>i < n. 1)"
    unfolding total_def by (rule sum_mono) (rule past_le)
  ultimately show ?thesis by (simp add: count_inv_def)
qed

section \<open>The interface of the two programs\<close>

text \<open>
  What is needed of the steps: they keep the invariant, some thread can always go on until all
  have ended, and no run goes on for ever.
\<close>

locale counting =
  fixes step :: "nat \<Rightarrow> nat \<Rightarrow> counter_state \<Rightarrow> counter_state \<Rightarrow> bool"
    and good :: "nat \<Rightarrow> nat \<Rightarrow> counter_state \<Rightarrow> bool"
    and bound :: "nat \<Rightarrow> nat \<Rightarrow> counter_state \<Rightarrow> nat"
  assumes counts: "good stop n s \<Longrightarrow> count_inv stop n s"
    and keeps: "step stop n s t \<Longrightarrow> good stop n s \<Longrightarrow> good stop n t"
    and goes_on: "good stop n s \<Longrightarrow> i < n \<Longrightarrow> w_pc (workers s i) \<noteq> Ended \<Longrightarrow> \<exists>t. step stop n s t"
    and descends: "step stop n s t \<Longrightarrow> good stop n s \<Longrightarrow> bound stop n t < bound stop n s"
begin

lemma steps_good: "(step stop n ^^ k) s t \<Longrightarrow> good stop n s \<Longrightarrow>
   good stop n t \<and> k + bound stop n t \<le> bound stop n s"
proof (induction k arbitrary: t)
  case (Suc k)
  then obtain u where u: "(step stop n ^^ k) s u" "step stop n u t" by auto
  from Suc.IH [OF u(1) Suc.prems(2)] keeps [OF u(2)] descends [OF u(2)] show ?case by fastforce
qed simp

lemma all_counted:
  assumes "(step stop n ^^ k) s t" "good stop n s" "0 < n"
  shows "k \<le> bound stop n s \<and>
    ((\<exists>u. step stop n t u) \<or>
     counter t = stop + n \<and> total n w_count t = stop + n \<and>
     total n w_even_count t = (stop + n + 1) div 2)"
proof (cases "\<exists>i < n. w_pc (workers t i) \<noteq> Ended")
  case True
  with steps_good [OF assms(1,2)] goes_on show ?thesis by fastforce
next
  case False
  note good = steps_good [OF assms(1,2)]
  have inv: "count_inv stop n t" by (rule counts [OF conjunct1 [OF good]])
  have p: "total n (past stop) t = (\<Sum>i < n. 1)"
    "total n increments t = total n w_count t" "total n evens t = total n w_even_count t"
    unfolding total_def using False by (auto simp: past_def increments_def evens_def intro!: sum.cong)
  then have e: "counter t - stop = n" "total n w_count t = counter t"
    "total n w_even_count t = (counter t + 1) div 2"
    using inv unfolding count_inv_def by auto
  then have "counter t = stop + n" using assms(3) by simp
  with e good show ?thesis by simp
qed

end

section \<open>Fetch-and-add\<close>

definition inc_good :: "nat \<Rightarrow> nat \<Rightarrow> counter_state \<Rightarrow> bool" where
  "inc_good stop n s \<longleftrightarrow> count_inv stop n s \<and> (\<forall>i < n. \<forall>v b. w_pc (workers s i) \<noteq> Trying v b)"

fun inc_rank :: "worker_pc \<Rightarrow> nat" where
  "inc_rank (Got v) = 1"
| "inc_rank pc = 0"

definition inc_bound :: "nat \<Rightarrow> nat \<Rightarrow> counter_state \<Rightarrow> nat" where
  "inc_bound stop n s = 2 * (stop + n - counter s) + total n (\<lambda>w. inc_rank (w_pc w)) s"

lemma account_counts:
  assumes "w_pc w = Got v"
  shows "increments (account stop v w) = increments w" "evens (account stop v w) = evens w"
    "past stop (account stop v w) = past stop w" "w_pc (account stop v w) \<noteq> Trying u b"
    "w_pc (account stop v w) = Ready \<or> w_pc (account stop v w) = Ended"
  using assms by (auto simp: account_def increments_def evens_def past_def even_iff_mod_2_eq_zero)

lemma count_inv_account:
  assumes inv: "count_inv stop n s" and i: "i < n" "w_pc (workers s i) = Got v"
  shows "count_inv stop n (set_worker i (account stop v (workers s i)) s)"
proof -
  note A = account_counts [OF i(2), of stop]
  have "count_inv stop n (set_worker i (account stop v (workers s i)) (s\<lparr>counter := counter s\<rparr>))"
    by (rule count_inv_update [OF inv i(1)]) (simp_all add: A)
  then show ?thesis by simp
qed

lemma count_inv_fetch:
  assumes inv: "count_inv stop n s" and i: "i < n"
    and w: "w_pc w = Got (counter s)" "w_count w = w_count (workers s i)"
      "w_even_count w = w_even_count (workers s i)"
    and pc: "\<forall>v. w_pc (workers s i) \<noteq> Got v" "w_pc (workers s i) \<noteq> Ended"
  shows "count_inv stop n (set_worker i w (s\<lparr>counter := counter s + 1\<rparr>))"
  by (rule count_inv_update [OF inv i])
    (use w pc in \<open>auto simp: increments_def evens_def past_def split: worker_pc.splits\<close>)

lemma count_bound_fetch:
  assumes "count_inv stop n (set_worker i w (s\<lparr>counter := counter s + 1\<rparr>))"
  shows "counter s < stop + n"
  using counter_bound [OF assms] by simp

interpretation ci: counting inc_step inc_good inc_bound
proof unfold_locales
  fix stop n s
  assume "inc_good stop n s"
  then show "count_inv stop n s" by (simp add: inc_good_def)
next
  fix stop n s t
  assume step: "inc_step stop n s t" and good: "inc_good stop n s"
  have inv: "count_inv stop n s" using good by (simp add: inc_good_def)
  from step show "inc_good stop n t"
  proof cases
    case (fetch i)
    with good count_inv_fetch [OF inv fetch(2), of "(workers s i)\<lparr>w_pc := Got (counter s)\<rparr>"]
    show ?thesis by (auto simp: inc_good_def)
  next
    case (count i v)
    with good count_inv_account [OF inv count(2,3)] account_counts(4) [OF count(3)]
    show ?thesis by (auto simp: inc_good_def)
  qed
  from step show "inc_bound stop n t < inc_bound stop n s"
  proof cases
    case (fetch i)
    let ?w = "(workers s i)\<lparr>w_pc := Got (counter s)\<rparr>"
    have "counter s < stop + n"
      using count_inv_fetch [OF inv fetch(2), of ?w] fetch(3) by (intro count_bound_fetch) simp
    with total_set_worker [OF fetch(2), of "\<lambda>w. inc_rank (w_pc w)" ?w "s\<lparr>counter := counter s + 1\<rparr>"] fetch
    show ?thesis by (simp add: inc_bound_def)
  next
    case (count i v)
    with total_set_worker [OF count(2), of "\<lambda>w. inc_rank (w_pc w)" "account stop v (workers s i)" s]
      account_counts(5) [OF count(3), of stop]
    show ?thesis by (auto simp: inc_bound_def)
  qed
next
  fix stop n s i
  assume "inc_good stop n s" "i < n" "w_pc (workers s i) \<noteq> Ended"
  then show "\<exists>t. inc_step stop n s t"
    by (cases "w_pc (workers s i)") (auto simp: inc_good_def intro: inc_step.intros)
qed

section \<open>Compare-and-swap\<close>

fun cas_rank :: "nat \<Rightarrow> worker_pc \<Rightarrow> nat" where
  "cas_rank m Ready = m + 2"
| "cas_rank m (Trying v b) = m - v + 1"
| "cas_rank m (Got v) = m + 3"
| "cas_rank m Ended = 0"

text \<open>A failed swap moves \<open>orig\<close> up, a successful one the counter: the loop is lock-free and ends.\<close>

definition cas_bound :: "nat \<Rightarrow> nat \<Rightarrow> counter_state \<Rightarrow> nat" where
  "cas_bound stop n s =
     (stop + n + 4) * (stop + n - counter s) + total n (\<lambda>w. cas_rank (stop + n) (w_pc w)) s"

lemma cas_round_cases:
  assumes "cas_round orig b c w = (c', w')"
  shows "w_count w' = w_count w \<and> w_even_count w' = w_even_count w \<and>
    (c = orig \<and> c' = c + 1 \<and> w_pc w' = Got c \<or> c \<noteq> orig \<and> c' = c \<and> w_pc w' = Trying c False)"
  using assms by (auto simp: cas_round_def Let_def split: if_splits)

lemma cas_keeps:
  assumes step: "cas_step stop n s t" and inv: "count_inv stop n s"
  shows "count_inv stop n t"
  using step
proof cases
  case (load i)
  have "count_inv stop n (set_worker i ((workers s i)\<lparr>w_pc := Trying (counter s) True\<rparr>)
      (s\<lparr>counter := counter s\<rparr>))"
    by (rule count_inv_update [OF inv load(2)])
      (use load in \<open>auto simp: increments_def evens_def past_def\<close>)
  with load show ?thesis by simp
next
  case (swap i orig b c w)
  note R = cas_round_cases [OF swap(4)]
  show ?thesis
  proof (cases "counter s = orig")
    case True
    with R swap count_inv_fetch [OF inv swap(2), of w] show ?thesis by auto
  next
    case False
    have "count_inv stop n (set_worker i w (s\<lparr>counter := counter s\<rparr>))"
      by (rule count_inv_update [OF inv swap(2)])
        (use R swap False in \<open>auto simp: increments_def evens_def past_def\<close>)
    with swap R False show ?thesis by simp
  qed
next
  case (count i v)
  with count_inv_account [OF inv count(2,3)] show ?thesis by simp
qed

lemma cas_descends:
  assumes step: "cas_step stop n s t" and inv: "count_inv stop n s"
  shows "cas_bound stop n t < cas_bound stop n s"
  using step
proof cases
  case (load i)
  with total_set_worker [OF load(2), of "\<lambda>w. cas_rank (stop + n) (w_pc w)"
      "(workers s i)\<lparr>w_pc := Trying (counter s) True\<rparr>" s]
  show ?thesis by (simp add: cas_bound_def)
next
  case (swap i orig b c w)
  note R = cas_round_cases [OF swap(4)]
  note T = total_set_worker [OF swap(2), of "\<lambda>w. cas_rank (stop + n) (w_pc w)" w "s\<lparr>counter := c\<rparr>"]
  have le: "counter t \<le> stop + n" by (rule counter_bound [OF cas_keeps [OF step inv]])
  have o: "orig \<le> counter s" using inv swap by (auto simp: count_inv_def)
  show ?thesis
  proof (cases "counter s = orig")
    case True
    with R swap le have "c = counter s + 1" "w_pc w = Got (counter s)" "counter s < stop + n" by auto
    moreover from this(3) have "(stop + n + 4) * (stop + n - counter s) =
        (stop + n + 4) + (stop + n + 4) * (stop + n - (counter s + 1))"
      by (metis Suc_diff_Suc Suc_eq_plus1 mult_Suc_right)
    ultimately show ?thesis using T swap by (simp add: cas_bound_def)
  next
    case False
    with R o swap le have "c = counter s" "w_pc w = Trying (counter s) False" "orig < counter s"
      "counter s \<le> stop + n" by auto
    with T swap show ?thesis by (simp add: cas_bound_def)
  qed
next
  case (count i v)
  with total_set_worker [OF count(2), of "\<lambda>w. cas_rank (stop + n) (w_pc w)"
      "account stop v (workers s i)" s] account_counts(5) [OF count(3), of stop]
  show ?thesis by (auto simp: cas_bound_def)
qed

interpretation cc: counting cas_step count_inv cas_bound
proof unfold_locales
  fix stop n s i
  assume i: "count_inv stop n s" "i < n" "w_pc (workers s i) \<noteq> Ended"
  show "\<exists>t. cas_step stop n s t"
  proof (cases "w_pc (workers s i)")
    case (Trying orig b)
    from cas_step.swap [OF i(2) this surjective_pairing] show ?thesis by blast
  qed (use i in \<open>auto intro: cas_step.intros\<close>)
qed (simp_all add: cas_keeps cas_descends)

section \<open>Properties\<close>

lemma inc_main_start:
  assumes "inc_main num_threads to_insert_total = Inr (stop, n, s)"
  shows "inc_good stop n s" "count_inv stop n s" "0 < n" "int (stop + n) = to_insert_total"
    "counter s = 0" "w_pc (workers s i) = Ready" "0 < stop"
  using assms
  by (auto simp: inc_main_def new_worker_def inc_good_def count_inv_def total_def increments_def
      evens_def past_def split: if_splits)

text \<open>\<open>inc\<close>: whatever the interleaving, the threads end, and then the assertion on the counter
  holds: it is the requested total, the threads' counts add up to it, and their counts of even
  values add up to half of it, rounded up.\<close>

theorem inc_total:
  assumes "inc_main num_threads to_insert_total = Inr (stop, n, s)" and "(inc_step stop n ^^ k) s t"
  shows "int k \<le> 2 * to_insert_total \<and>
    ((\<exists>u. inc_step stop n t u) \<or>
     int (counter t) = to_insert_total \<and> total n w_count t = counter t \<and>
     total n w_even_count t = (counter t + 1) div 2)"
proof -
  note S = inc_main_start [OF assms(1)]
  have "inc_bound stop n s = 2 * (stop + n)"
    using S(5,6) by (simp add: inc_bound_def total_def)
  with ci.all_counted [OF assms(2) S(1,3)] S(4) show ?thesis by auto
qed

theorem inc_total_witness:
  "\<exists>s u. inc_main 2 5 = Inr (3, 2, s) \<and> inc_step 3 2 s u"
proof -
  obtain s where s: "inc_main 2 5 = Inr (3, 2, s)" "counter s = 0"
    by (simp add: inc_main_def)
  from inc_total [OF s(1), of 0 s] s show ?thesis by auto
qed

text \<open>\<open>inc_cas\<close>: the same for the compare-and-swap loop, failed swaps included: it ends, with the
  counter at the requested total, the counts adding up.\<close>

theorem cas_total:
  assumes "inc_main num_threads to_insert_total = Inr (stop, n, s)" and "(cas_step stop n ^^ k) s t"
  shows "k \<le> (stop + n + 4) * (stop + n) + n * (stop + n + 2) \<and>
    ((\<exists>u. cas_step stop n t u) \<or>
     int (counter t) = to_insert_total \<and> total n w_count t = counter t \<and>
     total n w_even_count t = (counter t + 1) div 2)"
proof -
  note S = inc_main_start [OF assms(1)]
  have "cas_bound stop n s = (stop + n + 4) * (stop + n) + n * (stop + n + 2)"
    using S(5,6) by (simp add: cas_bound_def total_def)
  with cc.all_counted [OF assms(2) S(2,3)] S(4) show ?thesis by auto
qed

theorem cas_total_witness:
  "\<exists>s u. inc_main 2 5 = Inr (3, 2, s) \<and> cas_step 3 2 s u"
proof -
  obtain s where s: "inc_main 2 5 = Inr (3, 2, s)" "counter s = 0"
    by (simp add: inc_main_def)
  from cas_total [OF s(1), of 0 s] s show ?thesis by auto
qed

end
