(* ===== verification/Counter_History.thy ===== *)
theory Counter_History
  imports Counter_Test
begin

text \<open>
  The histories of the counter of \<open>src/src/inc.cpp\<close> and \<open>src/src/inc_cas.cpp\<close>: who accessed it, in
  which order. The local counts of every thread can be read off that order.
\<close>

definition counter_start :: counter_state where
  "counter_start = \<lparr>counter = 0, workers = (\<lambda>_. new_worker)\<rparr>"

text \<open>A thread accesses the counter in every step but the one that works with the old value.\<close>

definition accesses_counter :: "worker \<Rightarrow> bool" where
  "accesses_counter w = (case w_pc w of Got v \<Rightarrow> False | _ \<Rightarrow> True)"

text \<open>The threads and whether they wrote.\<close>

inductive counter_history ::
  "(counter_state \<Rightarrow> counter_state \<Rightarrow> bool) \<Rightarrow> (nat \<times> bool) list \<Rightarrow> counter_state \<Rightarrow> bool" for step where
  history_start: "counter_history step [] counter_start"
| history_more: "counter_history step l s \<Longrightarrow> step s t \<Longrightarrow> workers t i \<noteq> workers s i \<Longrightarrow>
    counter_history step
      (l @ (if accesses_counter (workers s i) then [(i, counter t \<noteq> counter s)] else [])) t"

definition writers :: "(nat \<times> bool) list \<Rightarrow> nat list" where
  "writers l = map fst (filter snd l)"

text \<open>The members at the even positions of a list.\<close>

definition at_even :: "'a list \<Rightarrow> 'a list" where
  "at_even us = map fst (filter (\<lambda>(u, n). even n) (zip us [0..<length us]))"

lemma at_even_snoc: "at_even (us @ [u]) = at_even us @ (if even (length us) then [u] else [])"
  by (simp add: at_even_def)

lemma at_even_Nil [simp]: "at_even [] = []"
  by (simp add: at_even_def)

lemma at_even_map: "at_even (map f us) = map f (at_even us)"
  by (induction us rule: rev_induct) (simp_all add: at_even_snoc)

lemma at_even_subset: "set (at_even us) \<subseteq> set us"
  by (auto simp: at_even_def dest: set_zip_leftD)

lemma writers_snoc: "writers (l @ [(i, b)]) = writers l @ (if b then [i] else [])" "writers [] = []"
  by (simp_all add: writers_def)

section \<open>What the counts of a thread are\<close>

definition pending_reads :: "worker \<Rightarrow> nat" where
  "pending_reads w = (case w_pc w of Trying orig fst_try \<Rightarrow> if fst_try then 1 else 2 | _ \<Rightarrow> 0)"

text \<open>
  The thread \<open>i\<close> with the state \<open>w\<close>, after the history \<open>l\<close>; reads are counted for the
  compare-and-swap program, where an increment takes a load and a swap.
\<close>

definition counted_in :: "bool \<Rightarrow> (nat \<times> bool) list \<Rightarrow> nat \<Rightarrow> worker \<Rightarrow> bool" where
  "counted_in cas l i w \<longleftrightarrow>
     increments w = count_list (writers l) i \<and> evens w = count_list (at_even (writers l)) i \<and>
     (w_pc w = Ended \<longrightarrow> 0 < w_count w) \<and>
     (cas \<longrightarrow> count_list (map fst l) i = 2 * increments w + w_fail_count w + pending_reads w)"

definition history_inv :: "bool \<Rightarrow> nat \<Rightarrow> (nat \<times> bool) list \<Rightarrow> counter_state \<Rightarrow> bool" where
  "history_inv cas n l s \<longleftrightarrow>
     counter s = length (writers l) \<and> fst ` set l \<subseteq> {..<n} \<and>
     (\<forall>i. counted_in cas l i (workers s i))"

lemma history_invD:
  assumes "history_inv cas n l s"
  shows "counter s = length (writers l)" "counted_in cas l i (workers s i)"
  using assms by (simp_all add: history_inv_def)

lemma other_thread: "i \<noteq> j \<Longrightarrow> counted_in cas l j w \<Longrightarrow> counted_in cas (l @ [(i, b)]) j w"
  by (auto simp: counted_in_def writers_snoc at_even_snoc)

lemma history_inv_access:
  assumes inv: "history_inv cas n l s" and i: "i < n" and c: "c = counter s + (if b then 1 else 0)"
    and w: "counted_in cas (l @ [(i, b)]) i w"
  shows "history_inv cas n (l @ [(i, b)]) (set_worker i w (s\<lparr>counter := c\<rparr>))"
  using inv i c w other_thread by (auto simp: history_inv_def writers_snoc)

lemma history_inv_local:
  assumes inv: "history_inv cas n l s" and w: "counted_in cas l i w"
  shows "history_inv cas n l (set_worker i w s)"
  using inv w by (simp add: history_inv_def)

lemma account_counted:
  assumes "counted_in cas l i w" "w_pc w = Got v"
  shows "counted_in cas l i (account stop v w)"
  using assms
  by (auto simp: counted_in_def account_def increments_def evens_def pending_reads_def even_iff_mod_2_eq_zero)

lemma set_worker_same: "workers (set_worker j w s) i \<noteq> workers s i \<Longrightarrow> i = j"
  by (auto split: if_splits)

lemma inc_history_inv: "counter_history (inc_step stop n) l s \<Longrightarrow> history_inv False n l s"
proof (induction rule: counter_history.induct)
  case history_start
  then show ?case
    by (simp add: history_inv_def counter_start_def counted_in_def new_worker_def increments_def
        evens_def pending_reads_def writers_snoc)
next
  case (history_more l s t i)
  from history_more.hyps(2) show ?case
  proof cases
    case (fetch j)
    then have i: "i = j" using history_more.hyps(3) by (auto split: if_splits)
    have "counted_in False (l @ [(j, True)]) j ((workers s j)\<lparr>w_pc := Got (counter s)\<rparr>)"
      using history_invD(1) [OF history_more.IH] history_invD(2) [OF history_more.IH, of j] fetch(3)
      by (auto simp: counted_in_def increments_def evens_def writers_snoc at_even_snoc)
    from history_inv_access [OF history_more.IH fetch(2) _ this] fetch i show ?thesis
      by (simp add: accesses_counter_def)
  next
    case (count j v)
    then have i: "i = j" using history_more.hyps(3) by (auto split: if_splits)
    have "counted_in False l j (account stop v (workers s j))"
      using history_more.IH count(3) by (intro account_counted) (simp_all add: history_inv_def)
    from history_inv_local [OF history_more.IH this] count i show ?thesis
      by (simp add: accesses_counter_def)
  qed
qed

lemma cas_history_inv: "counter_history (cas_step stop n) l s \<Longrightarrow> history_inv True n l s"
proof (induction rule: counter_history.induct)
  case history_start
  then show ?case
    by (simp add: history_inv_def counter_start_def counted_in_def new_worker_def increments_def
        evens_def pending_reads_def writers_snoc)
next
  case (history_more l s t i)
  from history_more.hyps(2) show ?case
  proof cases
    case (load j)
    then have i: "i = j" using history_more.hyps(3) by (auto split: if_splits)
    have "counted_in True (l @ [(j, False)]) j ((workers s j)\<lparr>w_pc := Trying (counter s) True\<rparr>)"
      using history_invD(1) [OF history_more.IH] history_invD(2) [OF history_more.IH, of j] load(3)
      by (simp add: counted_in_def increments_def evens_def writers_snoc pending_reads_def)
    from history_inv_access [OF history_more.IH load(2) _ this, of "counter s"] load i show ?thesis
      by (simp add: accesses_counter_def)
  next
    case (swap j orig fst_try c w)
    have "w_pc w \<noteq> w_pc (workers s j) \<or> w_fail_count w \<noteq> w_fail_count (workers s j)"
      using swap(3,4) by (auto simp: cas_round_def Let_def split: if_splits)
    then have "w \<noteq> workers s j" by auto
    with swap have i: "i = j" using history_more.hyps(3) by (auto split: if_splits)
    have c: "c = counter s + (if c \<noteq> counter s then 1 else 0)"
      using swap(4) by (auto simp: cas_round_def Let_def split: if_splits)
    have "counted_in True (l @ [(j, c \<noteq> counter s)]) j w"
      using history_invD(1) [OF history_more.IH] history_invD(2) [OF history_more.IH, of j] swap(3,4)
      by (auto simp: counted_in_def increments_def evens_def writers_snoc at_even_snoc
          pending_reads_def cas_round_def Let_def split: if_splits)
    from history_inv_access [OF history_more.IH swap(2) c this] swap i show ?thesis
      by (simp add: accesses_counter_def)
  next
    case (count j v)
    then have i: "i = j" using history_more.hyps(3) by (auto split: if_splits)
    have "counted_in True l j (account stop v (workers s j))"
      using history_more.IH count(3) by (intro account_counted) (simp_all add: history_inv_def)
    from history_inv_local [OF history_more.IH this] count i show ?thesis
      by (simp add: accesses_counter_def)
  qed
qed

section \<open>At the end\<close>

definition all_ended :: "nat \<Rightarrow> counter_state \<Rightarrow> bool" where
  "all_ended n s \<longleftrightarrow> (\<forall>i < n. w_pc (workers s i) = Ended)"

lemma history_ended:
  assumes "history_inv cas n l s" "all_ended n s" "i < n"
  shows "w_count (workers s i) = count_list (writers l) i"
    "w_even_count (workers s i) = count_list (at_even (writers l)) i"
    "i \<in> set (writers l)"
    "cas \<Longrightarrow> count_list (map fst l) i = 2 * w_count (workers s i) + w_fail_count (workers s i)"
proof -
  from assms have c: "counted_in cas l i (workers s i)" and e: "w_pc (workers s i) = Ended"
    by (simp_all add: history_inv_def all_ended_def)
  then show w: "w_count (workers s i) = count_list (writers l) i"
    "w_even_count (workers s i) = count_list (at_even (writers l)) i"
    "cas \<Longrightarrow> count_list (map fst l) i = 2 * w_count (workers s i) + w_fail_count (workers s i)"
    by (simp_all add: counted_in_def increments_def evens_def pending_reads_def)
  from c e have "0 < w_count (workers s i)" by (simp add: counted_in_def)
  then show "i \<in> set (writers l)" unfolding w using count_list_0_iff [of "writers l" i] by force
qed

lemma history_writers:
  assumes "history_inv cas n l s" "all_ended n s"
  shows "set (writers l) = {..<n}" "counter s = length (writers l)" "fst ` set l \<subseteq> {..<n}"
proof -
  show "counter s = length (writers l)" "fst ` set l \<subseteq> {..<n}"
    using assms(1) by (simp_all add: history_inv_def)
  then show "set (writers l) = {..<n}" using history_ended(3) [OF assms] by (auto simp: writers_def)
qed

section \<open>Executing a schedule\<close>

text \<open>The step of a thread that has not ended.\<close>

definition inc_next :: "nat \<Rightarrow> nat \<Rightarrow> counter_state \<Rightarrow> counter_state option" where
  "inc_next stop i s =
     (case w_pc (workers s i) of
        Ready \<Rightarrow> Some (set_worker i ((workers s i)\<lparr>w_pc := Got (counter s)\<rparr>) (s\<lparr>counter := counter s + 1\<rparr>))
      | Got v \<Rightarrow> Some (set_worker i (account stop v (workers s i)) s)
      | _ \<Rightarrow> None)"

definition cas_next :: "nat \<Rightarrow> nat \<Rightarrow> counter_state \<Rightarrow> counter_state option" where
  "cas_next stop i s =
     (case w_pc (workers s i) of
        Ready \<Rightarrow> Some (set_worker i ((workers s i)\<lparr>w_pc := Trying (counter s) True\<rparr>) s)
      | Trying orig fst_try \<Rightarrow>
          (case cas_round orig fst_try (counter s) (workers s i) of
             (c, w) \<Rightarrow> Some (set_worker i w (s\<lparr>counter := c\<rparr>)))
      | Got v \<Rightarrow> Some (set_worker i (account stop v (workers s i)) s)
      | Ended \<Rightarrow> None)"

fun schedule ::
  "(nat \<Rightarrow> counter_state \<Rightarrow> counter_state option) \<Rightarrow> nat list \<Rightarrow> (nat \<times> bool) list \<Rightarrow> counter_state \<Rightarrow>
   ((nat \<times> bool) list \<times> counter_state) option" where
  "schedule f [] l s = Some (l, s)"
| "schedule f (i # is') l s =
     (case f i s of
        None \<Rightarrow> None
      | Some t \<Rightarrow> schedule f is'
          (l @ (if accesses_counter (workers s i) then [(i, counter t \<noteq> counter s)] else [])) t)"

lemma schedule_history:
  assumes "\<And>i s t. i < n \<Longrightarrow> f i s = Some t \<Longrightarrow> step s t \<and> workers t i \<noteq> workers s i"
  shows "schedule f is' l s = Some (l', s') \<Longrightarrow> list_all (\<lambda>i. i < n) is' \<Longrightarrow> counter_history step l s \<Longrightarrow>
    counter_history step l' s'"
proof (induction is' arbitrary: l s)
  case (Cons i is')
  from Cons.prems obtain t where t: "f i s = Some t"
    "schedule f is' (l @ (if accesses_counter (workers s i) then [(i, counter t \<noteq> counter s)] else [])) t =
     Some (l', s')"
    by (simp split: option.splits)
  have "i < n" using Cons.prems(2) by simp
  from assms [OF this t(1)] have "step s t" "workers t i \<noteq> workers s i" by simp_all
  from Cons.IH [OF t(2) _ history_more [OF Cons.prems(3) this]] Cons.prems(2) show ?case by simp
qed simp

lemma account_differs: "w_pc w = Got v \<Longrightarrow> account stop v w \<noteq> w"
proof
  assume "w_pc w = Got v" "account stop v w = w"
  then have "w_pc (account stop v w) = Got v" by simp
  then show False by (simp add: account_def split: if_splits)
qed

lemma round_differs:
  assumes "w_pc w = Trying orig fst_try" "cas_round orig fst_try c w = (c', w')"
  shows "w' \<noteq> w"
proof -
  have "w_pc w' \<noteq> w_pc w \<or> w_fail_count w' \<noteq> w_fail_count w"
    using assms by (auto simp: cas_round_def Let_def split: if_splits)
  then show ?thesis by auto
qed

lemma pc_differs: "w_pc w \<noteq> pc \<Longrightarrow> w\<lparr>w_pc := pc\<rparr> \<noteq> w"
  by (metis worker.select_convs(1) worker.surjective worker.update_convs(1))

lemma inc_next_step:
  assumes "i < n" "inc_next stop i s = Some t"
  shows "inc_step stop n s t \<and> workers t i \<noteq> workers s i"
proof (cases "w_pc (workers s i)")
  case Ready
  with assms inc_step.fetch [OF assms(1) Ready, of stop] pc_differs [of "workers s i" "Got (counter s)"]
  show ?thesis by (auto simp: inc_next_def)
next
  case (Got v)
  with assms show ?thesis
    by (auto simp: inc_next_def intro: inc_step.count dest: account_differs)
qed (use assms in \<open>simp_all add: inc_next_def\<close>)

lemma cas_next_step:
  assumes "i < n" "cas_next stop i s = Some t"
  shows "cas_step stop n s t \<and> workers t i \<noteq> workers s i"
proof (cases "w_pc (workers s i)")
  case Ready
  with assms cas_step.load [OF assms(1) Ready, of stop] pc_differs [of "workers s i" "Trying (counter s) True"]
  show ?thesis by (auto simp: cas_next_def)
next
  case (Trying orig fst_try)
  obtain c w where r: "cas_round orig fst_try (counter s) (workers s i) = (c, w)" by fastforce
  with assms Trying have "t = set_worker i w (s\<lparr>counter := c\<rparr>)" by (simp add: cas_next_def)
  with cas_step.swap [OF assms(1) Trying r] round_differs [OF Trying r] show ?thesis by simp
next
  case (Got v)
  with assms show ?thesis
    by (auto simp: cas_next_def intro: cas_step.count dest: account_differs)
qed (use assms in \<open>simp add: cas_next_def\<close>)

lemmas inc_schedule = schedule_history [where f = "inc_next stop" and step = "inc_step stop n" for stop n,
  OF inc_next_step]

lemmas cas_schedule = schedule_history [where f = "cas_next stop" and step = "cas_step stop n" for stop n,
  OF cas_next_step]

end
