(* ===== verification/Counter_Check.thy ===== *)
theory Counter_Check
  imports Counter_Trace Counter_History
begin

text \<open>
  The check of the test programs, end to end: \<open>src/src/inc.cpp\<close> or \<open>src/src/inc_cas.cpp\<close> runs under
  \<open>src/trace/trace.cpp\<close>, the file is merged by \<open>src/src/merge.cpp\<close> and read by
  \<open>src/src/AtomicTrace.py\<close> for \<open>src/src/inc_sim.py\<close> or \<open>src/src/inc_sim_cas.py\<close>. The simulation
  fails no assertion and counts the accesses of the counter in the order in which they went to memory.
\<close>

section \<open>The merged lines as entries\<close>

lemma map_mset_ex: "mset ys = mset (map f xs) \<Longrightarrow> \<exists>zs. mset zs = mset xs \<and> map f zs = ys"
proof (induction ys arbitrary: xs)
  case (Cons y ys)
  then obtain x where x: "x \<in> set xs" "f x = y" by (metis list.set_intros(1) list.set_map imageE mset_eq_setD)
  have m: "mset xs = add_mset x (mset (remove1 x xs))" using x(1) by simp
  then have "mset (map f xs) = add_mset y (mset (map f (remove1 x xs)))"
    unfolding mset_map by (subst m) (simp only: image_mset_add_mset x(2))
  with Cons.prems have "mset ys = mset (map f (remove1 x xs))" by simp
  from Cons.IH [OF this] obtain zs where "mset zs = mset (remove1 x xs)" "map f zs = ys" by blast
  with x(2) m show ?case by (intro exI [of _ "x # zs"]) simp
qed simp

lemma merged_entries:
  assumes "merges_to argv s res out" "\<not> keeps_times argv"
  obtains es where "mset es = mset (filter (\<lambda>e. \<not> syncs e) (trace_file s))"
    "sorted (map fst es)" "res = lines_text (map entry_text es)"
proof -
  from assms have o: "res = lines_text (map snd out)" "sorted (map fst out)"
    "mset out = mset (map (merged_line False) (filter (\<lambda>e. \<not> syncs e) (trace_file s)))"
    by (simp_all add: merges_to_def)
  from map_mset_ex [OF o(3)] obtain es where
    es: "mset es = mset (filter (\<lambda>e. \<not> syncs e) (trace_file s))" "map (merged_line False) es = out"
    by blast
  have "map snd out = map entry_text es"
    unfolding es(2) [symmetric] by (simp add: merged_line_def kept_entry_text)
  moreover have "map fst out = map fst es"
    unfolding es(2) [symmetric] by (simp add: merged_line_def)
  ultimately show thesis using that es(1) o(1,2) by metis
qed

lemma printable_text: "printable e \<Longrightarrow> NL \<notin> set (entry_text e)"
  by (simp add: printable_def entry_line_def trace_line_def entry_text_def)

section \<open>The replay\<close>

text \<open>Two lists of entries with increasing times, one of them strictly, and the same members.\<close>

lemma same_entries:
  assumes "mset es = mset es'" "sorted (map fst es)" "sorted_wrt (<) (map fst es')"
  shows "es = es'"
proof -
  have d: "distinct (map fst es')" using assms(3) by (simp add: strict_sorted_iff)
  moreover have "mset (map fst es) = mset (map fst es')" by (simp add: assms(1))
  ultimately have "distinct (map fst es)" using mset_eq_imp_distinct_iff by blast
  moreover have "inj_on fst (set es')" using d by (simp add: distinct_map)
  moreover have "set es = set es'" using assms(1) by (rule mset_eq_setD)
  ultimately show ?thesis
    using d assms(2,3) strict_sorted_imp_sorted by (intro map_sorted_distinct_set_unique [of fst]) auto
qed

context counter_simulation
begin

lemma run_replay:
  assumes m: "merges_to argv s res out" "\<not> keeps_times argv"
    and acc: "accepted no_history (map parsed_entry (trace_file s))"
    and pr: "list_all printable (trace_file s)"
    and tests: "tests_counter watched other A sz (trace_file s)"
  obtains es where "mset es = mset (filter (\<lambda>e. \<not> syncs e) (trace_file s))" "sorted (map fst es)"
    "run_trace sim res new_sim = Inr (state_after A sz es)"
proof -
  obtain es where es: "mset es = mset (filter (\<lambda>e. \<not> syncs e) (trace_file s))"
    "sorted (map fst es)" "res = lines_text (map entry_text es)"
    using m by (rule merged_entries)
  have sub: "set es \<subseteq> set (trace_file s)" using mset_eq_setD [OF es(1)] by auto
  note t = tests_counter_mset [OF es(1) tests]
  have "apply_events sim 0 es new_sim = Inr (state_after A sz es)"
    by (rule replay_prefix [OF t es(2) well_registered_mset [OF es(1) accepted_registered [OF acc]], of _ "[]"])
      simp
  moreover have "run_trace sim (lines_text (map entry_text es)) new_sim = apply_events sim 0 es new_sim"
  proof (rule run_trace_entries)
    show "list_all (\<lambda>e. clean_event (entry_event e)) es" using t by (rule tests_counterD)
    show "\<forall>e \<in> set es. NL \<notin> set (entry_text e)"
      using pr sub printable_text by (auto simp: list_all_iff)
  qed
  ultimately show thesis using that es by simp
qed

text \<open>The watched entries of the output are the accesses of the counter in the order of the memory.\<close>

lemma watched_entries:
  assumes ex: "executes bm k x" and k: "1 \<le> knob_timestamp_difference k" "\<not> knob_turn_off k"
    and fin: "tls (run_state (tool x)) = Map.empty"
    and all: "mset (memory_accesses x) = mset (run_log (tool x))" and A: "in_range A 8"
    and es: "mset es = mset (filter (\<lambda>e. \<not> syncs e) (trace_file (run_state (tool x))))"
      "sorted (map fst es)"
  shows "filter (\<lambda>e. watched A (entry_event e)) es =
    map access_entry (filter (\<lambda>a. watched A (acc_event a)) (memory_accesses x))"
proof (rule same_entries)
  let ?P = "\<lambda>e. watched A (entry_event e)" and ?s = "run_state (tool x)"
  have "mset (filter ?P es) = mset (filter ?P (filter (\<lambda>e. \<not> syncs e) (trace_file ?s)))"
    by (simp only: mset_filter es(1))
  also have "filter ?P (filter (\<lambda>e. \<not> syncs e) (trace_file ?s)) =
      filter ?P (filter (\<lambda>e. is_access (entry_event e)) (trace_file ?s))"
    unfolding filter_filter using watched_access access_not_sync by (intro filter_cong) auto
  also have "mset \<dots> = filter_mset ?P (accesses (trace_file ?s))"
    by (simp only: accesses_def mset_filter)
  also have "accesses (trace_file ?s) = mset (map access_entry (memory_accesses x))"
    using reachable_trace [OF execution_reachable [OF ex]] fin all by (simp add: traced_def)
  also have "filter_mset ?P (mset (map access_entry (memory_accesses x))) =
      mset (map access_entry (filter (\<lambda>a. watched A (acc_event a)) (memory_accesses x)))"
    by (simp only: mset_filter [symmetric] filter_map comp_def) (simp add: access_entry_def)
  finally show "mset (filter ?P es) =
    mset (map access_entry (filter (\<lambda>a. watched A (acc_event a)) (memory_accesses x)))" .
  show "sorted (map fst (filter ?P es))" using es(2) by (rule sorted_filter)
  have conf: "conflicting a b" if "watched A (acc_event a)" "watched A (acc_event b)" for a b
    using watched_touches A that unfolding conflicting_def by blast
  have "sorted_wrt (\<lambda>a b. conflicting a b \<longrightarrow> acc_time a < acc_time b)
      (filter (\<lambda>a. watched A (acc_event a)) (memory_accesses x))"
    using memory_sorted [OF ex k] by (rule sorted_wrt_filter)
  then have "sorted_wrt (\<lambda>a b. acc_time a < acc_time b)
      (filter (\<lambda>a. watched A (acc_event a)) (memory_accesses x))"
    by (rule sorted_wrt_mono_rel [rotated]) (use conf in auto)
  then show "sorted_wrt (<) (map fst (map access_entry
      (filter (\<lambda>a. watched A (acc_event a)) (memory_accesses x))))"
    by (simp add: sorted_wrt_map access_entry_def)
qed

lemma check_run:
  assumes run: "executed bm k es = Some x" "proper_run bm k (calls_of es) = Some (tool x)"
      "list_all call_fits (calls_of es)" "length (calls_of es) < 2 ^ 63"
      "1 \<le> knob_timestamp_difference k" "\<not> knob_turn_off k"
      "tls (run_state (tool x)) = Map.empty" "heap_choice pick"
    and argv: "\<not> keeps_times argv"
    and tests: "tests_counter watched other A sz (trace_file (run_state (tool x)))"
  obtains res st where "merge_program pick argv (file_text (run_state (tool x))) = Inr res"
    "run_trace sim res new_sim = Inr st"
    "st\<lparr>special_address := None, special_size := 0, active_threads := {}\<rparr> =
     fold (\<lambda>a. tally (acc_event a) (acc_user a))
       (filter (\<lambda>a. watched A (acc_event a)) (memory_accesses x)) new_sim"
proof -
  let ?s = "run_state (tool x)"
  obtain out where out: "merge_program pick argv (file_text ?s) = Inr (lines_text (map snd out))"
    "merges_to argv ?s (lines_text (map snd out)) out"
    using run by (rule ended_merges)
  note pr = ended_printable [OF run(1,3-6)]
  have "in_contract ?s" using proper_contract [OF proper_run_proper [OF run(2)] run(5,6)] by simp
  then have acc: "accepted no_history (map parsed_entry (trace_file ?s))"
    by (auto simp: in_contract_def contract_def parsed_file_def)
  obtain ms where ms: "mset ms = mset (filter (\<lambda>e. \<not> syncs e) (trace_file ?s))" "sorted (map fst ms)"
    "run_trace sim (lines_text (map snd out)) new_sim = Inr (state_after A sz ms)"
    using out(2) argv acc pr tests by (rule run_replay)
  have "in_range A 8" using tests by (rule tests_counterD)
  from watched_entries [OF executed_executes [OF run(1)] run(5-7) ended_complete [OF run(1,5-7)] this ms(1,2)]
  have t: "tallied A ms = fold (\<lambda>a. tally (acc_event a) (acc_user a))
       (filter (\<lambda>a. watched A (acc_event a)) (memory_accesses x)) new_sim"
    by (simp add: tallied_def fold_map comp_def access_entry_def)
  have f: "special_address (fold (\<lambda>e. tally (g e) (u e)) l s) = special_address s \<and>
     special_size (fold (\<lambda>e. tally (g e) (u e)) l s) = special_size s \<and>
     active_threads (fold (\<lambda>e. tally (g e) (u e)) l s) = active_threads s"
     for g :: "'c \<Rightarrow> event" and u l s by (induction l arbitrary: s) simp_all
  have "(state_after A sz ms)\<lparr>special_address := None, special_size := 0, active_threads := {}\<rparr> = tallied A ms"
    unfolding tallied_def state_after_def by (simp add: f new_sim_def state_after_same)
  with that out(1) ms(3) t show thesis by simp
qed

end

section \<open>The two simulations\<close>

text \<open>
  \<open>inc_sim.py\<close> watches the increments; an access that reads and writes one operand must not meet the
  counter's memory otherwise. \<open>inc_sim_cas.py\<close> watches the reads of the counter too.
\<close>

fun meets :: "u64 \<Rightarrow> u64 \<Rightarrow> u64 \<times> u64 \<Rightarrow> bool" where
  "meets A sz (a, n) = hits (uint a) (sint n) (uint A) (uint sz)"

fun inc_other :: "u64 \<Rightarrow> u64 \<Rightarrow> event \<Rightarrow> bool" where
  "inc_other A sz (Memory (Some x) None (Some y)) = (x = y \<longrightarrow> \<not> meets A sz x)"
| "inc_other A sz ev = True"

fun cas_other :: "u64 \<Rightarrow> u64 \<Rightarrow> event \<Rightarrow> bool" where
  "cas_other A sz (Memory (Some x) None None) = (\<not> meets A sz x)"
| "cas_other A sz (Memory (Some x) None (Some y)) = (x = y \<longrightarrow> \<not> meets A sz x)"
| "cas_other A sz ev = True"

definition inc_watched :: "u64 \<Rightarrow> event \<Rightarrow> bool" where
  "inc_watched A ev \<longleftrightarrow> ev = increment A"

definition cas_watched :: "u64 \<Rightarrow> event \<Rightarrow> bool" where
  "cas_watched A ev \<longleftrightarrow> ev = increment A \<or> ev = plain_read A"

definition inc_tally :: "event \<Rightarrow> int \<Rightarrow> my_sim \<Rightarrow> my_sim" where
  "inc_tally ev u s =
     s\<lparr>even_increments_of :=
          (if special_value s mod 2 = 0 then bump u (even_increments_of s) else even_increments_of s),
        increments_of := bump u (increments_of s), special_value := special_value s + 1\<rparr>"

fun writes :: "event \<Rightarrow> bool" where
  "writes (Memory r r2 w) = (w \<noteq> None)"
| "writes ev = False"

definition cas_tally :: "event \<Rightarrow> int \<Rightarrow> my_sim \<Rightarrow> my_sim" where
  "cas_tally ev u s =
     (if writes ev
      then s\<lparr>increments_of := bump u (increments_of s), special_value := special_value s + 1,
             reads_of := bump u (reads_of s)\<rparr>
      else s\<lparr>reads_of := bump u (reads_of s)\<rparr>)"

lemma sint_8 [simp]: "sint (8 :: u64) = 8"
  by (simp add: sint_uint)

lemma operand_eq: "sint (n :: u64) = sint m \<longleftrightarrow> n = m" "sint (n :: u64) = 8 \<longleftrightarrow> n = 8"
  "uint (a :: u64) = uint b \<longleftrightarrow> a = b"
proof -
  have eq: "sint n = sint m \<longleftrightarrow> n = m" for n m :: u64
    by (rule word_eq_iff_signed [symmetric])
  show "sint n = sint m \<longleftrightarrow> n = m" by (rule eq)
  show "sint n = 8 \<longleftrightarrow> n = 8" using eq [of n 8] by simp
  show "uint a = uint b \<longleftrightarrow> a = b" by (rule word_uint_eq_iff [symmetric])
qed

lemma uint_nonzero: "A \<noteq> 0 \<Longrightarrow> uint (A :: u64) \<noteq> 0"
  by (simp add: uint_0_iff)

lemma touches_first: "in_range A 8 \<Longrightarrow> touches A 8 A"
  by (simp add: touches_def)

interpretation inc: counter_simulation inc_sim inc_watched inc_other inc_tally
proof unfold_locales
  show "apply_event inc_sim i u ev s = Inr (inc_tally ev u s)"
    if "special_address s = Some (uint A)" "0 \<le> special_size s" "A \<noteq> 0" "inc_watched A ev" for s A ev i u
    using that uint_nonzero [of A]
    by (simp add: inc_watched_def increment_def inc_sim_def inc_memory_access_def inc_tally_def hits_def)
  show "apply_event inc_sim i u (Memory r r2 w) s = Inr s"
    if "special_address s = Some (uint A)" "special_size s = uint sz" "A \<noteq> 0"
      "\<not> inc_watched A (Memory r r2 w)" "inc_other A sz (Memory r r2 w)" for s A sz r r2 w i u
    using that
    by (cases r; cases r2; cases w)
      (auto simp: inc_sim_def inc_memory_access_def operand_eq)
qed (auto simp: inc_sim_def inc_memory_access_def inc_tally_def inc_watched_def increment_def touches_first)

interpretation cas: counter_simulation inc_sim_cas cas_watched cas_other cas_tally
proof unfold_locales
  show "apply_event inc_sim_cas i u ev s = Inr (cas_tally ev u s)"
    if "special_address s = Some (uint A)" "0 \<le> special_size s" "A \<noteq> 0" "cas_watched A ev" for s A ev i u
    using that uint_nonzero [of A]
    by (auto simp: cas_watched_def increment_def plain_read_def inc_sim_cas_def cas_memory_access_def
        cas_tally_def hits_def)
  show "apply_event inc_sim_cas i u (Memory r r2 w) s = Inr s"
    if "special_address s = Some (uint A)" "special_size s = uint sz" "A \<noteq> 0"
      "\<not> cas_watched A (Memory r r2 w)" "cas_other A sz (Memory r r2 w)" for s A sz r r2 w i u
    using that
    by (cases r; cases r2; cases w)
      (auto simp: inc_sim_cas_def cas_memory_access_def operand_eq Let_def)
qed (auto simp: inc_sim_cas_def inc_sim_def cas_memory_access_def cas_tally_def cas_watched_def increment_def
  plain_read_def touches_first)

section \<open>What they count\<close>

text \<open>How often each user stands in a list.\<close>

definition counts_of :: "int list \<Rightarrow> int \<Rightarrow> int option" where
  "counts_of us u = (if u \<in> set us then Some (int (count_list us u)) else None)"

lemma counts_of_snoc: "counts_of (us @ [u]) = bump u (counts_of us)"
  by (auto simp: counts_of_def bump_def count_in_def fun_eq_iff count_list_0_iff)

lemma counts_of_Nil [simp]: "counts_of [] = Map.empty"
  by (simp add: counts_of_def fun_eq_iff)

lemma inc_tally_fold:
  "fold (\<lambda>a. inc_tally (acc_event a) (acc_user a)) as new_sim =
   new_sim\<lparr>special_value := int (length as), increments_of := counts_of (map acc_user as),
     even_increments_of := counts_of (at_even (map acc_user as))\<rparr>"
proof (induction as rule: rev_induct)
  case (snoc a as)
  then show ?case
    by (simp add: inc_tally_def counts_of_snoc at_even_snoc even_iff_mod_2_eq_zero [symmetric])
qed (simp add: new_sim_def)

lemma cas_tally_fold:
  "fold (\<lambda>a. cas_tally (acc_event a) (acc_user a)) as new_sim =
   new_sim\<lparr>special_value := int (length (filter (\<lambda>a. writes (acc_event a)) as)),
     increments_of := counts_of (map acc_user (filter (\<lambda>a. writes (acc_event a)) as)),
     reads_of := counts_of (map acc_user as)\<rparr>"
proof (induction as rule: rev_induct)
  case (snoc a as)
  then show ?case by (simp add: cas_tally_def counts_of_snoc)
qed (simp add: new_sim_def)

end
