(* ===== verification/Annotations.thy ===== *)
theory Annotations
  imports Instrument
begin

text \<open>
  The functions a program calls to talk to the tracer, \<open>src/src/annotation.h\<close> and
  \<open>src/src/annotation.cpp\<close>, and what a call of one of them comes to in a program that runs under the
  tracer: the calls of the routines that \<open>Image\<close> inserts before and after it.
\<close>

section \<open>The functions\<close>

datatype annotation =
    Special_Malloc u64
  | Special_Free u64
  | Register_Thread u64
  | Start_Roi
  | End_Roi

fun annotation_name :: "annotation \<Rightarrow> string" where
  "annotation_name (Special_Malloc n) = ''atomic_trace::special_malloc''"
| "annotation_name (Special_Free a) = ''atomic_trace::special_free''"
| "annotation_name (Register_Thread t) = ''atomic_trace::register_thread''"
| "annotation_name Start_Roi = ''atomic_trace::start_roi''"
| "annotation_name End_Roi = ''atomic_trace::end_roi''"

text \<open>
  The bodies: \<open>malloc\<close> and \<open>free\<close> act on the heap of the program, the others do nothing. The value is
  what the function returns, where it returns one.
\<close>

fun annotation_body ::
  "(u64 \<Rightarrow> 'h \<Rightarrow> u64 \<times> 'h) \<Rightarrow> (u64 \<Rightarrow> 'h \<Rightarrow> 'h) \<Rightarrow> annotation \<Rightarrow> 'h \<Rightarrow> u64 option \<times> 'h" where
  "annotation_body malloc free (Special_Malloc n) h = (case malloc n h of (a, h') \<Rightarrow> (Some a, h'))"
| "annotation_body malloc free (Special_Free a) h = (None, free a h)"
| "annotation_body malloc free (Register_Thread t) h = (None, h)"
| "annotation_body malloc free Start_Roi h = (None, h)"
| "annotation_body malloc free End_Roi h = (None, h)"

section \<open>The calls of the tracer\<close>

text \<open>
  What Pin reads at the entry and at the exit of a routine: the stack pointer, the registers of the
  first three arguments, the register of the result. A register that a function does not use holds
  what the program left in it.
\<close>

record rtn_args =
  reg_stack_ptr :: u64
  funcarg_0 :: u64
  funcarg_1 :: u64
  funcarg_2 :: u64
  funcret :: u64

fun pass_argument :: "annotation \<Rightarrow> rtn_args \<Rightarrow> rtn_args" where
  "pass_argument (Special_Malloc n) a = a\<lparr>funcarg_0 := n\<rparr>"
| "pass_argument (Special_Free p) a = a\<lparr>funcarg_0 := p\<rparr>"
| "pass_argument (Register_Thread t) a = a\<lparr>funcarg_0 := t\<rparr>"
| "pass_argument Start_Roi a = a"
| "pass_argument End_Roi a = a"

fun rtn_call_of :: "int \<Rightarrow> rtn_args \<Rightarrow> rtn_call \<Rightarrow> call" where
  "rtn_call_of p a Insert_Register = Register p (sint (funcarg_0 a))"
| "rtn_call_of p a (Insert_Roi b name) = Roi p b name"
| "rtn_call_of p a (Insert_Call name) =
     Call name p (reg_stack_ptr a) (funcarg_0 a) (funcarg_1 a) (funcarg_2 a)"
| "rtn_call_of p a (Insert_Return name) = Return name p (reg_stack_ptr a) (funcret a)"

text \<open>
  A thread calls an annotation: the routines before it, its body, the routines after it, which find
  the result of the body in its register.
\<close>

definition inserted_at :: "ipoint \<Rightarrow> string list \<Rightarrow> annotation \<Rightarrow> rtn_call list" where
  "inserted_at pt fs f = map snd (filter (\<lambda>c. fst c = pt) (instrument_routine fs (annotation_name f)))"

definition annotation_calls ::
  "(u64 \<Rightarrow> 'h \<Rightarrow> u64 \<times> 'h) \<Rightarrow> (u64 \<Rightarrow> 'h \<Rightarrow> 'h) \<Rightarrow> string list \<Rightarrow> int \<Rightarrow> rtn_args \<Rightarrow> annotation \<Rightarrow> 'h \<Rightarrow>
   call list \<times> 'h" where
  "annotation_calls malloc free fs p a f h =
     (let entry = pass_argument f a;
          (v, h') = annotation_body malloc free f h;
          exit = (case v of None \<Rightarrow> entry | Some r \<Rightarrow> entry\<lparr>funcret := r\<rparr>)
      in (map (rtn_call_of p entry) (inserted_at Before fs f) @
          map (rtn_call_of p exit) (inserted_at After fs f), h'))"

text \<open>\<open>src/src/func_list\<close>, the functions traced in the tests, as \<open>read_trace_functions\<close> reads it.\<close>

definition func_list :: "string list" where
  "func_list = [''atomic_trace::special_malloc'', ''atomic_trace::special_free'', []]"

lemma func_list_read:
  "read_trace_functions (\<lambda>s. s)
     (Some (''atomic_trace::special_malloc'' @ NL # ''atomic_trace::special_free'' @ [NL])) = func_list"
  by (simp add: read_trace_functions_def func_list_def)

lemma annotation_calls_tests:
  "annotation_calls malloc free func_list p a (Special_Malloc n) h =
     (case malloc n h of (r, h') \<Rightarrow>
       ([Call ''atomic_trace::special_malloc'' p (reg_stack_ptr a) n (funcarg_1 a) (funcarg_2 a),
         Return ''atomic_trace::special_malloc'' p (reg_stack_ptr a) r], h'))"
  "annotation_calls malloc free func_list p a (Special_Free q) h =
     ([Call ''atomic_trace::special_free'' p (reg_stack_ptr a) q (funcarg_1 a) (funcarg_2 a),
       Return ''atomic_trace::special_free'' p (reg_stack_ptr a) (funcret a)], free q h)"
  "annotation_calls malloc free func_list p a (Register_Thread t) h = ([Register p (sint t)], h)"
  "annotation_calls malloc free func_list p a Start_Roi h = ([Roi p True ''start''], h)"
  "annotation_calls malloc free func_list p a End_Roi h = ([Roi p False ''end''], h)"
  by (simp_all add: annotation_calls_def func_list_def inserted_at_def instrument_routine_def
      split: prod.split)

text \<open>
  Whatever other functions are traced, an annotation changes nothing in the program but what
  \<open>malloc\<close> and \<open>free\<close> do, and the tool gets the thread id and the region of interest first.
\<close>

lemma annotation_calls_heap:
  "snd (annotation_calls malloc free fs p a f h) = snd (annotation_body malloc free f h)"
  by (simp add: annotation_calls_def Let_def split_beta)

lemma annotation_calls_first:
  "\<exists>cs. fst (annotation_calls malloc free fs p a (Register_Thread t) h) = Register p (sint t) # cs"
  "\<exists>cs. fst (annotation_calls malloc free fs p a Start_Roi h) = Roi p True ''start'' # cs"
  "\<exists>cs. fst (annotation_calls malloc free fs p a End_Roi h) = Roi p False ''end'' # cs"
  by (simp_all add: annotation_calls_def Let_def inserted_at_def instrument_routine_def split: option.split)

end
