(* ===== verification/Counter_Agreement.thy ===== *)
theory Counter_Agreement
  imports Counter_Check Annotations
begin

text \<open>
  The tests of \<open>src/README.md\<close>: a counter program runs under the tracer, and the simulation of its
  merged trace prints the numbers that the program prints.
\<close>

section \<open>The printed numbers\<close>

text \<open>
  What the simulations print, in terms of what the program counted. The thread \<open>i\<close> of the program has
  the user id \<open>uid i\<close> in the trace.
\<close>

definition inc_sim_text :: "nat \<Rightarrow> (nat \<Rightarrow> int) \<Rightarrow> counter_state \<Rightarrow> string" where
  "inc_sim_text n uid s =
     ''final counter value: '' @ show_nat (counter s) @ NL #
     concat (map (\<lambda>i. ''thread'' @ TAB # show_int (uid i) @ TAB # show_nat (w_count (workers s i)) @
       TAB # show_nat (w_even_count (workers s i)) @ [NL]) [0..<n])"

definition cas_sim_text :: "nat \<Rightarrow> (nat \<Rightarrow> int) \<Rightarrow> counter_state \<Rightarrow> nat \<Rightarrow> string" where
  "cas_sim_text n uid s fails =
     ''final counter value: '' @ show_nat (counter s) @ NL #
     concat (map (\<lambda>i. ''thread'' @ TAB # show_int (uid i) @ TAB # show_nat (w_count (workers s i)) @ [NL])
       [0..<n]) @
     ''fails: '' @ show_nat fails @ [NL]"

lemma show_int_nat [simp]: "show_int (int k) = show_nat k"
  by (simp add: show_int_def)

lemma count_in_counts: "count_in (counts_of us) u = int (count_list us u)"
  by (cases "u \<in> set us") (simp_all add: count_in_def counts_of_def)

lemma dom_counts: "dom (counts_of us) = set us"
  by (auto simp: counts_of_def dom_def)

lemma sum_counts: "(\<Sum>t \<in> dom (counts_of us). count_in (counts_of us) t) = int (length us)"
  by (simp add: dom_counts count_in_counts sum_count_set flip: of_nat_sum)

lemma sorted_uids:
  assumes "strict_mono uid" "set us = {..<n}"
  shows "sorted_list_of_set (set (map uid us)) = map uid [0..<n]"
proof -
  have "sorted_wrt (\<lambda>i j. uid i < uid j) [0..<n]"
    by (rule sorted_wrt_mono_rel [OF _ sorted_wrt_upt]) (use assms(1) in \<open>auto simp: strict_mono_def\<close>)
  then have "sorted_wrt (<) (map uid [0..<n])" by (simp add: sorted_wrt_map)
  moreover have "set (map uid us) = set (map uid [0..<n])" using assms(2) by auto
  ultimately show ?thesis
    by (metis sorted_list_of_set.idem_if_sorted_distinct strict_sorted_iff)
qed

lemma count_map_inj: "inj uid \<Longrightarrow> count_list (map uid us) (uid i) = count_list us i"
  by (induction us) (auto dest: injD)

text \<open>The parts of the state that are printed do not depend on the others.\<close>

lemma printed_parts:
  assumes "st\<lparr>special_address := None, special_size := 0, active_threads := {}\<rparr> = st'"
  shows "special_value st = special_value st'" "increments_of st = increments_of st'"
    "even_increments_of st = even_increments_of st'" "reads_of st = reads_of st'"
  using assms by auto

lemma inc_printed:
  assumes h: "counter_history (inc_step stop n) l s" "all_ended n s" and u: "strict_mono uid"
    and st: "special_value st = int (length (writers l))" "increments_of st = counts_of (map uid (writers l))"
      "even_increments_of st = counts_of (at_even (map uid (writers l)))"
  shows "inc_sim_report st = inc_sim_text n uid s"
proof -
  note inv = inc_history_inv [OF h(1)]
  note w = history_writers [OF inv h(2)]
  have j: "inj uid" using u by (rule strict_mono_imp_inj_on)
  have "count_in (increments_of st) (uid i) = int (w_count (workers s i))"
    "count_in (even_increments_of st) (uid i) = int (w_even_count (workers s i))" if "i < n" for i
    using history_ended [OF inv h(2) that]
    by (simp_all add: st at_even_map count_in_counts count_map_inj [OF j])
  moreover have "sorted_list_of_set (dom (increments_of st)) = map uid [0..<n]"
    using sorted_uids [OF u w(1)] by (simp add: st dom_counts)
  ultimately show ?thesis
    by (auto simp: inc_sim_report_def inc_sim_text_def st(1) w(2) comp_def
        intro!: arg_cong [of _ _ concat] map_cong)
qed

lemma cas_printed:
  assumes h: "counter_history (cas_step stop n) l s" "all_ended n s" and u: "strict_mono uid"
    and st: "special_value st = int (length (writers l))" "increments_of st = counts_of (map uid (writers l))"
      "reads_of st = counts_of us" "length us = length l + r"
  shows "inc_sim_cas_report st = cas_sim_text n uid s ((\<Sum>i < n. w_fail_count (workers s i)) + r)"
proof -
  note inv = cas_history_inv [OF h(1)]
  note w = history_writers [OF inv h(2)]
  have j: "inj uid" using u by (rule strict_mono_imp_inj_on)
  have "count_in (increments_of st) (uid i) = int (w_count (workers s i))" if "i < n" for i
    using history_ended [OF inv h(2) that] by (simp add: st count_in_counts count_map_inj [OF j])
  moreover have "sorted_list_of_set (dom (increments_of st)) = map uid [0..<n]"
    using sorted_uids [OF u w(1)] by (simp add: st dom_counts)
  moreover have "length l = 2 * length (writers l) + (\<Sum>i < n. w_fail_count (workers s i))"
  proof -
    have "length l = (\<Sum>i < n. count_list (map fst l) i)"
      using sum_count_set [of "map fst l" "{..<n}"] w(3) by simp
    also have "\<dots> = (\<Sum>i < n. 2 * count_list (writers l) i + w_fail_count (workers s i))"
      using history_ended [OF inv h(2)] by (intro sum.cong) simp_all
    also have "\<dots> = 2 * (\<Sum>i < n. count_list (writers l) i) + (\<Sum>i < n. w_fail_count (workers s i))"
      by (simp add: sum.distrib sum_distrib_left)
    also have "(\<Sum>i < n. count_list (writers l) i) = length (writers l)"
      using sum_count_set [of "writers l" "{..<n}"] w(1) by simp
    finally show ?thesis .
  qed
  then have "(\<Sum>t \<in> dom (reads_of st). count_in (reads_of st) t) - 2 * special_value st =
      int ((\<Sum>i < n. w_fail_count (workers s i)) + r)"
    unfolding st(1,3) sum_counts st(4) by simp
  ultimately show ?thesis
    unfolding inc_sim_cas_report_def cas_sim_text_def
    by (auto simp: st(1) w(2) comp_def simp del: of_nat_add
        intro!: arg_cong [of _ _ concat] map_cong)
qed

section \<open>A run of \<open>inc\<close>\<close>

text \<open>The annotations of a thread; \<open>malloc\<close> gives the address 4096.\<close>

definition annotate :: "int \<Rightarrow> annotation \<Rightarrow> event_of_program list" where
  "annotate p f =
     map Routine (fst (annotation_calls (\<lambda>n h. (4096, h)) (\<lambda>a h. h) func_list p
       \<lparr>reg_stack_ptr = 1000, funcarg_0 = 0, funcarg_1 = 0, funcarg_2 = 0, funcret = 0\<rparr> f ()))"

lemmas annotate_eval = annotate_def annotation_calls_tests

definition access_calls :: "int \<Rightarrow> call list \<Rightarrow> event_of_program list" where
  "access_calls p operands =
     map Routine (Header p # operands @ [Acquire p, Footer p]) @ [Access p]"

text \<open>
  \<open>main\<close> allocates the counter and starts one thread, which increments it twice and ends; then \<open>main\<close>
  frees the counter and ends.
\<close>

definition inc_execution :: "event_of_program list" where
  "inc_execution =
     [Routine (Start blank_thread 0 0)] @ annotate 0 (Special_Malloc 64) @
     [Routine (Start blank_thread 1 1)] @ annotate 1 (Register_Thread 0) @ annotate 0 Start_Roi @
     access_calls 1 [Read1 1 4096 8, Write 1 4096 8] @ access_calls 1 [Read1 1 4096 8, Write 1 4096 8] @
     [Routine (Release 1)] @ annotate 0 End_Roi @ [Routine (Fini 1)] @
     annotate 0 (Special_Free 4096) @ [Routine (Fini 0)]"

definition inc_file :: "entry list" where
  "inc_file =
     [(1, 0, Thread_Register), (4, 1, Thread_Register),
      (2, 0, Function_Call ''atomic_trace::special_malloc'' 1000 64 0 0),
      (3, 0, Function_Return ''atomic_trace::special_malloc'' 1000 4096),
      (5, 0, Change_Roi ''start''), (8, 0, Change_Roi ''end''), (6, 1, increment 4096),
      (7, 1, increment 4096), (9, 1, Thread_Finish),
      (10, 0, Function_Call ''atomic_trace::special_free'' 1000 4096 0 0),
      (11, 0, Function_Return ''atomic_trace::special_free'' 1000 0), (12, 0, Thread_Finish)]"

lemma inc_execution_run:
  "\<exists>x. executed alist_bimap default_knobs inc_execution = Some x \<and> tls (run_state (tool x)) = Map.empty \<and>
     trace_file (run_state (tool x)) = inc_file \<and>
     map acc_user (filter (\<lambda>a. acc_event a = increment 4096) (memory_accesses x)) = [1, 1]"
  by (simp add: inc_execution_def access_calls_def annotate_eval increment_def inc_file_def execution_eval tracer_eval)

text \<open>
  Two threads of \<open>inc_cas\<close>: a swap of the second fails, and \<open>main\<close> reads the counter at the end.
\<close>

definition cas_access_calls :: "int \<Rightarrow> u64 \<Rightarrow> event_of_program list" where
  "cas_access_calls p zf =
     map Routine [Header p, Read1 p 4096 8, Write p 4096 8, Acquire p] @
     [Access p] @ map Routine [Cas_Footer p zf, Footer p]"

definition cas_execution :: "event_of_program list" where
  "cas_execution =
     [Routine (Start blank_thread 0 0)] @ annotate 0 (Special_Malloc 64) @
     map Routine [Start blank_thread 1 1, Start blank_thread 2 2] @
     annotate 1 (Register_Thread 0) @ annotate 2 (Register_Thread 1) @ annotate 0 Start_Roi @
     access_calls 1 [Read1 1 4096 8] @ [Routine (Header 1)] @ access_calls 2 [Read1 2 4096 8] @
     [Routine (Header 2)] @
     cas_access_calls 1 64 @ [Routine (Header 1)] @ cas_access_calls 2 0 @ cas_access_calls 2 64 @
     [Routine (Header 2)] @
     access_calls 1 [Read1 1 4096 8] @ cas_access_calls 1 64 @ [Routine (Release 1)] @
     annotate 0 End_Roi @ map Routine [Fini 1, Fini 2] @
     access_calls 0 [Read1 0 4096 8] @ annotate 0 (Special_Free 4096) @ [Routine (Fini 0)]"

definition cas_history :: "(nat \<times> bool) list" where
  "cas_history = [(0, False), (1, False), (0, True), (1, False), (1, True), (0, False), (0, True)]"

definition cas_file :: "entry list" where
  "cas_file =
     [(1, 0, Thread_Register), (4, 1, Thread_Register), (5, 2, Thread_Register),
      (2, 0, Function_Call ''atomic_trace::special_malloc'' 1000 64 0 0),
      (3, 0, Function_Return ''atomic_trace::special_malloc'' 1000 4096),
      (6, 0, Change_Roi ''start''), (14, 0, Change_Roi ''end''), (7, 1, plain_read 4096),
      (9, 1, increment 4096), (12, 1, plain_read 4096), (13, 1, increment 4096), (15, 1, Thread_Finish),
      (8, 2, plain_read 4096), (10, 2, plain_read 4096), (11, 2, increment 4096), (16, 2, Thread_Finish),
      (17, 0, plain_read 4096), (18, 0, Function_Call ''atomic_trace::special_free'' 1000 4096 0 0),
      (19, 0, Function_Return ''atomic_trace::special_free'' 1000 0), (20, 0, Thread_Finish)]"

lemma zf_set: "(64 :: u64) AND zf_bit \<noteq> 0"
  by (simp add: zf_bit_def)

lemma cas_execution_run:
  "\<exists>x. executed alist_bimap default_knobs cas_execution = Some x \<and> tls (run_state (tool x)) = Map.empty \<and>
     trace_file (run_state (tool x)) = cas_file \<and>
     map (\<lambda>a. (acc_user a, writes (acc_event a)))
       (filter (\<lambda>a. cas_watched 4096 (acc_event a)) (memory_accesses x)) =
     map (\<lambda>(i, b). (int i + 1, b)) cas_history @ [(0, False)]"
  by (simp add: cas_execution_def cas_file_def cas_watched_def increment_def plain_read_def zf_set
      cas_access_calls_def access_calls_def annotate_eval cas_history_def execution_eval tracer_eval)

lemma execution_proper:
  assumes "executed bm k es = Some x" "proper_run bm k (calls_of es) = Some r"
  shows "proper_run bm k (calls_of es) = Some (tool x)"
  using executed_run [OF assms(1)] proper_run_do [OF assms(2)] assms(2) by simp

lemma inc_execution_proper: "\<exists>r. proper_run alist_bimap default_knobs (calls_of inc_execution) = Some r"
  by (simp add: inc_execution_def access_calls_def annotate_eval proper_run_def tracer_eval fresh_uid_def may_leave_def)

lemma cas_execution_proper: "\<exists>r. proper_run alist_bimap default_knobs (calls_of cas_execution) = Some r"
  by (simp add: cas_execution_def cas_access_calls_def access_calls_def annotate_eval proper_run_def tracer_eval
      fresh_uid_def may_leave_def)

lemma digit_chars:
  "digit_char 0 = CHR ''0''" "digit_char (Suc 0) = CHR ''1''" "digit_char 2 = CHR ''2''"
  "digit_char (Suc (Suc 0)) = CHR ''2''"
  "digit_char 3 = CHR ''3''" "digit_char 4 = CHR ''4''" "digit_char 6 = CHR ''6''"
  "digit_char 9 = CHR ''9''"
  by (simp_all add: digit_char_def char_of_def bit_Suc_0_iff)

lemmas counter_fits = int64_range_def user_address_def operand_size_def short_text_def show_u64_def show_nat.simps digit_chars

lemma inc_execution_fits: "list_all call_fits (calls_of inc_execution)"
  by (simp add: inc_execution_def access_calls_def annotate_eval counter_fits)

lemma cas_execution_fits: "list_all call_fits (calls_of cas_execution)"
  by (simp add: cas_execution_def cas_access_calls_def access_calls_def annotate_eval counter_fits)

text \<open>The histories of the counter in these runs.\<close>

lemma inc_counter_history:
  "\<exists>s. counter_history (inc_step 1 1) [(0, True), (0, True)] s \<and> all_ended 1 s \<and> counter s = 2 \<and>
     w_count (workers s 0) = 2 \<and> w_even_count (workers s 0) = 1"
proof -
  have "\<exists>s. schedule (inc_next 1) [0, 0, 0, 0] [] counter_start = Some ([(0, True), (0, True)], s) \<and>
      all_ended 1 s \<and> counter s = 2 \<and> w_count (workers s 0) = 2 \<and> w_even_count (workers s 0) = 1"
    by (simp add: inc_next_def counter_start_def new_worker_def account_def set_worker_def
        accesses_counter_def all_ended_def)
  then show ?thesis
    using inc_schedule [where n = 1 and stop = 1 and is' = "[0, 0, 0, 0]" and l = "[]" and s = counter_start] history_start by fastforce
qed

lemma cas_counter_history:
  "\<exists>s. counter_history (cas_step 1 2) cas_history s \<and> all_ended 2 s \<and> counter s = 3 \<and>
     w_count (workers s 0) = 2 \<and> w_count (workers s 1) = 1 \<and>
     w_fail_count (workers s 0) = 0 \<and> w_fail_count (workers s 1) = 1"
proof -
  have "\<exists>s. schedule (cas_next 1) [0, 1, 0, 1, 1, 1, 0, 0, 0, 0] [] counter_start = Some (cas_history, s) \<and>
      all_ended 2 s \<and> counter s = 3 \<and>
      w_count (workers s 0) = 2 \<and> w_count (workers s 1) = 1 \<and>
      w_fail_count (workers s 0) = 0 \<and> w_fail_count (workers s 1) = 1"
    by (simp add: cas_next_def cas_round_def counter_start_def new_worker_def account_def set_worker_def
        accesses_counter_def all_ended_def cas_history_def less_Suc_eq numeral_2_eq_2)
  then show ?thesis
    using cas_schedule [where n = 2 and stop = 1 and is' = "[0, 1, 0, 1, 1, 1, 0, 0, 0, 0]" and l = "[]"
        and s = counter_start] history_start by fastforce
qed

section \<open>The properties\<close>

text \<open>C2. The test of \<open>inc\<close> in the README: where \<open>inc\<close> runs under the tracer and its increments go
  to memory in the order in which the program made them, the simulation of the merged trace fails no
  assertion and prints, of every thread, the increments and the increments of an even counter that
  the thread counted, and the value of the counter.\<close>

theorem inc_check_agrees:
  assumes "runs_to_end bm k es x" and "heap_choice pick" and "\<not> keeps_times argv"
    and "tests_counter inc_watched inc_other A sz (trace_file (run_state (tool x)))"
    and "counter_history (inc_step stop n) l s" and "all_ended n s" and "strict_mono uid"
    and "map acc_user (filter (\<lambda>a. acc_event a = increment A) (memory_accesses x)) = map uid (writers l)"
  shows "\<exists>res. merge_program pick argv (file_text (run_state (tool x))) = Inr res \<and>
    inc_sim_main res = Inr (inc_sim_text n uid s)"
proof -
  note ends = runs_to_endD [OF assms(1)]
  obtain res st where r: "merge_program pick argv (file_text (run_state (tool x))) = Inr res"
    "run_trace inc_sim res new_sim = Inr st"
    "st\<lparr>special_address := None, special_size := 0, active_threads := {}\<rparr> =
     fold (\<lambda>a. inc_tally (acc_event a) (acc_user a))
       (filter (\<lambda>a. inc_watched A (acc_event a)) (memory_accesses x)) new_sim"
    using ends assms(2-4) by (rule inc.check_run)
  have len: "length (filter (\<lambda>a. acc_event a = increment A) (memory_accesses x)) = length (writers l)"
    using arg_cong [OF assms(8), of length] by simp
  note parts = printed_parts [OF r(3) [unfolded inc_tally_fold inc_watched_def assms(8) len]]
  have "inc_sim_report st = inc_sim_text n uid s"
    by (rule inc_printed [OF assms(5-7)]) (simp_all add: parts)
  with r show ?thesis by (simp add: inc_sim_main_def)
qed

theorem inc_check_agrees_witness:
  "\<exists>x res. executed alist_bimap default_knobs inc_execution = Some x \<and>
     merge_program first_min [''merge''] (file_text (run_state (tool x))) = Inr res \<and>
     inc_sim_main res = Inr (''final counter value: 2'' @ NL # ''thread'' @ TAB # ''1'' @ TAB # ''2'' @
       TAB # ''1'' @ [NL])"
proof -
  obtain x where x: "executed alist_bimap default_knobs inc_execution = Some x"
    "tls (run_state (tool x)) = Map.empty" "trace_file (run_state (tool x)) = inc_file"
    "map acc_user (filter (\<lambda>a. acc_event a = increment 4096) (memory_accesses x)) = [1, 1]"
    using inc_execution_run by metis
  obtain s where s: "counter_history (inc_step 1 1) [(0, True), (0, True)] s" "all_ended 1 s"
    "counter s = 2" "w_count (workers s 0) = 2" "w_even_count (workers s 0) = 1"
    using inc_counter_history by blast
  have ends: "runs_to_end alist_bimap default_knobs inc_execution x"
    using x(1,2) inc_execution_fits inc_execution_proper execution_proper [OF x(1)]
    by (auto simp: runs_to_end_def default_knobs_def inc_execution_def access_calls_def annotate_eval)
  have tests: "tests_counter inc_watched inc_other 4096 64 (trace_file (run_state (tool x)))"
    by (simp add: x(3) tests_counter_def inc_file_def inc_watched_def increment_def times_of_def in_range_def)
  have us: "map acc_user (filter (\<lambda>a. acc_event a = increment 4096) (memory_accesses x)) =
      map (\<lambda>i. int i + 1) (writers [(0, True), (0, True)])"
    by (simp add: x(4) writers_def)
  have "strict_mono (\<lambda>i. int i + 1)" by (simp add: strict_mono_def)
  from inc_check_agrees [OF ends fm.heap_choice_axioms _ tests s(1,2) this us, of "[''merge'']"] s(3-5) x(1)
  show ?thesis by (auto simp: keeps_times_def inc_sim_text_def show_int_def show_nat.simps digit_chars)
qed

text \<open>C3. The test of \<open>inc_cas\<close>: the simulation prints the counts of the threads and the value, and
  as fails it prints the failed swaps that the program counted plus the reads of the counter by
  others. The program itself makes one such read, when it checks the counter at the end; so
  where that thread is traced, the printed number is one more than the program's.\<close>

theorem cas_check_agrees:
  assumes "runs_to_end bm k es x" and "heap_choice pick" and "\<not> keeps_times argv"
    and "tests_counter cas_watched cas_other A sz (trace_file (run_state (tool x)))"
    and "counter_history (cas_step stop n) l s" and "all_ended n s" and "strict_mono uid"
    and "map (\<lambda>a. (acc_user a, writes (acc_event a)))
        (filter (\<lambda>a. cas_watched A (acc_event a)) (memory_accesses x)) =
      map (\<lambda>(i, b). (uid i, b)) l @ map (\<lambda>u. (u, False)) others"
  shows "\<exists>res. merge_program pick argv (file_text (run_state (tool x))) = Inr res \<and>
    inc_sim_cas_main res =
      Inr (cas_sim_text n uid s ((\<Sum>i < n. w_fail_count (workers s i)) + length others))"
proof -
  let ?as = "filter (\<lambda>a. cas_watched A (acc_event a)) (memory_accesses x)"
  note ends = runs_to_endD [OF assms(1)]
  obtain res st where r: "merge_program pick argv (file_text (run_state (tool x))) = Inr res"
    "run_trace inc_sim_cas res new_sim = Inr st"
    "st\<lparr>special_address := None, special_size := 0, active_threads := {}\<rparr> =
     fold (\<lambda>a. cas_tally (acc_event a) (acc_user a)) ?as new_sim"
    using ends assms(2-4) by (rule cas.check_run)
  have "map acc_user (filter (\<lambda>a. writes (acc_event a)) ?as) =
      map fst (filter snd (map (\<lambda>a. (acc_user a, writes (acc_event a))) ?as))"
    by (simp add: filter_map comp_def)
  also have "\<dots> = map uid (writers l)"
    unfolding assms(8) by (simp add: writers_def filter_map comp_def split_beta)
  finally have us: "map acc_user (filter (\<lambda>a. writes (acc_event a)) ?as) = map uid (writers l)" .
  have len: "length (filter (\<lambda>a. writes (acc_event a)) ?as) = length (writers l)"
    using arg_cong [OF us, of length] by simp
  have all: "length (map acc_user ?as) = length l + length others"
    using arg_cong [OF assms(8), of length] by simp
  note parts = printed_parts [OF r(3) [unfolded cas_tally_fold us len]]
  have "inc_sim_cas_report st =
      cas_sim_text n uid s ((\<Sum>i < n. w_fail_count (workers s i)) + length others)"
    by (rule cas_printed [OF assms(5-7) _ _ _ all]) (simp_all add: parts)
  with r show ?thesis by (simp add: inc_sim_cas_main_def)
qed

theorem cas_check_agrees_witness:
  "\<exists>x res. executed alist_bimap default_knobs cas_execution = Some x \<and>
     merge_program first_min [''merge''] (file_text (run_state (tool x))) = Inr res \<and>
     inc_sim_cas_main res = Inr (''final counter value: 3'' @ NL # ''thread'' @ TAB # ''1'' @ TAB # ''2'' @
       NL # ''thread'' @ TAB # ''2'' @ TAB # ''1'' @ NL # ''fails: 2'' @ [NL])"
proof -
  obtain x where x: "executed alist_bimap default_knobs cas_execution = Some x"
    "tls (run_state (tool x)) = Map.empty" "trace_file (run_state (tool x)) = cas_file"
    "map (\<lambda>a. (acc_user a, writes (acc_event a)))
       (filter (\<lambda>a. cas_watched 4096 (acc_event a)) (memory_accesses x)) =
     map (\<lambda>(i, b). (int i + 1, b)) cas_history @ [(0, False)]"
    using cas_execution_run by (elim exE conjE) (rule that)
  obtain s where s: "counter_history (cas_step 1 2) cas_history s" "all_ended 2 s" "counter s = 3"
    "w_count (workers s 0) = 2" "w_count (workers s 1) = 1"
    "w_fail_count (workers s 0) = 0" "w_fail_count (workers s 1) = 1"
    using cas_counter_history by blast
  have ends: "runs_to_end alist_bimap default_knobs cas_execution x"
    using x(1,2) cas_execution_fits cas_execution_proper execution_proper [OF x(1)]
    by (auto simp: runs_to_end_def default_knobs_def cas_execution_def cas_access_calls_def
        access_calls_def annotate_eval)
  have tests: "tests_counter cas_watched cas_other 4096 64 (trace_file (run_state (tool x)))"
    by (simp add: x(3) tests_counter_def cas_file_def cas_watched_def increment_def plain_read_def
        times_of_def in_range_def)
  have "strict_mono (\<lambda>i. int i + 1)" by (simp add: strict_mono_def)
  from cas_check_agrees [OF ends fm.heap_choice_axioms _ tests s(1,2) this, of "[''merge'']" "[0]"] x(4) s(3-7) x(1)
  show ?thesis
    by (auto simp: keeps_times_def cas_sim_text_def show_int_def show_nat.simps digit_chars
        numeral_2_eq_2)
qed

section \<open>Context changes\<close>

text \<open>A thread is interrupted between two instructions.\<close>

definition interrupted :: "event_of_program list" where
  "interrupted =
     map Routine [Start blank_thread 0 0] @ access_calls 0 [Write 0 4096 8] @
     map Routine [Ctxt_Change 0, Fini 0]"

lemma interrupted_run:
  "\<exists>x. executed alist_bimap default_knobs interrupted = Some x \<and> tls (run_state (tool x)) = Map.empty \<and>
     trace_file (run_state (tool x)) =
       [(1, 0, Thread_Register), (2, 0, Memory None None (Some (4096, 8))), (3, 0, Context_Change),
        (4, 0, Thread_Finish)]"
  by (simp add: interrupted_def access_calls_def execution_eval tracer_eval)

lemma interrupted_proper: "\<exists>r. proper_run alist_bimap default_knobs (calls_of interrupted) = Some r"
  by (simp add: interrupted_def access_calls_def proper_run_def tracer_eval fresh_uid_def may_leave_def)

text \<open>C32. A context change in the trace, which the tool writes and the merge program passes on, ends
  both checks with an exception: the reader calls \<open>end_roi\<close> of the simulation for it, with an argument
  too many, and never \<open>ctxt_change\<close>.\<close>

theorem context_change_stops_check:
  assumes "runs_to_end bm k es x" and "heap_choice pick" and "\<not> keeps_times argv"
    and "list_all (\<lambda>e. clean_event (entry_event e)) (trace_file (run_state (tool x)))"
    and "(t, u, Context_Change) \<in> set (trace_file (run_state (tool x)))"
  shows "\<exists>res. merge_program pick argv (file_text (run_state (tool x))) = Inr res \<and>
    (\<forall>printed. inc_sim_main res \<noteq> Inr printed \<and> inc_sim_cas_main res \<noteq> Inr printed)"
proof -
  note ends = runs_to_endD [OF assms(1)]
  obtain out where out:
    "merge_program pick argv (file_text (run_state (tool x))) = Inr (lines_text (map snd out))"
    "merges_to argv (run_state (tool x)) (lines_text (map snd out)) out"
    using ends assms(2) by (rule ended_merges)
  obtain ms where ms: "mset ms = mset (filter (\<lambda>e. \<not> syncs e) (trace_file (run_state (tool x))))"
    "lines_text (map snd out) = lines_text (map entry_text ms)"
    using out(2) assms(3) by (rule merged_entries)
  have set: "set ms = {e \<in> set (trace_file (run_state (tool x))). \<not> syncs e}"
    using mset_eq_setD [OF ms(1)] by auto
  have clean: "list_all (\<lambda>e. clean_event (entry_event e)) ms"
    using assms(4) set by (auto simp: list_all_iff)
  have nl: "\<forall>e \<in> set ms. NL \<notin> set (entry_text e)"
    using ended_printable [OF ends(1,3-6)] set printable_text by (auto simp: list_all_iff)
  have "\<not> syncs (t, u, Context_Change)" using syncs_event by fastforce
  then have change: "\<exists>e \<in> set ms. entry_event e = Context_Change"
    using assms(5) unfolding set by force
  note isim.run_context_change [OF clean nl change] csim.run_context_change [OF clean nl change]
  with out(1) show ?thesis
    unfolding ms(2) by (auto simp: inc_sim_main_def inc_sim_cas_main_def andThen_def split: sum.split)
qed

theorem context_change_stops_check_witness:
  "\<exists>x res. executed alist_bimap default_knobs interrupted = Some x \<and>
     merge_program first_min [''merge''] (file_text (run_state (tool x))) = Inr res \<and>
     (\<forall>printed. inc_sim_main res \<noteq> Inr printed \<and> inc_sim_cas_main res \<noteq> Inr printed)"
proof -
  obtain x where x: "executed alist_bimap default_knobs interrupted = Some x"
    "tls (run_state (tool x)) = Map.empty"
    "trace_file (run_state (tool x)) =
       [(1, 0, Thread_Register), (2, 0, Memory None None (Some (4096, 8))), (3, 0, Context_Change),
        (4, 0, Thread_Finish)]"
    using interrupted_run by (elim exE conjE) (rule that)
  have "list_all call_fits (calls_of interrupted)"
    by (simp add: interrupted_def access_calls_def counter_fits)
  then have ends: "runs_to_end alist_bimap default_knobs interrupted x"
    using x(1,2) interrupted_proper execution_proper [OF x(1)]
    by (auto simp: runs_to_end_def default_knobs_def interrupted_def access_calls_def)
  have "list_all (\<lambda>e. clean_event (entry_event e)) (trace_file (run_state (tool x)))"
    "(3, 0, Context_Change) \<in> set (trace_file (run_state (tool x)))"
    by (simp_all add: x(3))
  from context_change_stops_check [OF ends fm.heap_choice_axioms _ this, of "[''merge'']"] x(1)
  show ?thesis by (auto simp: keeps_times_def)
qed

end
