(* ===== verification/Compare_Merge.thy ===== *)
theory Compare_Merge
  imports Trace_Reader "HOL-Library.List_Lexorder" "HOL-Library.Char_ord" "HOL-Library.Sublist"
begin

text \<open>
  The script \<open>src/merge_test/CompareMerge.py\<close>, which compares two merged files up to the order of
  lines of one time, and what it accepts. \<open>src/merge_test/Test.py\<close> runs it on the outputs of \<open>sort\<close>
  and of the merge program.
\<close>

section \<open>The script\<close>

text \<open>\<open>readline\<close>: the lines of a file with their newlines.\<close>

fun read_lines_of :: "string \<Rightarrow> string list" where
  "read_lines_of [] = []"
| "read_lines_of (c # cs) =
     (if c = NL then [NL] # read_lines_of cs
      else case read_lines_of cs of [] \<Rightarrow> [[c]] | l # ls \<Rightarrow> (c # l) # ls)"

definition get_time :: "string \<Rightarrow> int result" where
  "get_time s = int_item (item (split_tabs s) 0)"

text \<open>The lines that follow with the same time, and the rest.\<close>

fun same_time :: "int \<Rightarrow> string list \<Rightarrow> (string list \<times> string list) result" where
  "same_time t [] = Inr ([], [])"
| "same_time t (l # ls) =
     andThen (get_time l) (\<lambda>new_time.
       if new_time \<noteq> t then Inr ([], l # ls)
       else andThen (same_time t ls) (\<lambda>(b, rest). Inr (l # b, rest)))"

text \<open>The sorted bunch, the lines after it, its time, the next line number.\<close>

fun create_bunch :: "string list \<Rightarrow> nat \<Rightarrow> (string list \<times> string list \<times> int \<times> nat) result" where
  "create_bunch [] n = Inr ([], [], 0, n)"
| "create_bunch (l # ls) n =
     andThen (get_time l) (\<lambda>t.
     andThen (same_time t ls) (\<lambda>(b, rest). Inr (sort (l # b), rest, t, n + length b + 1)))"

datatype comparison = Equal | Differ int int nat nat

definition differ :: "bool \<Rightarrow> int \<Rightarrow> int \<Rightarrow> nat \<Rightarrow> nat \<Rightarrow> comparison result" where
  "differ failassert t1 t2 n1 n2 =
     (if failassert then Inl (Assertion ''False'') else Inr (Differ t1 t2 n1 n2))"

lemma same_time_rest: "same_time t ls = Inr (b, rest) \<Longrightarrow> ls = b @ rest"
  by (induction ls arbitrary: b) (auto simp: andThen_Inr split: if_splits)

lemma create_bunch_shorter: "ls \<noteq> [] \<Longrightarrow> create_bunch ls n = Inr (b, rest, t, m) \<Longrightarrow> length rest < length ls"
  by (cases ls) (auto simp: andThen_Inr dest!: same_time_rest)

function compare_loop ::
  "bool \<Rightarrow> string list \<Rightarrow> string list \<Rightarrow> int \<Rightarrow> int \<Rightarrow> nat \<Rightarrow> nat \<Rightarrow> comparison result" where
  "compare_loop fa f1 f2 t1 t2 n1 n2 =
     (if (f1 \<noteq> []) \<noteq> (f2 \<noteq> []) then differ fa t1 t2 n1 n2
      else if f1 = [] then Inr Equal
      else case create_bunch f1 n1 of
             Inl e \<Rightarrow> Inl e
           | Inr (b1, r1, new1, m1) \<Rightarrow>
               (case create_bunch f2 n2 of
                  Inl e \<Rightarrow> Inl e
                | Inr (b2, r2, new2, m2) \<Rightarrow>
                    if new1 \<le> t1 \<or> new2 \<le> t2 \<or> b1 \<noteq> b2 \<or> new1 \<noteq> new2 then differ fa t1 t2 m1 m2
                    else compare_loop fa r1 r2 new1 new2 m1 m2))"
  by pat_completeness auto
termination
  by (relation "measure (\<lambda>(fa, f1, f2, t1, t2, n1, n2). length f1)") (auto dest!: create_bunch_shorter)

declare compare_loop.simps [simp del]

definition compare_files :: "bool \<Rightarrow> string \<Rightarrow> string \<Rightarrow> comparison result" where
  "compare_files fa c1 c2 =
     (let f1 = read_lines_of c1; f2 = read_lines_of c2
      in andThen (if f1 = [] then Inr 0 else get_time (hd f1)) (\<lambda>u1.
         andThen (if f2 = [] then Inr 0 else get_time (hd f2)) (\<lambda>u2.
         compare_loop fa f1 f2 0 0 1 1)))"

section \<open>What it accepts\<close>

text \<open>Lines with their times; the bunches of a file.\<close>

definition timed :: "(int \<times> string) list \<Rightarrow> bool" where
  "timed es \<longleftrightarrow> (\<forall>(t, l) \<in> set es. get_time l = Inr t)"

lemma timed_simps [simp]: "timed []" "timed ((t, l) # es) \<longleftrightarrow> get_time l = Inr t \<and> timed es"
  by (auto simp: timed_def)

lemma timed_drop: "timed es \<Longrightarrow> timed (dropWhile P es)" "timed es \<Longrightarrow> timed (takeWhile P es)"
  by (auto simp: timed_def dest: set_dropWhileD set_takeWhileD)

lemma same_time_timed:
  "timed es \<Longrightarrow> same_time t (map snd es) =
     Inr (map snd (takeWhile (\<lambda>e. fst e = t) es), map snd (dropWhile (\<lambda>e. fst e = t) es))"
  by (induction es) (auto simp: split_beta)

lemma create_bunch_timed:
  assumes "timed ((t, l) # es)"
  shows "create_bunch (map snd ((t, l) # es)) n =
    Inr (sort (l # map snd (takeWhile (\<lambda>e. fst e = t) es)), map snd (dropWhile (\<lambda>e. fst e = t) es), t,
      n + length (takeWhile (\<lambda>e. fst e = t) es) + 1)"
  using assms by (simp add: same_time_timed)

text \<open>The members of a sorted file split into those of the first time and later ones.\<close>

lemma first_bunch:
  fixes es :: "(int \<times> string) list"
  assumes "sorted (map fst es)" "\<forall>e \<in> set es. t \<le> fst e"
  shows "takeWhile (\<lambda>e. fst e = t) es = filter (\<lambda>e. fst e = t) es"
    "dropWhile (\<lambda>e. fst e = t) es = filter (\<lambda>e. fst e \<noteq> t) es"
  using assms
proof (induction es)
  case (Cons e es)
  {
    case 1
    show ?case
    proof (cases "fst e = t")
      case False
      with 1 have "\<forall>d \<in> set es. fst d \<noteq> t" by fastforce
      with False show ?thesis by simp
    qed (use Cons 1 in auto)
  next
    case 2
    show ?case
    proof (cases "fst e = t")
      case False
      with 2 have "\<forall>d \<in> set es. fst d \<noteq> t" by fastforce
      with False show ?thesis by (simp add: filter_True)
    qed (use Cons 2 in auto)
  }
qed simp_all

definition agree :: "int \<Rightarrow> (int \<times> string) list \<Rightarrow> (int \<times> string) list \<Rightarrow> bool" where
  "agree t es ds \<longleftrightarrow>
     sorted (map fst es) \<and> sorted (map fst ds) \<and> (\<forall>e \<in> set es. t < fst e) \<and> mset es = mset ds"

abbreviation bunch :: "int \<Rightarrow> (int \<times> string) list \<Rightarrow> (int \<times> string) list" where
  "bunch t es \<equiv> takeWhile (\<lambda>e. fst e = t) es"

abbreviation after_bunch :: "int \<Rightarrow> (int \<times> string) list \<Rightarrow> (int \<times> string) list" where
  "after_bunch t es \<equiv> dropWhile (\<lambda>e. fst e = t) es"

lemma same_sort: "sort xs = sort ys \<longleftrightarrow> mset xs = mset ys"
  by (metis mset_sort sorted_list_of_multiset_mset)

lemma loop_step:
  assumes "timed ((t1, l1) # es)" "timed ((t2, l2) # ds)"
  shows "\<exists>m1 m2. compare_loop fa (map snd ((t1, l1) # es)) (map snd ((t2, l2) # ds)) t t n1 n2 =
    (if t1 \<le> t \<or> t2 \<le> t \<or> t1 \<noteq> t2 \<or>
        mset (l1 # map snd (bunch t1 es)) \<noteq> mset (l2 # map snd (bunch t2 ds))
     then differ fa t t m1 m2
     else compare_loop fa (map snd (after_bunch t1 es)) (map snd (after_bunch t2 ds)) t1 t2 m1 m2)"
proof -
  obtain m1 m2 where b:
    "create_bunch (map snd ((t1, l1) # es)) n1 =
       Inr (sort (l1 # map snd (bunch t1 es)), map snd (after_bunch t1 es), t1, m1)"
    "create_bunch (map snd ((t2, l2) # ds)) n2 =
       Inr (sort (l2 # map snd (bunch t2 ds)), map snd (after_bunch t2 ds), t2, m2)"
    using create_bunch_timed [OF assms(1)] create_bunch_timed [OF assms(2)] by blast
  show ?thesis
    by (rule exI [of _ m1], rule exI [of _ m2], subst compare_loop.simps, subst b, subst b)
      (simp only: sum.case prod.case list.map list.distinct simp_thms if_False same_sort disj_ac)
qed

lemma bunch_pairs: "mset (bunch t es) = image_mset (Pair t) (mset (map snd (bunch t es)))"
proof -
  have "bunch t es = map (Pair t) (map snd (bunch t es))"
    by (rule sym) (auto simp: comp_def intro!: map_idI dest: set_takeWhileD)
  then show ?thesis by (metis mset_map)
qed

lemma bunch_pairs2:
  "mset ((t, l) # bunch t es) = image_mset (Pair t) (mset (l # map snd (bunch t es)))"
  by (subst mset.simps, subst bunch_pairs, subst mset.simps) (rule image_mset_add_mset [symmetric])

lemma sorted_then:
  fixes ys zs :: "(int \<times> string) list"
  assumes "sorted (map fst ys)" "\<forall>e \<in> set ys. fst e = t" "sorted (map fst zs)" "\<forall>e \<in> set zs. t < fst e"
  shows "sorted (map fst (ys @ zs))"
  using assms by (auto simp: sorted_append)

lemma agree_step:
  "agree t ((t1, l1) # es) ((t2, l2) # ds) \<longleftrightarrow>
   t < t1 \<and> t1 = t2 \<and> mset (l1 # map snd (bunch t1 es)) = mset (l2 # map snd (bunch t2 ds)) \<and>
   agree t1 (after_bunch t1 es) (after_bunch t2 ds)"
proof
  assume ag: "agree t ((t1, l1) # es) ((t2, l2) # ds)"
  then have m: "mset ((t1, l1) # es) = mset ((t2, l2) # ds)" by (simp only: agree_def)
  have set: "insert (t1, l1) (set es) = insert (t2, l2) (set ds)"
    using mset_eq_setD [OF m] by simp
  have le: "\<forall>e \<in> set es. t1 \<le> fst e" "\<forall>e \<in> set ds. t2 \<le> fst e" and s: "sorted (map fst es)" "sorted (map fst ds)"
    and t: "t < t1"
    using ag by (auto simp: agree_def)
  have "t1 = t2"
  proof (rule antisym)
    show "t1 \<le> t2" using set le(1) by (metis fst_conv insert_iff order_refl)
    show "t2 \<le> t1" using set le(2) by (metis fst_conv insert_iff order_refl)
  qed
  note le2 = le(2) [folded \<open>t1 = t2\<close>]
  have f: "bunch t1 es = filter (\<lambda>e. fst e = t1) es" "after_bunch t1 es = filter (\<lambda>e. fst e \<noteq> t1) es"
    "bunch t1 ds = filter (\<lambda>e. fst e = t1) ds" "after_bunch t1 ds = filter (\<lambda>e. fst e \<noteq> t1) ds"
    using first_bunch [OF s(1) le(1)] first_bunch [OF s(2) le2] by simp_all
  have "mset (filter (\<lambda>e. fst e = t1) ((t1, l1) # es)) = mset (filter (\<lambda>e. fst e = t1) ((t2, l2) # ds))"
    "mset (filter (\<lambda>e. fst e \<noteq> t1) ((t1, l1) # es)) = mset (filter (\<lambda>e. fst e \<noteq> t1) ((t2, l2) # ds))"
    using m by (simp_all only: mset_filter)
  then have same: "mset ((t1, l1) # bunch t1 es) = mset ((t2, l2) # bunch t1 ds)"
    "mset (after_bunch t1 es) = mset (after_bunch t1 ds)"
    by (simp_all add: f \<open>t1 = t2\<close> [symmetric])
  have "mset (map snd ((t1, l1) # bunch t1 es)) = mset (map snd ((t2, l2) # bunch t1 ds))"
    using same(1) by (simp only: mset_map)
  moreover have "agree t1 (after_bunch t1 es) (after_bunch t1 ds)"
    using s le le2 same(2) by (auto simp: agree_def f sorted_filter order_less_le)
  ultimately show "t < t1 \<and> t1 = t2 \<and>
    mset (l1 # map snd (bunch t1 es)) = mset (l2 # map snd (bunch t2 ds)) \<and>
    agree t1 (after_bunch t1 es) (after_bunch t2 ds)"
    using t \<open>t1 = t2\<close> by simp
next
  assume a: "t < t1 \<and> t1 = t2 \<and>
    mset (l1 # map snd (bunch t1 es)) = mset (l2 # map snd (bunch t2 ds)) \<and>
    agree t1 (after_bunch t1 es) (after_bunch t2 ds)"
  then have t: "t < t1" "t1 = t2" and b: "mset (l1 # map snd (bunch t1 es)) = mset (l2 # map snd (bunch t1 ds))"
    and ag: "agree t1 (after_bunch t1 es) (after_bunch t1 ds)" by auto
  have split: "xs = bunch t1 xs @ after_bunch t1 xs" for xs by simp
  have bt: "\<forall>e \<in> set (bunch t1 xs). fst e = t1" for xs by (auto dest: set_takeWhileD)
  have srt: "sorted (map fst ((t1, l) # xs)) \<and> (\<forall>e \<in> set xs. t1 \<le> fst e)"
    if "sorted (map fst (after_bunch t1 xs))" "\<forall>e \<in> set (after_bunch t1 xs). t1 < fst e" for l xs
  proof -
    have all: "\<forall>e \<in> set xs. t1 \<le> fst e"
      using bt [of xs] that(2) split [of xs] by (metis Un_iff order_eq_refl order_less_imp_le set_append)
    have "map fst (bunch t1 xs) = replicate (length (bunch t1 xs)) t1"
      using bt [of xs] by (simp add: map_replicate_const [symmetric] cong: map_cong)
    then have "sorted (map fst (bunch t1 xs))" by simp
    from sorted_then [OF this bt that] have "sorted (map fst xs)" by simp
    with all show ?thesis by simp
  qed
  have "image_mset (Pair t1) (mset (l1 # map snd (bunch t1 es))) =
      image_mset (Pair t1) (mset (l2 # map snd (bunch t1 ds)))" using b by (rule arg_cong)
  then have "mset ((t1, l1) # bunch t1 es) = mset ((t1, l2) # bunch t1 ds)"
    unfolding bunch_pairs2 [symmetric] .
  moreover have "mset (after_bunch t1 es) = mset (after_bunch t1 ds)" using ag by (simp add: agree_def)
  moreover have "mset ((t1, l) # xs) = mset ((t1, l) # bunch t1 xs) + mset (after_bunch t1 xs)" for l xs
    by (metis append_Cons mset_append takeWhile_dropWhile_id)
  ultimately have m: "mset ((t1, l1) # es) = mset ((t1, l2) # ds)" by metis
  have gt: "\<forall>e \<in> set (after_bunch t1 es). t1 < fst e" "\<forall>e \<in> set (after_bunch t1 ds). t1 < fst e"
    using ag mset_eq_setD [of "after_bunch t1 es" "after_bunch t1 ds"] by (auto simp: agree_def)
  have so: "sorted (map fst (after_bunch t1 es))" "sorted (map fst (after_bunch t1 ds))"
    using ag by (simp_all add: agree_def)
  have "\<forall>e \<in> set ((t1, l1) # es). t < fst e" using srt [OF so(1) gt(1)] t(1) by fastforce
  then show "agree t ((t1, l1) # es) ((t2, l2) # ds)"
    using srt [OF so(1) gt(1)] srt [OF so(2) gt(2)] m t(2) unfolding agree_def by blast
qed

lemma loop_agrees:
  "timed es \<Longrightarrow> timed ds \<Longrightarrow>
   compare_loop fa (map snd es) (map snd ds) t t n1 n2 = Inr Equal \<longleftrightarrow> agree t es ds"
proof (induction "length es" arbitrary: es ds t n1 n2 rule: less_induct)
  case less
  consider "es = []" | "es \<noteq> []" "ds = []" | "es \<noteq> []" "ds \<noteq> []" by blast
  then show ?case
  proof cases
    case 1
    then show ?thesis
      by (cases ds) (auto simp: compare_loop.simps [of _ "[]"] agree_def differ_def)
  next
    case 2
    then show ?thesis by (simp add: compare_loop.simps [of _ _ "[]"] agree_def differ_def)
  next
    case 3
    obtain t1 l1 es' where es: "es = (t1, l1) # es'" using 3(1) by (cases es) auto
    obtain t2 l2 ds' where ds: "ds = (t2, l2) # ds'" using 3(2) by (cases ds) auto
    obtain m1 m2 where step: "compare_loop fa (map snd es) (map snd ds) t t n1 n2 =
      (if t1 \<le> t \<or> t2 \<le> t \<or> t1 \<noteq> t2 \<or>
          mset (l1 # map snd (bunch t1 es')) \<noteq> mset (l2 # map snd (bunch t2 ds'))
       then differ fa t t m1 m2
       else compare_loop fa (map snd (after_bunch t1 es')) (map snd (after_bunch t2 ds')) t1 t2 m1 m2)"
      using loop_step [of t1 l1 es' t2 l2 ds'] less.prems unfolding es ds by blast
    have "compare_loop fa (map snd (after_bunch t1 es')) (map snd (after_bunch t1 ds')) t1 t1 m1 m2 = Inr Equal \<longleftrightarrow>
        agree t1 (after_bunch t1 es') (after_bunch t1 ds')"
      by (rule less.hyps) (use less.prems length_dropWhile_le [of "\<lambda>e. fst e = t1" es'] in
        \<open>auto simp: es ds intro: timed_drop\<close>)
    then show ?thesis
      unfolding step unfolding es ds agree_step by (auto simp: differ_def)
  qed
qed

section \<open>The files of the test\<close>

lemma read_lines_of_text:
  assumes "\<forall>l \<in> set ls. NL \<notin> set l"
  shows "read_lines_of (lines_text ls) = map (\<lambda>l. l @ [NL]) ls"
proof -
  have "read_lines_of (l @ NL # rest) = (l @ [NL]) # read_lines_of rest" if "NL \<notin> set l" for l rest
    using that by (induction l) auto
  with assms show ?thesis by (induction ls) (auto simp: lines_text_def)
qed

definition timed_line :: "entry \<Rightarrow> int \<times> string" where
  "timed_line e = (fst e, entry_line e)"

lemma get_time_entry: "get_time (entry_line e @ [NL]) = Inr (fst e)"
  by (simp add: get_time_def entry_line_def trace_line_def split_tabs_append no_tab_show)

text \<open>Two files of lines of the tool are equal for the script exactly when they are the same lines,
  each in the order of the times.\<close>

lemma compare_equal:
  assumes "mset es = mset (map timed_line xs)" "mset ds = mset (map timed_line ys)"
    and "\<forall>e \<in> set xs. 0 < fst e \<and> NL \<notin> set (entry_line e)" "\<forall>e \<in> set ys. NL \<notin> set (entry_line e)"
  shows "compare_files fa (lines_text (map snd es)) (lines_text (map snd ds)) = Inr Equal \<longleftrightarrow>
    sorted (map fst es) \<and> sorted (map fst ds) \<and> mset es = mset ds"
proof -
  let ?f = "map (\<lambda>(t, l). (t, l @ [NL]))"
  have es: "\<forall>p \<in> set es. \<exists>e \<in> set xs. p = timed_line e" and ds: "\<forall>p \<in> set ds. \<exists>e \<in> set ys. p = timed_line e"
    using mset_eq_setD [OF assms(1)] mset_eq_setD [OF assms(2)] by auto
  have r: "read_lines_of (lines_text (map snd es)) = map snd (?f es)"
    "read_lines_of (lines_text (map snd ds)) = map snd (?f ds)"
    using es ds assms(3,4) by (subst read_lines_of_text; force simp: timed_line_def split_beta)+
  have t: "timed (?f es)" "timed (?f ds)"
    using es ds by (force simp: timed_def timed_line_def get_time_entry split_beta)+
  have hd_ok: "\<exists>u. (if map snd as = [] then Inr 0 else get_time (hd (map snd as))) = Inr u"
    if "timed as" for as
    using that by (cases as) auto
  obtain u1 u2 where "(if map snd (?f es) = [] then Inr 0 else get_time (hd (map snd (?f es)))) = Inr u1"
    "(if map snd (?f ds) = [] then Inr 0 else get_time (hd (map snd (?f ds)))) = Inr u2"
    using hd_ok [OF t(1)] hd_ok [OF t(2)] by blast
  then have "compare_files fa (lines_text (map snd es)) (lines_text (map snd ds)) =
      compare_loop fa (map snd (?f es)) (map snd (?f ds)) 0 0 1 1"
    unfolding compare_files_def r Let_def by simp
  moreover have "compare_loop fa (map snd (?f es)) (map snd (?f ds)) 0 0 1 1 = Inr Equal \<longleftrightarrow>
      agree 0 (?f es) (?f ds)"
    using t by (rule loop_agrees)
  moreover have "agree 0 (?f es) (?f ds) \<longleftrightarrow> sorted (map fst es) \<and> sorted (map fst ds) \<and> mset es = mset ds"
  proof -
    let ?g = "map (\<lambda>(t, l). (t, butlast l))"
    have g: "?g (?f as) = as" for as :: "(int \<times> string) list"
      by (simp add: comp_def split_beta)
    have "mset (?f es) = mset (?f ds) \<longleftrightarrow> mset es = mset ds"
    proof
      assume "mset (?f es) = mset (?f ds)"
      then have "mset (?g (?f es)) = mset (?g (?f ds))" by (simp only: mset_map)
      then show "mset es = mset ds" unfolding g .
    qed (simp only: mset_map)
    moreover have "map fst (?f as) = map fst as" for as :: "(int \<times> string) list" by (simp add: split_beta)
    moreover have "\<forall>e \<in> set (?f es). 0 < fst e" using es assms(3) by (force simp: timed_line_def)
    ultimately show ?thesis by (simp only: agree_def) blast
  qed
  ultimately show ?thesis by (simp only:)
qed

section \<open>The property\<close>

text \<open>
  What \<open>my_sort.sh\<close> makes of the file, with \<open>sort -k 1 -n\<close> and then \<open>sed '/thread_sync/d'\<close>: the lines
  without \<open>thread_sync\<close> in them, in the order of their numbers, lines of one time in any order.
\<close>

definition sort_output :: "entry list \<Rightarrow> (int \<times> string) list \<Rightarrow> bool" where
  "sort_output es srt \<longleftrightarrow>
     sorted (map fst srt) \<and>
     mset srt = mset (map timed_line (filter (\<lambda>e. \<not> sublist ''thread_sync'' (entry_line e)) es))"

lemma sync_line:
  assumes "snd (snd e) = Thread_Sync"
  shows "sublist ''thread_sync'' (entry_line e)"
proof -
  have "entry_line e = (show_int (fst e) @ TAB # show_int (fst (snd e)) @ [TAB]) @ ''thread_sync'' @ []"
    using assms by (simp add: entry_line_def trace_line_def)
  then show ?thesis unfolding sublist_def by blast
qed

lemma accepted_positive:
  "accepted h ps \<Longrightarrow> history_ok h \<Longrightarrow> \<forall>p \<in> set ps. 0 < line_time p"
  by (induction ps arbitrary: h) (auto dest: history_advance)

text \<open>C10. The test of the merge program in \<open>src/merge_test\<close> passes: for every run of a program under the
  tracer to its end, whose trace names no function like \<open>thread_sync\<close>, the comparison of the sorted
  file and of the output of the merge program with its option \<open>-t\<close> finds them equal.\<close>

theorem merge_test_passes:
  assumes "runs_to_end bm k es x" and "heap_choice pick" and "keeps_times argv"
    and "sort_output (trace_file (run_state (tool x))) srt"
    and "list_all (\<lambda>e. sublist ''thread_sync'' (entry_line e) \<longrightarrow> snd (snd e) = Thread_Sync)
      (trace_file (run_state (tool x)))"
  shows "\<exists>res. merge_program pick argv (file_text (run_state (tool x))) = Inr res \<and>
    compare_files fa (lines_text (map snd srt)) res = Inr Equal"
proof -
  let ?s = "run_state (tool x)"
  note ends = runs_to_endD [OF assms(1)]
  obtain out where out: "merge_program pick argv (file_text ?s) = Inr (lines_text (map snd out))"
    "merges_to argv ?s (lines_text (map snd out)) out"
    using ends assms(2) by (rule ended_merges)
  let ?kept = "filter (\<lambda>e. \<not> syncs e) (trace_file ?s)"
  have line: "merged_line True e = timed_line e" for e
    by (simp add: merged_line_def kept_text_def timed_line_def)
  have o: "sorted (map fst out)" "mset out = mset (map timed_line ?kept)"
    using out(2) assms(3) by (simp_all add: merges_to_def line cong: map_cong)
  have "filter (\<lambda>e. \<not> sublist ''thread_sync'' (entry_line e)) (trace_file ?s) = ?kept"
    using assms(5) ended_syncs [OF ends(1,3,5,6)] sync_line
    by (intro filter_cong) (auto simp: list_all_iff)
  with assms(4) have srt: "sorted (map fst srt)" "mset srt = mset (map timed_line ?kept)"
    by (simp_all add: sort_output_def)
  have "in_contract ?s" using proper_contract [OF proper_run_proper [OF ends(2)] ends(5,6)] by simp
  then have "accepted no_history (parsed_file ?s)" by (auto simp: in_contract_def contract_def)
  moreover have "history_ok no_history" by (simp add: history_ok_def no_history_def)
  ultimately have "\<forall>p \<in> set (parsed_file ?s). 0 < line_time p" by (rule accepted_positive)
  then have pos: "\<forall>e \<in> set (trace_file ?s). 0 < fst e" by (auto simp: parsed_file_def parsed_entry_def)
  have "\<forall>e \<in> set (trace_file ?s). NL \<notin> set (entry_line e)"
    using ended_printable [OF ends(1,3-6)] by (simp add: list_all_iff printable_def)
  with pos have "compare_files fa (lines_text (map snd srt)) (lines_text (map snd out)) = Inr Equal"
    using compare_equal [OF srt(2) o(2)] srt o by simp
  with out(1) show ?thesis by blast
qed

lemma no_y: "CHR ''y'' \<notin> set (show_int i)"
  using show_nat_digits [of "nat i"] show_nat_digits [of "nat (- i)"]
  by (auto simp: show_int_def isdigit_def code_of_def split: if_splits)

theorem merge_test_passes_witness:
  "\<exists>x srt res. executed alist_bimap default_knobs writers_complete = Some x \<and> length srt = 6 \<and>
     sort_output (trace_file (run_state (tool x))) srt \<and>
     merge_program first_min [''merge'', ''-t''] (file_text (run_state (tool x))) = Inr res \<and>
     compare_files True (lines_text (map snd srt)) res = Inr Equal"
proof -
  obtain x where x: "runs_to_end alist_bimap default_knobs writers_complete x"
    "trace_file (run_state (tool x)) =
       [(1, 0, Thread_Register), (2, 1, Thread_Register),
        (4, 1, Memory None None (Some (4100, 8))), (5, 1, Thread_Finish),
        (3, 0, Memory None None (Some (4096, 8))), (6, 0, Thread_Finish)]"
    using writers_complete_ends by blast
  let ?es = "trace_file (run_state (tool x))"
  obtain srt where srt_def: "srt = sort_key fst (map timed_line ?es)" by blast
  have "CHR ''y'' \<notin> set (entry_line e)" if "e \<in> set ?es" for e
    using that by (auto simp: x(2) entry_line_def trace_line_def no_y show_u64_int)
  then have no: "\<not> sublist ''thread_sync'' (entry_line e)" if "e \<in> set ?es" for e
    using that set_mono_sublist [of "''thread_sync''" "entry_line e"] by auto
  then have f: "filter (\<lambda>e. \<not> sublist ''thread_sync'' (entry_line e)) ?es = ?es"
    by (intro filter_True) blast
  have srt: "sort_output ?es srt" by (simp add: sort_output_def f srt_def)
  have "keeps_times [''merge'', ''-t'']" by (simp add: keeps_times_def)
  from merge_test_passes [OF x(1) fm.heap_choice_axioms this srt, of True] no
  obtain res where "merge_program first_min [''merge'', ''-t''] (file_text (run_state (tool x))) = Inr res"
    "compare_files True (lines_text (map snd srt)) res = Inr Equal"
    by (auto simp: list_all_iff)
  moreover have "length srt = 6" by (simp add: x(2) srt_def)
  ultimately show ?thesis
    using runs_to_endD(1) [OF x(1)] srt
    by (intro exI [of _ x] exI [of _ srt] exI [of _ res] conjI)
qed

end
