(* ===== verification/Merge_Reference.thy ===== *)
theory Merge_Reference
  imports Merge_Properties
begin

text \<open>
  Reference definitions, and that the code equals them: the merge program is a sort of the lines it
  keeps, and the safe timestamp that \<open>set_time\<close> updates only where it must is the one that a
  computation from all threads gives.
\<close>

section \<open>Sorting\<close>

text \<open>The lines that are kept, each with its time, in the order of the input.\<close>

definition kept_list :: "bool \<Rightarrow> parsed_line list \<Rightarrow> string list \<Rightarrow> (int \<times> string) list" where
  "kept_list keep ps ls =
     map (\<lambda>(p, l). (line_time p, kept_text keep p l)) (filter (\<lambda>(p, l). \<not> skipped p) (zip ps ls))"

definition sorted_text :: "bool \<Rightarrow> parsed_line list \<Rightarrow> string list \<Rightarrow> string" where
  "sorted_text keep ps ls = lines_text (map snd (sort_key fst (kept_list keep ps ls)))"

lemma mset_kept_list: "mset (kept_list keep ps ls) = kept_lines keep ps ls"
  by (induction keep ps ls rule: kept_lines.induct) (auto simp: kept_list_def kept_line_def)

text \<open>C18. The merge program is a sort: on every input that keeps the contract, in which every thread
  finishes and no two lines that are kept have the same time, its output is the kept lines sorted by
  time, as the library's stable sort gives them, whatever the priority queue does.\<close>

theorem merge_equals_sort:
  assumes "heap_choice pick" and "readable ls ps" and "accepted no_history ps"
    and "live (final_history ps) = Map.empty"
    and "distinct (map fst (kept_list (1 < length argv \<and> argv ! 1 = ''-t'') ps ls))"
  shows "merge_program pick argv (lines_text ls) =
    Inr (sorted_text (1 < length argv \<and> argv ! 1 = ''-t'') ps ls)"
proof -
  let ?k = "1 < length argv \<and> argv ! 1 = ''-t''"
  obtain es where es: "merge_program pick argv (lines_text ls) = Inr (lines_text (map snd es))"
    "sorted (map fst es)" "mset es = kept_lines ?k ps ls"
    using heap_choice.merge_main_ok [OF assms(1) readableD [OF assms(2)] assms(3,4),
        of initial_capacity ?k]
    by (auto simp: merge_program_def initial_capacity_def)
  have "mset (kept_list ?k ps ls) = mset es" by (simp add: es(3) mset_kept_list)
  moreover have "inj_on fst (set (kept_list ?k ps ls))"
    using assms(5) by (simp add: distinct_map)
  ultimately have "sort_key fst (kept_list ?k ps ls) = es"
    using es(2) by (rule sort_key_inj_key_eq)
  with es(1) show ?thesis by (simp add: sorted_text_def)
qed

theorem merge_equals_sort_witness:
  "merge_program first_min [''merge''] (lines_text sample_lines) =
     Inr (sorted_text False sample_parsed sample_lines) \<and>
   map fst (sort_key fst (kept_list False sample_parsed sample_lines)) = [1, 2, 3, 5, 6, 7]"
proof -
  have k: "map fst (kept_list False sample_parsed sample_lines) = [1, 2, 5, 3, 6, 7]"
    by (simp add: kept_list_def sample_parsed_def sample_lines_def skipped_def)
  have "map fst (sort_key fst (kept_list False sample_parsed sample_lines)) =
      sort (map fst (kept_list False sample_parsed sample_lines))"
    by (rule properties_for_sort [symmetric]) simp_all
  then have "map fst (sort_key fst (kept_list False sample_parsed sample_lines)) = [1, 2, 3, 5, 6, 7]"
    by (simp add: k)
  with merge_equals_sort [OF fm.heap_choice_axioms sample_readable sample_accepted sample_finished,
      of "[''merge'']"] k
  show ?thesis by simp
qed

section \<open>The safe timestamp\<close>

text \<open>\<open>set_time\<close> without the test: the pair is replaced or appended, the minimum computed again.\<close>

definition set_time_always :: "safe_timestamp \<Rightarrow> int \<Rightarrow> int \<Rightarrow> safe_timestamp" where
  "set_time_always st threadid t =
     update_cache (st\<lparr>tt_list := AList.update threadid t (tt_list st)\<rparr>)"

lemma update_new_key: "map_of ps i = None \<Longrightarrow> AList.update i t ps = ps @ [(i, t)]"
  by (induction ps) (auto split: if_splits)

text \<open>C23. The cached minimum is right: where a thread's time does not go back, \<open>set_time\<close>, which
  computes the minimum over the threads again only where the thread's old time was not above it,
  gives the same state as computing it every time.\<close>

theorem set_time_equals_always:
  assumes "st_inv st" and "\<And>old. st_last st i = Some old \<Longrightarrow> old \<le> t"
  shows "set_time st i t = set_time_always st i t"
proof (cases "map_of (tt_list st) i")
  case None
  then show ?thesis by (simp add: set_time_def set_time_always_def update_new_key)
next
  case (Some old)
  show ?thesis
  proof (cases "old \<le> safe_timestamp_cache st")
    case True
    with Some show ?thesis by (simp add: set_time_def set_time_always_def)
  next
    case False
    let ?l = "AList.update i t (tt_list st)"
    have "old \<le> t" using assms(2) Some by (simp add: st_last_def)
    with set_time_skip [OF assms(1) Some] False
    have m: "Min (snd ` set ?l) = safe_timestamp_cache st" by simp
    obtain p ps where l: "?l = p # ps" by (cases ?l) (auto simp: update_conv' dest: arg_cong [where f = map_of])
    have "min_loop (snd p) (p # ps) = safe_timestamp_cache st"
      using m unfolding l min_loop_Min by simp
    with Some False l show ?thesis
      by (simp add: set_time_def set_time_always_def update_cache_def del: min_loop.simps)
  qed
qed

theorem set_time_equals_always_witness:
  "set_time \<lparr>safe_timestamp_cache = 2, tt_list = [(1, 2), (4, 6)]\<rparr> 4 9 =
     \<lparr>safe_timestamp_cache = 2, tt_list = [(1, 2), (4, 9)]\<rparr> \<and>
   set_time_always \<lparr>safe_timestamp_cache = 2, tt_list = [(1, 2), (4, 6)]\<rparr> 4 9 =
     \<lparr>safe_timestamp_cache = 2, tt_list = [(1, 2), (4, 9)]\<rparr>"
proof -
  let ?st = "\<lparr>safe_timestamp_cache = 2, tt_list = [(1, 2), (4, 6)]\<rparr>"
  have "st_inv ?st" by (simp add: st_inv_def)
  moreover have "old \<le> 9" if "st_last ?st 4 = Some old" for old
    using that by (simp add: st_last_def)
  ultimately have "set_time ?st 4 9 = set_time_always ?st 4 9" by (rule set_time_equals_always)
  moreover have "set_time ?st 4 9 = \<lparr>safe_timestamp_cache = 2, tt_list = [(1, 2), (4, 9)]\<rparr>"
    by (simp add: set_time_def)
  ultimately show ?thesis by simp
qed

end
