(* ===== verification/Mutex_Order.thy ===== *)
theory Mutex_Order
  imports Runs
begin

text \<open>
  The mutexes of \<open>src/trace/trace.cpp\<close>: the order in which the routines take them, and that this
  order keeps the threads from waiting for each other in a circle. \<open>Handlers\<close> runs a routine as one
  step; here a routine is the sequence of its \<open>PIN_MutexLock\<close> and \<open>PIN_MutexUnlock\<close> calls, which
  the threads interleave as they like.
\<close>

section \<open>The mutexes and their order\<close>

text \<open>
  The address locks, \<open>thread_start_fini_lock\<close>, the \<open>thread_lock\<close> of a thread and \<open>file_lock\<close>, in
  the order in which they may be taken.
\<close>

datatype mutex = Address int | Start_Fini | Thread int | File

fun mutex_rank :: "mutex \<Rightarrow> nat" where
  "mutex_rank (Address i) = 0"
| "mutex_rank Start_Fini = 1"
| "mutex_rank (Thread p) = 2"
| "mutex_rank File = 3"

fun mutex_index :: "mutex \<Rightarrow> int" where
  "mutex_index (Address i) = i"
| "mutex_index Start_Fini = 0"
| "mutex_index (Thread p) = p"
| "mutex_index File = 0"

lemma mutex_eqI: "mutex_rank a = mutex_rank b \<Longrightarrow> mutex_index a = mutex_index b \<Longrightarrow> a = b"
  by (cases a; cases b) simp_all

instantiation mutex :: linorder
begin

definition less_eq_mutex :: "mutex \<Rightarrow> mutex \<Rightarrow> bool" where
  "a \<le> b \<longleftrightarrow> mutex_rank a < mutex_rank b \<or>
     mutex_rank a = mutex_rank b \<and> mutex_index a \<le> mutex_index b"

definition less_mutex :: "mutex \<Rightarrow> mutex \<Rightarrow> bool" where
  "a < b \<longleftrightarrow> mutex_rank a < mutex_rank b \<or>
     mutex_rank a = mutex_rank b \<and> mutex_index a < mutex_index b"

instance
  by standard (auto simp: less_eq_mutex_def less_mutex_def intro: mutex_eqI)

end

lemma mutex_less [simp]:
  "Address i < Address j \<longleftrightarrow> i < j" "Address i < Start_Fini" "Address i < Thread p"
  "Address i < File" "Start_Fini < Thread p" "Start_Fini < File"
  "Thread p < Thread q \<longleftrightarrow> p < q" "Thread p < File"
  by (simp_all add: less_mutex_def)

section \<open>What a routine does with the mutexes\<close>

datatype action = Take mutex | Give mutex

text \<open>A scope with a \<open>pin_critical_section\<close>.\<close>

definition in_section :: "bool \<Rightarrow> mutex \<Rightarrow> action list \<Rightarrow> action list" where
  "in_section predicate m body =
     (if predicate then [Take m] else []) @ body @ (if predicate then [Give m] else [])"

text \<open>
  What a routine finds when it runs: whether the access is traced and locking is on, the sorted
  lock indices of the access, whether the thread is registered, \<open>register_threads\<close>, the running
  threads, whether \<open>touch_buffer\<close> flushes, the lagging threads it then visits with whether each
  one's buffer is written, and whether entries are left when the thread ends.
\<close>

record findings =
  access_traced :: bool
  locking :: bool
  wanted :: "int list"
  is_registered :: bool
  registering :: bool
  running :: "int list"
  flushes :: bool
  visited :: "(int \<times> bool) list"
  entries_left :: bool

fun flush_mutexes :: "bool \<Rightarrow> (int \<times> bool) list \<Rightarrow> action list" where
  "flush_mutexes hold_all [] = []"
| "flush_mutexes hold_all ((q, writes) # qs) =
     in_section (\<not> hold_all) (Thread q) (if writes then in_section True File [] else []) @
     flush_mutexes hold_all qs"

text \<open>
  \<open>touch_buffer\<close>: \<open>pause\<close> gives the thread's mutex back, and \<open>restart\<close>, which tests \<open>_paused\<close>,
  takes nothing.
\<close>

definition touch_mutexes :: "int \<Rightarrow> bool \<Rightarrow> bool \<Rightarrow> findings \<Rightarrow> action list" where
  "touch_mutexes p force have_all f =
     (if flushes f \<or> force then in_section True File [] else []) @
     (if (flushes f \<or> force) \<and> visited f \<noteq> []
      then if have_all then flush_mutexes True (visited f)
           else Give (Thread p) # in_section True Start_Fini (flush_mutexes False (visited f))
      else [])"

definition all_threads_section :: "int \<Rightarrow> findings \<Rightarrow> action list" where
  "all_threads_section p f =
     map (Take \<circ> Thread) (running f) @ touch_mutexes p True True f @ map (Give \<circ> Thread) (running f)"

definition release_mutexes :: "int list \<Rightarrow> action list" where
  "release_mutexes held = map (Give \<circ> Address) held"

definition trace_function_mutexes :: "int \<Rightarrow> findings \<Rightarrow> action list" where
  "trace_function_mutexes p f =
     in_section (\<not> is_registered f) Start_Fini
       (if is_registered f then in_section True (Thread p) (touch_mutexes p False False f)
        else all_threads_section p f)"

definition start_mutexes :: "int \<Rightarrow> findings \<Rightarrow> action list" where
  "start_mutexes p f =
     in_section True Start_Fini
       ((if \<not> registering f then all_threads_section p f else in_section True (Thread p) []) @
        in_section True File [])"

definition fini_mutexes :: "int \<Rightarrow> findings \<Rightarrow> action list" where
  "fini_mutexes p f =
     in_section True Start_Fini
       ((if is_registered f then all_threads_section p f else []) @
        in_section True (Thread p) (if entries_left f then in_section True File [] else []))"

text \<open>The whole routine, for a thread that holds the address locks \<open>held\<close> when it is called.\<close>

fun call_mutexes :: "call \<Rightarrow> findings \<Rightarrow> int list \<Rightarrow> action list" where
  "call_mutexes (Header p) f held = release_mutexes held @ in_section True (Thread p) []"
| "call_mutexes (Acquire p) f held =
     (if access_traced f \<and> locking f then map (Take \<circ> Address) (wanted f) else [])"
| "call_mutexes (Footer p) f held =
     (if access_traced f then in_section True (Thread p) (touch_mutexes p False False f) else [])"
| "call_mutexes (Release p) f held = release_mutexes held"
| "call_mutexes (Call name p sp a b c) f held = release_mutexes held @ trace_function_mutexes p f"
| "call_mutexes (Return name p sp v) f held = release_mutexes held @ trace_function_mutexes p f"
| "call_mutexes (Roi p b name) f held =
     release_mutexes held @ in_section True Start_Fini (all_threads_section p f)"
| "call_mutexes (Register p uid) f held =
     release_mutexes held @
     (if registering f then in_section True Start_Fini (all_threads_section p f) else [])"
| "call_mutexes (Start g uid p) f held = start_mutexes p f"
| "call_mutexes (Fini p) f held = release_mutexes held @ fini_mutexes p f"
| "call_mutexes (Ctxt_Change p) f held =
     release_mutexes held @ in_section True (Thread p) (touch_mutexes p False False f)"
| "call_mutexes c f held = []"

text \<open>The address locks that the thread holds after the routine.\<close>

fun held_after :: "call \<Rightarrow> findings \<Rightarrow> int list \<Rightarrow> int list" where
  "held_after (Acquire p) f held =
     (if access_traced f \<and> locking f then wanted f else held)"
| "held_after (Read1 p a n) f held = held"
| "held_after (Read2 p a) f held = held"
| "held_after (Write p a n) f held = held"
| "held_after (Cas_Footer p r) f held = held"
| "held_after (Footer p) f held = held"
| "held_after (Start g uid p) f held = held"
| "held_after c f held = []"

text \<open>All calls of a thread.\<close>

fun thread_script :: "(call \<times> findings) list \<Rightarrow> int list \<Rightarrow> action list" where
  "thread_script [] held = []"
| "thread_script ((c, f) # cs) held =
     call_mutexes c f held @ thread_script cs (held_after c f held)"

fun final_held :: "(call \<times> findings) list \<Rightarrow> int list \<Rightarrow> int list" where
  "final_held [] held = held"
| "final_held ((c, f) # cs) held = final_held cs (held_after c f held)"

section \<open>The discipline\<close>

text \<open>
  A mutex is taken when it is above all that the thread holds, and given back when it is held;
  the result is what is held at the end.
\<close>

fun mutexes_after :: "mutex set \<Rightarrow> action list \<Rightarrow> mutex set option" where
  "mutexes_after H [] = Some H"
| "mutexes_after H (Take m # as) = (if \<forall>h \<in> H. h < m then mutexes_after (insert m H) as else None)"
| "mutexes_after H (Give m # as) = (if m \<in> H then mutexes_after (H - {m}) as else None)"

lemma mutexes_after_append:
  "mutexes_after H (as @ bs) =
   (case mutexes_after H as of None \<Rightarrow> None | Some H' \<Rightarrow> mutexes_after H' bs)"
  by (induction H as rule: mutexes_after.induct) auto

text \<open>A balanced part of a routine: above everything held it can run, and leaves what was held.\<close>

definition balanced :: "mutex set \<Rightarrow> action list \<Rightarrow> bool" where
  "balanced H as \<longleftrightarrow> mutexes_after H as = Some H"

named_theorems balanced_intro \<open>balanced parts of the routines\<close>

lemma balanced_Nil [balanced_intro, simp]: "balanced H []"
  by (simp add: balanced_def)

lemma balanced_append [balanced_intro]: "balanced H as \<Longrightarrow> balanced H bs \<Longrightarrow> balanced H (as @ bs)"
  by (simp add: balanced_def mutexes_after_append)

lemma balanced_section [balanced_intro]:
  assumes "predicate \<Longrightarrow> \<forall>h \<in> H. h < m"
    and "predicate \<Longrightarrow> balanced (insert m H) body" and "\<not> predicate \<Longrightarrow> balanced H body"
  shows "balanced H (in_section predicate m body)"
proof (cases predicate)
  case True
  with assms(1) have "m \<notin> H" by auto
  with True assms(1,2) show ?thesis
    by (simp add: balanced_def in_section_def mutexes_after_append)
qed (use assms(3) in \<open>simp add: in_section_def\<close>)

lemma balanced_if [balanced_intro]:
  "(b \<Longrightarrow> balanced H as) \<Longrightarrow> (\<not> b \<Longrightarrow> balanced H bs) \<Longrightarrow> balanced H (if b then as else bs)"
  by simp

lemma take_all:
  "sorted_wrt (<) ms \<Longrightarrow> (\<And>h m. h \<in> H \<Longrightarrow> m \<in> set ms \<Longrightarrow> h < m) \<Longrightarrow>
   mutexes_after H (map Take ms) = Some (H \<union> set ms)"
proof (induction ms arbitrary: H)
  case (Cons m ms)
  have "mutexes_after (insert m H) (map Take ms) = Some (insert m H \<union> set ms)"
    using Cons.prems by (intro Cons.IH) auto
  with Cons.prems(2) show ?case by simp
qed simp

lemma give_all:
  "distinct ms \<Longrightarrow> set ms \<subseteq> H \<Longrightarrow> mutexes_after H (map Give ms) = Some (H - set ms)"
proof (induction ms arbitrary: H)
  case (Cons m ms)
  then have "mutexes_after (H - {m}) (map Give ms) = Some (H - {m} - set ms)"
    by (intro Cons.IH) auto
  moreover have "H - {m} - set ms = H - set (m # ms)" by auto
  ultimately show ?case using Cons.prems(2) by simp
qed simp

lemma sorted_map_mutex:
  "sorted_wrt (<) ixs \<Longrightarrow> sorted_wrt (<) (map Address ixs)"
  "sorted_wrt (<) ixs \<Longrightarrow> sorted_wrt (<) (map Thread ixs)"
  by (simp_all add: sorted_wrt_map)

lemma ascending_distinct: "sorted_wrt (<) (ixs :: 'a :: linorder list) \<Longrightarrow> distinct ixs"
  by (simp add: strict_sorted_iff)

section \<open>The routines\<close>

definition above :: "mutex set \<Rightarrow> mutex \<Rightarrow> bool" where
  "above H m \<longleftrightarrow> (\<forall>h \<in> H. h < m)"

text \<open>Address locks are all below the others.\<close>

definition addresses :: "int list \<Rightarrow> mutex set" where
  "addresses held = Address ` set held"

lemma flush_mutexes_balanced:
  "\<forall>h \<in> H. h < File \<Longrightarrow> balanced H (flush_mutexes True qs)"
proof (induction qs)
  case (Cons q qs)
  obtain t w where q: "q = (t, w)" by (cases q)
  from Cons show ?case
    by (auto simp: q intro!: balanced_append balanced_section)
qed simp

lemma touch_mutexes_balanced:
  assumes "\<forall>h \<in> H. h < File" and "have_all \<or> visited f = []"
  shows "balanced H (touch_mutexes p force have_all f)"
  unfolding touch_mutexes_def using assms
  by (auto intro!: balanced_append balanced_section flush_mutexes_balanced)

lemma all_threads_balanced:
  assumes low: "\<forall>h \<in> H. h \<le> Start_Fini" and run: "sorted_wrt (<) (running f)"
  shows "balanced H (all_threads_section p f)"
proof -
  let ?T = "map Thread (running f)"
  have lt: "h < Thread q" if "h \<in> H" for h q
    using low that by (cases h) (auto simp: less_eq_mutex_def)
  have t: "mutexes_after H (map Take ?T) = Some (H \<union> set ?T)"
    using run lt by (intro take_all sorted_map_mutex) auto
  have "h < File" if "h \<in> H" for h
    using low that by (cases h) (auto simp: less_eq_mutex_def)
  then have f: "\<forall>h \<in> H \<union> set ?T. h < File" by auto
  have b: "mutexes_after (H \<union> set ?T) (touch_mutexes p True True f) = Some (H \<union> set ?T)"
    using touch_mutexes_balanced [OF f, of True f p True] by (simp add: balanced_def)
  have g: "mutexes_after (H \<union> set ?T) (map Give ?T) = Some (H \<union> set ?T - set ?T)"
    using ascending_distinct [OF sorted_map_mutex(2) [OF run]] by (intro give_all) auto
  moreover have "H \<inter> set ?T = {}"
    using lt by fastforce
  then have "H \<union> set ?T - set ?T = H" by auto
  ultimately show ?thesis
    using t b by (simp add: balanced_def all_threads_section_def mutexes_after_append)
qed

lemma release_mutexes_after:
  "sorted_wrt (<) held \<Longrightarrow> mutexes_after (addresses held) (release_mutexes held) = Some {}"
  using give_all [of "map Address held" "addresses held"]
    ascending_distinct [OF sorted_map_mutex(1), of held]
  by (simp add: release_mutexes_def addresses_def)

text \<open>
  The findings of a run: lists in ascending order; and the thread does not visit lagging threads
  with its own section paused, after which the destructor would unlock a mutex that is not held.
\<close>

fun synchronises :: "call \<Rightarrow> findings \<Rightarrow> bool" where
  "synchronises (Call name p sp a b c) f = (\<not> is_registered f)"
| "synchronises (Return name p sp v) f = (\<not> is_registered f)"
| "synchronises (Footer p) f = False"
| "synchronises (Ctxt_Change p) f = False"
| "synchronises c f = True"

definition findings_ok :: "call \<Rightarrow> findings \<Rightarrow> bool" where
  "findings_ok c f \<longleftrightarrow>
     sorted_wrt (<) (wanted f) \<and> sorted_wrt (<) (running f) \<and>
     (synchronises c f \<or> visited f = [])"

lemma addresses_low: "h \<in> addresses held \<Longrightarrow> h < Start_Fini \<and> h < Thread p \<and> h < File \<and> h \<le> Start_Fini"
  by (auto simp: addresses_def less_eq_mutex_def)

lemma call_mutexes_after:
  assumes ok: "findings_ok c f" and held: "sorted_wrt (<) held"
    and ph: "next_phase c ph = Some ph'" "ph = Headed \<Longrightarrow> held = []"
  shows "mutexes_after (addresses held) (call_mutexes c f held) =
      Some (addresses (held_after c f held)) \<and>
    sorted_wrt (<) (held_after c f held) \<and> (ph' = Headed \<longrightarrow> held_after c f held = [])"
proof -
  have run: "sorted_wrt (<) (running f)" using ok by (simp add: findings_ok_def)
  have none: "addresses [] = {}" by (simp add: addresses_def)
  note rel = release_mutexes_after [OF held]
  have after: "mutexes_after (addresses held) (release_mutexes held @ as) = Some {}"
    if "balanced {} as" for as
    using rel that by (simp add: mutexes_after_append balanced_def)
  have touch: "balanced (insert (Thread p) H) (touch_mutexes p False False f)"
    if "visited f = []" "\<forall>h \<in> H. h < File" for p H
    by (rule touch_mutexes_balanced) (use that in simp_all)
  have all: "balanced {} (in_section True Start_Fini (all_threads_section p f))" for p
    by (intro balanced_section all_threads_balanced run) simp_all
  have fn: "balanced {} (trace_function_mutexes p f)" if "\<not> is_registered f \<or> visited f = []" for p
    unfolding trace_function_mutexes_def using that
    by (auto intro!: balanced_section touch all_threads_balanced run)
  show ?thesis
  proof (cases c)
    case (Acquire p)
    with ph have "held = []" by (simp split: if_splits)
    moreover have "mutexes_after {} (map Take (map Address (wanted f))) = Some (addresses (wanted f))"
      using ok take_all [of "map Address (wanted f)" "{}"]
      by (simp add: findings_ok_def addresses_def sorted_map_mutex)
    ultimately show ?thesis
      using Acquire ok ph by (auto simp: none findings_ok_def comp_def split: if_splits)
  next
    case (Footer p)
    with ok have "visited f = []" by (simp add: findings_ok_def)
    then have "balanced (addresses held) (call_mutexes (Footer p) f held)"
      by (auto intro!: balanced_section touch dest: addresses_low)
    with Footer held ph show ?thesis by (simp add: balanced_def split: if_splits)
  next
    case (Start g uid p)
    have "balanced (addresses held) (start_mutexes p f)"
      unfolding start_mutexes_def
      by (auto intro!: balanced_section balanced_append all_threads_balanced run dest: addresses_low)
    with Start held ph show ?thesis by (simp add: balanced_def split: if_splits)
  next
    case (Fini p)
    have "balanced {} (fini_mutexes p f)"
      unfolding fini_mutexes_def
      by (auto intro!: balanced_section balanced_append all_threads_balanced run)
    with Fini ph show ?thesis by (simp add: after none split: if_splits)
  next
    case (Call name p sp x y z)
    with ok have "balanced {} (trace_function_mutexes p f)" by (intro fn) (simp add: findings_ok_def)
    with Call ph show ?thesis by (simp add: after none split: if_splits)
  next
    case (Return name p sp v)
    with ok have "balanced {} (trace_function_mutexes p f)" by (intro fn) (simp add: findings_ok_def)
    with Return ph show ?thesis by (simp add: after none split: if_splits)
  next
    case (Roi p b name)
    with ph show ?thesis by (simp add: after all none split: if_splits)
  next
    case (Register p uid)
    with ph show ?thesis using all [of p] by (simp add: after none split: if_splits)
  next
    case (Ctxt_Change p)
    with ok have "balanced {} (in_section True (Thread p) (touch_mutexes p False False f))"
      by (intro balanced_section touch) (simp_all add: findings_ok_def)
    with Ctxt_Change ph show ?thesis by (simp add: after none split: if_splits)
  next
    case (Header p)
    have "balanced {} (in_section True (Thread p) [])" by (intro balanced_section) simp_all
    with Header ph show ?thesis by (simp add: after none split: if_splits)
  next
    case (Release p)
    with ph show ?thesis using after [of "[]"] by (simp add: none split: if_splits)
  qed (use held ph in \<open>auto split: if_splits\<close>)
qed

end
