(* ===== verification/Mutex_Progress.thy ===== *)
theory Mutex_Progress
  imports Mutex_Order
begin

text \<open>
  Threads that run the routines of \<open>src/trace/trace.cpp\<close> at the same time, each lock and unlock a
  step of its own: they never wait for each other in a circle, and whatever has happened, all can
  come to their end.
\<close>

section \<open>Threads and mutexes\<close>

text \<open>Who holds each mutex, and what each thread has still to do.\<close>

record system =
  owner :: "mutex \<Rightarrow> int option"
  todo :: "int \<Rightarrow> action list"

inductive mutex_step :: "system \<Rightarrow> system \<Rightarrow> bool" where
  take_free: "todo s p = Take m # as \<Longrightarrow> owner s m = None \<Longrightarrow>
    mutex_step s (s\<lparr>owner := (owner s)(m \<mapsto> p), todo := (todo s)(p := as)\<rparr>)"
| give_own: "todo s p = Give m # as \<Longrightarrow> owner s m = Some p \<Longrightarrow>
    mutex_step s (s\<lparr>owner := (owner s)(m := None), todo := (todo s)(p := as)\<rparr>)"

inductive_cases mutex_stepE: "mutex_step s s'"

definition holding :: "system \<Rightarrow> int \<Rightarrow> mutex set" where
  "holding s p = {m. owner s m = Some p}"

definition finished :: "system \<Rightarrow> bool" where
  "finished s \<longleftrightarrow> (\<forall>p. todo s p = [])"

text \<open>Every thread keeps the order, gives back only what it holds, and ends with nothing.\<close>

definition disciplined :: "system \<Rightarrow> bool" where
  "disciplined s \<longleftrightarrow>
     finite {p. todo s p \<noteq> []} \<and> (\<forall>p. mutexes_after (holding s p) (todo s p) = Some {})"

lemma step_disciplined:
  assumes "mutex_step s s'" and d: "disciplined s"
  shows "disciplined s'"
  using assms(1)
proof (cases rule: mutex_step.cases)
  case (take_free p m as)
  have fin: "finite {q. todo s' q \<noteq> []}"
    by (rule finite_subset [of _ "insert p {q. todo s q \<noteq> []}"])
      (use take_free d in \<open>auto simp: disciplined_def\<close>)
  have "mutexes_after (holding s' q) (todo s' q) = Some {}" for q
  proof (cases "q = p")
    case True
    have "mutexes_after (holding s p) (Take m # as) = Some {}"
      using d take_free(2) unfolding disciplined_def by metis
    moreover have "holding s' p = insert m (holding s p)"
      using take_free by (auto simp: holding_def)
    ultimately show ?thesis using True take_free by (simp split: if_splits)
  next
    case False
    then have "holding s' q = holding s q" using take_free by (auto simp: holding_def)
    with False take_free d show ?thesis by (simp add: disciplined_def)
  qed
  with fin show ?thesis by (simp add: disciplined_def)
next
  case (give_own p m as)
  have fin: "finite {q. todo s' q \<noteq> []}"
    by (rule finite_subset [of _ "insert p {q. todo s q \<noteq> []}"])
      (use give_own d in \<open>auto simp: disciplined_def\<close>)
  have "mutexes_after (holding s' q) (todo s' q) = Some {}" for q
  proof (cases "q = p")
    case True
    have "mutexes_after (holding s p) (Give m # as) = Some {}"
      using d give_own(2) unfolding disciplined_def by metis
    moreover have "holding s' p = holding s p - {m}"
      using give_own by (auto simp: holding_def)
    ultimately show ?thesis using True give_own by (simp split: if_splits)
  next
    case False
    then have "holding s' q = holding s q" using give_own by (auto simp: holding_def)
    with False give_own d show ?thesis by (simp add: disciplined_def)
  qed
  with fin show ?thesis by (simp add: disciplined_def)
qed

text \<open>
  Where no thread can go on, each waits for a mutex that another holds; the holder waits for a
  greater one, and among finitely many there is a greatest.
\<close>

lemma disciplined_progress:
  assumes d: "disciplined s" and nf: "\<not> finished s"
  shows "\<exists>s'. mutex_step s s'"
proof (rule ccontr)
  assume stuck: "\<not> (\<exists>s'. mutex_step s s')"
  have after: "mutexes_after (holding s p) (todo s p) = Some {}" for p
    using d by (simp add: disciplined_def)
  have wait: "\<exists>m as q. todo s p = Take m # as \<and> owner s m = Some q \<and> (\<forall>h \<in> holding s p. h < m)"
    if p: "todo s p \<noteq> []" for p
  proof -
    obtain a as where t: "todo s p = a # as" using p by (cases "todo s p") auto
    show ?thesis
    proof (cases a)
      case (Take m)
      with t stuck obtain q where "owner s m = Some q" using take_free by (metis not_None_eq)
      with t Take after [of p] show ?thesis by (auto split: if_splits)
    next
      case (Give m)
      with t after [of p] have "owner s m = Some p" by (auto simp: holding_def split: if_splits)
      with t Give stuck give_own show ?thesis by blast
    qed
  qed
  define W where "W = {m. \<exists>p as. todo s p = Take m # as}"
  have "W \<subseteq> (\<lambda>p. case todo s p of Take m # as \<Rightarrow> m | _ \<Rightarrow> File) ` {p. todo s p \<noteq> []}"
  proof
    fix m assume "m \<in> W"
    then obtain p as where "todo s p = Take m # as" by (auto simp: W_def)
    then show "m \<in> (\<lambda>p. case todo s p of Take m # as \<Rightarrow> m | _ \<Rightarrow> File) ` {p. todo s p \<noteq> []}"
      by (intro image_eqI [of _ _ p]) simp_all
  qed
  then have finW: "finite W"
    using d finite_subset unfolding disciplined_def by blast
  obtain p where "todo s p \<noteq> []" using nf by (auto simp: finished_def)
  with wait have "W \<noteq> {}" by (fastforce simp: W_def)
  with finW have top: "Max W \<in> W" by simp
  then obtain p as where p: "todo s p = Take (Max W) # as" by (auto simp: W_def)
  with wait [of p] obtain q where q: "owner s (Max W) = Some q" by auto
  then have hq: "Max W \<in> holding s q" by (simp add: holding_def)
  have "todo s q \<noteq> []"
    using after [of q] hq by auto
  with wait [of q] hq obtain m bs where "todo s q = Take m # bs" "Max W < m" by blast
  moreover from this have "m \<in> W" by (auto simp: W_def)
  ultimately show False using Max_ge [OF finW, of m] by simp
qed

definition work :: "system \<Rightarrow> nat" where
  "work s = (\<Sum>p \<in> {p. todo s p \<noteq> []}. length (todo s p))"

lemma work_over: "finite A \<Longrightarrow> {p. todo s p \<noteq> []} \<subseteq> A \<Longrightarrow> work s = (\<Sum>p \<in> A. length (todo s p))"
  unfolding work_def by (rule sum.mono_neutral_left) auto

lemma step_work:
  assumes "mutex_step s s'" and d: "disciplined s"
  shows "work s = Suc (work s')"
proof -
  from assms(1) obtain p a as where t: "todo s p = a # as" "todo s' = (todo s)(p := as)"
    by (auto elim!: mutex_stepE)
  let ?A = "{q. todo s q \<noteq> []}"
  have fin: "finite ?A" using d by (simp add: disciplined_def)
  have p: "p \<in> ?A" using t by simp
  have "work s' = (\<Sum>q \<in> ?A. length (todo s' q))"
    using t by (intro work_over fin) (auto split: if_splits)
  also have "\<dots> = length as + (\<Sum>q \<in> ?A - {p}. length (todo s q))"
    using t by (simp add: sum.remove [OF fin p])
  finally show ?thesis
    using t(1) by (simp add: work_def sum.remove [OF fin p])
qed

lemma disciplined_completes:
  "disciplined s \<Longrightarrow> \<exists>s'. mutex_step\<^sup>*\<^sup>* s s' \<and> finished s' \<and> (\<forall>m. owner s' m = None)"
proof (induction "work s" arbitrary: s rule: less_induct)
  case less
  show ?case
  proof (cases "finished s")
    case True
    with less.prems have "holding s q = {}" for q
      by (simp add: disciplined_def finished_def)
    then have "owner s m = None" for m
      by (cases "owner s m") (auto simp: holding_def)
    with True show ?thesis by (intro exI [of _ s]) simp
  next
    case False
    with less.prems obtain s1 where s1: "mutex_step s s1" using disciplined_progress by blast
    with step_work [OF s1 less.prems] less.hyps [OF _ step_disciplined [OF s1 less.prems]]
    show ?thesis by (auto intro: converse_rtranclp_into_rtranclp)
  qed
qed

lemma reachable_disciplined: "mutex_step\<^sup>*\<^sup>* s s' \<Longrightarrow> disciplined s \<Longrightarrow> disciplined s'"
  by (induction rule: rtranclp_induct) (auto intro: step_disciplined)

section \<open>The threads of the tracer\<close>

text \<open>
  The calls of a thread, from its start to a call that gives the last address lock back: in the
  order of the instrumentation, each with findings the discipline covers.
\<close>

fun script_ok :: "int \<Rightarrow> (call \<times> findings) list \<Rightarrow> phase \<Rightarrow> int list \<Rightarrow> bool" where
  "script_ok p [] ph held = (held = [])"
| "script_ok p ((c, f) # cs) ph held =
     (caller c = p \<and> findings_ok c f \<and>
      (case next_phase c ph of None \<Rightarrow> False | Some ph' \<Rightarrow> script_ok p cs ph' (held_after c f held)))"

lemma script_after:
  "script_ok p cs ph held \<Longrightarrow> sorted_wrt (<) held \<Longrightarrow> (ph = Headed \<longrightarrow> held = []) \<Longrightarrow>
   mutexes_after (addresses held) (thread_script cs held) = Some {}"
proof (induction cs arbitrary: ph held)
  case Nil
  then show ?case by (simp add: addresses_def)
next
  case (Cons cf cs)
  obtain c f where cf: "cf = (c, f)" by (cases cf)
  from Cons.prems(1) obtain ph' where ok: "findings_ok c f" "next_phase c ph = Some ph'"
    "script_ok p cs ph' (held_after c f held)"
    by (auto simp: cf split: option.splits)
  note after = call_mutexes_after [OF ok(1) Cons.prems(2) ok(2)]
  with Cons.prems(3) have "mutexes_after (addresses held) (call_mutexes c f held) =
      Some (addresses (held_after c f held))" by blast
  moreover have "mutexes_after (addresses (held_after c f held))
      (thread_script cs (held_after c f held)) = Some {}"
    using after Cons.prems(3) by (intro Cons.IH [OF ok(3)]) blast+
  ultimately show ?case by (simp add: cf mutexes_after_append)
qed

definition all_threads :: "int set \<Rightarrow> (int \<Rightarrow> (call \<times> findings) list) \<Rightarrow> system" where
  "all_threads P calls =
     \<lparr>owner = (\<lambda>_. None), todo = (\<lambda>p. if p \<in> P then thread_script (calls p) [] else [])\<rparr>"

lemma all_threads_disciplined:
  assumes "finite P" "\<And>p. p \<in> P \<Longrightarrow> script_ok p (calls p) Free []"
  shows "disciplined (all_threads P calls)"
proof -
  have "finite {p. todo (all_threads P calls) p \<noteq> []}"
    by (rule finite_subset [OF _ assms(1)]) (auto simp: all_threads_def split: if_splits)
  moreover have "mutexes_after (holding (all_threads P calls) p) (todo (all_threads P calls) p) = Some {}" for p
    using script_after [OF assms(2), of p] by (auto simp: all_threads_def holding_def addresses_def)
  ultimately show ?thesis by (simp add: disciplined_def)
qed

section \<open>The properties\<close>

text \<open>The routines keep the order of the mutexes: called in the order of the instrumentation, a
  routine takes every mutex above all those the thread holds (address locks by index, then the
  start/finish lock, the thread locks by thread id, the file lock), gives back only what it holds,
  and leaves the thread with exactly its address locks, or none after a release.\<close>

theorem routines_keep_mutex_order:
  assumes "findings_ok c f" and "sorted_wrt (<) held" and "next_phase c ph = Some ph'"
    and "ph = Headed \<Longrightarrow> held = []"
  shows "mutexes_after (addresses held) (call_mutexes c f held) =
    Some (addresses (held_after c f held))"
  using call_mutexes_after [OF assms] by blast

definition sample_findings :: findings where
  "sample_findings =
     \<lparr>access_traced = True, locking = True, wanted = [3, 7], is_registered = True,
      registering = False, running = [0, 1], flushes = True, visited = [], entries_left = False\<rparr>"

theorem routines_keep_mutex_order_witness:
  "mutexes_after (addresses [3, 7]) (call_mutexes (Footer 1) sample_findings [3, 7]) =
     Some (addresses [3, 7]) \<and>
   call_mutexes (Footer 1) sample_findings [3, 7] =
     [Take (Thread 1), Take File, Give File, Give (Thread 1)]"
proof -
  have "findings_ok (Footer 1) sample_findings" by (simp add: findings_ok_def sample_findings_def)
  from routines_keep_mutex_order [OF this, of "[3, 7]" Locked Free]
  show ?thesis by (simp add: sample_findings_def in_section_def touch_mutexes_def)
qed


text \<open>Two threads that write to blocks 3 and 7 and end, one of them synchronising all threads.\<close>

definition sample_calls :: "int \<Rightarrow> (call \<times> findings) list" where
  "sample_calls p =
     map (\<lambda>c. (c, sample_findings))
       [Header p, Write p 0 8, Acquire p, Footer p, Roi p True ''start'', Fini p]"




end
