(* ===== verification/Instrument_Properties.thy ===== *)
theory Instrument_Properties
  imports Instrument
begin

text \<open>
  Which routines \<open>Image\<close> of \<open>src/trace/trace.cpp\<close> instruments, with what, and which names the
  file of traced functions gives.
\<close>

lemma split_lines_nonempty: "split_lines cs \<noteq> []"
  by (cases cs) (auto split: list.split)

text \<open>A newline at the end leaves an empty last piece.\<close>

lemma split_lines_end: "last (split_lines (c @ [NL])) = []"
proof (induction c)
  case (Cons x c)
  obtain l ls where s: "split_lines (c @ [NL]) = l # ls"
    using split_lines_nonempty by (meson neq_Nil_conv)
  show ?case
  proof (cases ls)
    case Nil
    with s Cons have "l = []" by simp
    moreover have "length (split_lines (d @ [NL])) = Suc (length (split_lines d))" for d
      by (induction d) (auto split: list.split simp: split_lines_nonempty)
    then have "length (split_lines (c @ [NL])) = Suc (length (split_lines c))" .
    then have "split_lines c = []" using s Nil by simp
    with split_lines_nonempty show ?thesis by blast
  qed (use s Cons in \<open>auto split: list.split\<close>)
qed simp

text \<open>The instrumentation is exact: a routine gets the call and return routines, with its own name,
  exactly when its undecorated name is in the list, \<open>register_thread_a\<close> and \<open>change_roi_a\<close> exactly
  when it is the annotation of that name, and each of them once. A list file that ends in a newline
  has the empty name in it.\<close>

theorem traced_functions_exact:
  "(\<forall>n. (Before, Insert_Call n) \<in> set (instrument_routine fs f) \<longleftrightarrow> n = f \<and> f \<in> set fs) \<and>
   (\<forall>n. (After, Insert_Return n) \<in> set (instrument_routine fs f) \<longleftrightarrow> n = f \<and> f \<in> set fs) \<and>
   ((Before, Insert_Register) \<in> set (instrument_routine fs f) \<longleftrightarrow>
      f = ''atomic_trace::register_thread'') \<and>
   (\<forall>b n. (Before, Insert_Roi b n) \<in> set (instrument_routine fs f) \<longleftrightarrow>
      f = ''atomic_trace::start_roi'' \<and> b \<and> n = ''start'' \<or>
      f = ''atomic_trace::end_roi'' \<and> \<not> b \<and> n = ''end'') \<and>
   distinct (instrument_routine fs f) \<and>
   trim [] \<in> set (read_trace_functions trim (Some (c @ [NL])))"
proof -
  have "find (\<lambda>n. n = f) fs = (if f \<in> set fs then Some f else None)"
    by (induction fs) auto
  moreover have "[] \<in> set (split_lines (c @ [NL]))"
    using split_lines_end [of c] last_in_set [OF split_lines_nonempty [of "c @ [NL]"]] by simp
  then have "trim [] \<in> set (read_trace_functions trim (Some (c @ [NL])))"
    by (simp add: read_trace_functions_def)
  ultimately show ?thesis by (auto simp: instrument_routine_def)
qed

end
