(* ===== verification/Critical_Section.thy ===== *)
theory Critical_Section
  imports Prelude
begin

text \<open>
  The helper class \<open>pin_critical_section\<close> of \<open>src/trace/trace.cpp\<close> (lines 46 to 85): a constructor
  that locks a mutex where its predicate holds, a destructor that unlocks it, \<open>pause\<close> and
  \<open>restart\<close>. A mutex is free or belongs to a thread; locking a taken mutex waits, unlocking one
  that the thread does not hold is undefined behaviour.
\<close>

section \<open>The class\<close>

type_synonym 'l mutexes = "'l \<Rightarrow> int option"

definition mutex_lock :: "int \<Rightarrow> 'l \<Rightarrow> 'l mutexes \<Rightarrow> 'l mutexes result" where
  "mutex_lock p l m = (if m l = None then Inr (m(l \<mapsto> p)) else Inl (Waits ''mutex''))"

definition mutex_unlock :: "int \<Rightarrow> 'l \<Rightarrow> 'l mutexes \<Rightarrow> 'l mutexes result" where
  "mutex_unlock p l m =
     (if m l = Some p then Inr (m(l := None))
      else Inl (Undefined ''unlock of a mutex that is not held''))"

record 'l critical_section =
  cs_lock :: 'l
  cs_paused :: bool
  cs_pred :: bool

definition enter_section ::
  "int \<Rightarrow> 'l \<Rightarrow> bool \<Rightarrow> 'l mutexes \<Rightarrow> ('l critical_section \<times> 'l mutexes) result" where
  "enter_section p lock predicate m =
     (let cs = \<lparr>cs_lock = lock, cs_paused = False, cs_pred = predicate\<rparr> in
      if cs_pred cs
      then (case mutex_lock p lock m of Inl f \<Rightarrow> Inl f | Inr m' \<Rightarrow> Inr (cs, m'))
      else Inr (cs, m))"

definition leave_section :: "int \<Rightarrow> 'l critical_section \<Rightarrow> 'l mutexes \<Rightarrow> 'l mutexes result" where
  "leave_section p cs m =
     (if cs_pred cs \<and> \<not> cs_paused cs then mutex_unlock p (cs_lock cs) m else Inr m)"

text \<open>Neither \<open>pause\<close> nor \<open>restart\<close> writes \<open>_paused\<close>: the object stays as it is.\<close>

definition pause_section :: "int \<Rightarrow> 'l critical_section \<Rightarrow> 'l mutexes \<Rightarrow> 'l mutexes result" where
  "pause_section p cs m =
     (if cs_pred cs \<and> \<not> cs_paused cs then mutex_unlock p (cs_lock cs) m else Inr m)"

definition restart_section :: "int \<Rightarrow> 'l critical_section \<Rightarrow> 'l mutexes \<Rightarrow> 'l mutexes result" where
  "restart_section p cs m =
     (if cs_pred cs \<and> cs_paused cs then mutex_lock p (cs_lock cs) m else Inr m)"

section \<open>Properties\<close>

lemma enter_section_Inr:
  "enter_section p l pr m = Inr (cs, m') \<longleftrightarrow>
   cs = \<lparr>cs_lock = l, cs_paused = False, cs_pred = pr\<rparr> \<and>
   (if pr then m l = None \<and> m' = m(l \<mapsto> p) else m' = m)"
  by (auto simp: enter_section_def mutex_lock_def Let_def)

text \<open>A critical section without a pause is balanced: it holds its mutex to the end where its
  predicate is true, whatever happens to other mutexes inside, and the destructor gives exactly
  that mutex back.\<close>

theorem section_balanced:
  assumes "enter_section p l pr m = Inr (cs, m1)" and "m2 l = m1 l"
  shows "leave_section p cs m2 = Inr (if pr then m2(l := None) else m2) \<and> (pr \<longrightarrow> m2 l = Some p)"
  using assms by (auto simp: enter_section_Inr leave_section_def mutex_unlock_def split: if_splits)

theorem section_balanced_witness:
  "\<exists>cs. enter_section 3 ''thread'' True Map.empty = Inr (cs, [''thread'' \<mapsto> 3]) \<and>
     leave_section 3 cs [''thread'' \<mapsto> 3, ''file'' \<mapsto> 4] = Inr [''file'' \<mapsto> 4]"
proof -
  obtain cs where e: "enter_section 3 ''thread'' True Map.empty = Inr (cs, [''thread'' \<mapsto> 3])"
    by (simp add: enter_section_Inr)
  from section_balanced [OF e, of "[''thread'' \<mapsto> 3, ''file'' \<mapsto> 4]"] e show ?thesis
    by (auto simp: fun_eq_iff)
qed

text \<open>C38. After \<open>pause\<close> and \<open>restart\<close> a critical section no longer holds its mutex, and its
  destructor unlocks a mutex it does not hold, whoever has taken it since.\<close>

theorem restart_does_not_lock:
  assumes "enter_section p l True m = Inr (cs, m1)"
  shows "\<exists>m2. pause_section p cs m1 = Inr m2 \<and> m2 l = None \<and>
    restart_section p cs m2 = Inr m2 \<and>
    (\<forall>m3. m3 l \<noteq> Some p \<longrightarrow>
       leave_section p cs m3 = Inl (Undefined ''unlock of a mutex that is not held''))"
  using assms
  by (auto simp: enter_section_Inr pause_section_def restart_section_def leave_section_def
      mutex_unlock_def)

theorem restart_does_not_lock_witness:
  "\<exists>cs m2. enter_section 3 ''thread'' True Map.empty = Inr (cs, [''thread'' \<mapsto> 3]) \<and>
     pause_section 3 cs [''thread'' \<mapsto> 3] = Inr m2 \<and> restart_section 3 cs m2 = Inr m2 \<and>
     leave_section 3 cs m2 = Inl (Undefined ''unlock of a mutex that is not held'')"
proof -
  obtain cs where e: "enter_section 3 ''thread'' True Map.empty = Inr (cs, [''thread'' \<mapsto> 3])"
    by (simp add: enter_section_Inr)
  from restart_does_not_lock [OF e] e show ?thesis by fastforce
qed

end
