(* ===== verification/Drain_Buffer.thy ===== *)
theory Drain_Buffer
  imports Prelude "HOL-Library.Sublist"
begin

text \<open>
  The double buffer \<open>src/src/drain_buffer.cpp\<close>: a reader that fills one buffer from standard input
  while a writer drains the other to standard output, and a barrier at which they meet twice
  after each round, the shared flag \<open>eof\<close> being set in between. The two threads are a step
  relation; \<open>fread\<close> returns what was asked for or all that is left, and sets the end-of-file
  indicator in the second case; \<open>fwrite\<close> may write any part of its argument that is not empty.
\<close>

section \<open>The two threads\<close>

text \<open>Where a thread is; the numbers are the loop variable \<open>i\<close> and the writer's \<open>start\<close>.\<close>

datatype reader_pc = Reset nat | Fill nat | R_First nat | R_Set nat | R_Second nat | R_Done
datatype writer_pc = Drain nat nat | W_First nat | W_Second nat | W_Done

record drain_state =
  stdin_rest :: string
  stdin_feof :: bool
  bufs :: "nat \<Rightarrow> string"
  eof_flag :: bool
  stdout_done :: string
  reader :: reader_pc
  writer :: writer_pc

text \<open>\<open>bufs k\<close> is the part of buffer \<open>k\<close> before its \<open>end_cursor\<close>.\<close>

definition drain_main :: "string \<Rightarrow> drain_state" where
  "drain_main inp =
     \<lparr>stdin_rest = inp, stdin_feof = False, bufs = (\<lambda>_. []), eof_flag = False, stdout_done = [],
      reader = Reset 0, writer = Drain 0 0\<rparr>"

text \<open>\<open>main\<close>: half of the total capacity for each buffer.\<close>

definition drain_program :: "int \<Rightarrow> string \<Rightarrow> (nat \<times> drain_state) result" where
  "drain_program total_capacity inp =
     (let buffer_capacity = total_capacity div 2 in
      if 0 < buffer_capacity then Inr (nat buffer_capacity, drain_main inp)
      else Inl (Assertion ''buffer_capacity > 0''))"

definition filling :: "nat \<Rightarrow> nat \<Rightarrow> drain_state \<Rightarrow> bool" where
  "filling cap i s \<longleftrightarrow> length (bufs s (i mod 2)) < cap \<and> \<not> stdin_feof s"

definition fread_step :: "nat \<Rightarrow> nat \<Rightarrow> drain_state \<Rightarrow> drain_state" where
  "fread_step cap i s =
     (let n = cap - length (bufs s (i mod 2)) in
      s\<lparr>bufs := (bufs s)(i mod 2 := bufs s (i mod 2) @ take n (stdin_rest s)),
        stdin_rest := drop n (stdin_rest s),
        stdin_feof := length (stdin_rest s) < n\<rparr>)"

inductive drain_step :: "nat \<Rightarrow> drain_state \<Rightarrow> drain_state \<Rightarrow> bool" for cap where
  reset: "reader s = Reset i \<Longrightarrow>
    drain_step cap s (s\<lparr>bufs := (bufs s)(i mod 2 := []), reader := Fill i\<rparr>)"
| fill: "reader s = Fill i \<Longrightarrow> filling cap i s \<Longrightarrow> drain_step cap s (fread_step cap i s)"
| filled: "reader s = Fill i \<Longrightarrow> \<not> filling cap i s \<Longrightarrow>
    drain_step cap s (s\<lparr>reader := R_First i\<rparr>)"
| set_eof: "reader s = R_Set i \<Longrightarrow>
    drain_step cap s (s\<lparr>eof_flag := stdin_feof s, reader := R_Second i\<rparr>)"
| drain: "writer s = Drain j start \<Longrightarrow> 0 < k \<Longrightarrow> start + k \<le> length (bufs s ((j + 1) mod 2)) \<Longrightarrow>
    drain_step cap s
      (s\<lparr>stdout_done := stdout_done s @ take k (drop start (bufs s ((j + 1) mod 2))),
         writer := Drain j (start + k)\<rparr>)"
| drained: "writer s = Drain j (length (bufs s ((j + 1) mod 2))) \<Longrightarrow>
    drain_step cap s (s\<lparr>writer := (if eof_flag s then W_Done else W_First j)\<rparr>)"
| first_meeting: "reader s = R_First i \<Longrightarrow> writer s = W_First j \<Longrightarrow>
    drain_step cap s (s\<lparr>reader := R_Set i, writer := W_Second j\<rparr>)"
| second_meeting: "reader s = R_Second i \<Longrightarrow> writer s = W_Second j \<Longrightarrow>
    drain_step cap s
      (s\<lparr>reader := (if eof_flag s then R_Done else Reset (i + 1)), writer := Drain (j + 1) 0\<rparr>)"

inductive drain_steps :: "nat \<Rightarrow> drain_state \<Rightarrow> nat \<Rightarrow> drain_state \<Rightarrow> bool" for cap where
  none: "drain_steps cap s 0 s"
| one_more: "drain_steps cap s n t \<Longrightarrow> drain_step cap t u \<Longrightarrow> drain_steps cap s (Suc n) u"

section \<open>The invariant\<close>

text \<open>
  What is on its way: the rest of the writer's buffer, then the reader's buffer where the reader
  has reset it, then what is still to be read. Both threads are in the same round; a thread past
  the first meeting waits for the other at the second.
\<close>

fun round_ok :: "drain_state \<Rightarrow> reader_pc \<Rightarrow> writer_pc \<Rightarrow> bool" where
  "round_ok s (Reset i) w =
     (\<not> eof_flag s \<and> \<not> stdin_feof s \<and> ((\<exists>n. w = Drain i n) \<or> w = W_First i))"
| "round_ok s (Fill i) w = (\<not> eof_flag s \<and> ((\<exists>n. w = Drain i n) \<or> w = W_First i))"
| "round_ok s (R_First i) w = (\<not> eof_flag s \<and> ((\<exists>n. w = Drain i n) \<or> w = W_First i))"
| "round_ok s (R_Set i) w = (\<not> eof_flag s \<and> w = W_Second i)"
| "round_ok s (R_Second i) w = (eof_flag s = stdin_feof s \<and> w = W_Second i)"
| "round_ok s R_Done w = (eof_flag s \<and> stdin_feof s \<and> ((\<exists>j n. w = Drain j n) \<or> w = W_Done))"

fun undrained :: "drain_state \<Rightarrow> writer_pc \<Rightarrow> string" where
  "undrained s (Drain j n) = drop n (bufs s ((j + 1) mod 2))"
| "undrained s w = []"

fun read_ahead :: "drain_state \<Rightarrow> reader_pc \<Rightarrow> string" where
  "read_ahead s (Fill i) = bufs s (i mod 2)"
| "read_ahead s (R_First i) = bufs s (i mod 2)"
| "read_ahead s (R_Set i) = bufs s (i mod 2)"
| "read_ahead s (R_Second i) = bufs s (i mod 2)"
| "read_ahead s r = []"

fun start_ok :: "drain_state \<Rightarrow> writer_pc \<Rightarrow> bool" where
  "start_ok s (Drain j n) = (n \<le> length (bufs s ((j + 1) mod 2)))"
| "start_ok s w = True"

definition drain_inv :: "nat \<Rightarrow> string \<Rightarrow> drain_state \<Rightarrow> bool" where
  "drain_inv cap inp s \<longleftrightarrow>
     round_ok s (reader s) (writer s) \<and> start_ok s (writer s) \<and>
     (\<forall>k. length (bufs s k) \<le> cap) \<and> (stdin_feof s \<longrightarrow> stdin_rest s = []) \<and>
     stdout_done s @ undrained s (writer s) @ read_ahead s (reader s) @ stdin_rest s = inp"

lemma other_buffer: "(i + 1) mod 2 \<noteq> i mod (2 :: nat)"
  by presburger

lemma drain_inv_start: "drain_inv cap inp (drain_main inp)"
  by (simp add: drain_inv_def drain_main_def)

lemma drain_inv_step:
  assumes "drain_step cap s t" "drain_inv cap inp s"
  shows "drain_inv cap inp t"
  using assms(1)
proof cases
  case (reset i)
  with assms(2) show ?thesis
    using other_buffer [of i] by (cases "writer s") (auto simp: drain_inv_def)
next
  case (fill i)
  then have "min (length (stdin_rest s)) (cap - length (bufs s (i mod 2))) \<le> cap - length (bufs s (i mod 2))"
    by simp
  with fill assms(2) show ?thesis
    using other_buffer [of i]
    by (cases "writer s") (auto simp: drain_inv_def fread_step_def filling_def Let_def)
next
  case (filled i)
  with assms(2) show ?thesis
    by (cases "writer s") (auto simp: drain_inv_def)
next
  case (set_eof i)
  with assms(2) show ?thesis
    by (cases "writer s") (auto simp: drain_inv_def)
next
  case (drain j start k)
  have "take k (drop start b) @ drop (start + k) b = drop start b" for b :: string
    by (metis add.commute append_take_drop_id drop_drop)
  with drain assms(2) show ?thesis
    by (cases "reader s") (auto simp: drain_inv_def)
next
  case (drained j)
  with assms(2) show ?thesis
    by (cases "reader s") (auto simp: drain_inv_def)
next
  case (first_meeting i j)
  with assms(2) show ?thesis
    by (auto simp: drain_inv_def)
next
  case (second_meeting i j)
  with assms(2) show ?thesis
    by (auto simp: drain_inv_def)
qed

lemma drain_inv_steps: "drain_steps cap s n t \<Longrightarrow> drain_inv cap inp s \<Longrightarrow> drain_inv cap inp t"
  by (induction rule: drain_steps.induct) (blast intro: drain_inv_step)+

section \<open>Termination and progress\<close>

fun reader_rank :: "drain_state \<Rightarrow> reader_pc \<Rightarrow> nat" where
  "reader_rank s (Reset i) = 5"
| "reader_rank s (Fill i) = (if bufs s (i mod 2) \<noteq> [] \<or> stdin_feof s then 22 else 4)"
| "reader_rank s (R_First i) = 21"
| "reader_rank s (R_Set i) = 20"
| "reader_rank s (R_Second i) = 19"
| "reader_rank s R_Done = 0"

fun writer_rank :: "writer_pc \<Rightarrow> nat" where
  "writer_rank (Drain j n) = 3"
| "writer_rank (W_First j) = 2"
| "writer_rank (W_Second j) = 1"
| "writer_rank W_Done = 0"

text \<open>Every round but the first reads a character or finds the end; every other step moves on.\<close>

definition drain_measure :: "string \<Rightarrow> drain_state \<Rightarrow> nat" where
  "drain_measure inp s =
     (length inp - length (stdout_done s)) +
     30 * (length (stdin_rest s) + (if stdin_feof s then 0 else 1)) +
     reader_rank s (reader s) + writer_rank (writer s)"

lemma drain_inv_length:
  "drain_inv cap inp s \<Longrightarrow>
   length (stdout_done s) + length (undrained s (writer s)) \<le> length inp"
  by (auto simp: drain_inv_def)

lemma fill_consumes:
  assumes "filling cap i s"
  shows "length (stdin_rest (fread_step cap i s)) + (if stdin_feof (fread_step cap i s) then 0 else 1)
      < length (stdin_rest s) + (if stdin_feof s then 0 else 1 :: nat)"
  using assms by (auto simp: filling_def fread_step_def Let_def)

lemma drain_measure_step:
  assumes step: "drain_step cap s t" and inv: "drain_inv cap inp s" and cap: "0 < cap"
  shows "drain_measure inp t < drain_measure inp s"
  using step
proof cases
  case (reset i)
  with inv show ?thesis by (simp add: drain_measure_def drain_inv_def)
next
  case (fill i)
  have "reader_rank t (reader t) \<le> 22"
    using fill by (simp add: fread_step_def Let_def)
  moreover have "4 \<le> reader_rank s (reader s)" using fill by simp
  moreover have "writer t = writer s" "stdout_done t = stdout_done s"
    using fill by (simp_all add: fread_step_def Let_def)
  ultimately show ?thesis
    using fill_consumes [OF fill(3)] fill(1) unfolding drain_measure_def by simp
next
  case (filled i)
  with cap show ?thesis by (auto simp: drain_measure_def filling_def)
next
  case (drain j start k)
  then have "length (undrained s (writer s)) \<ge> k" by simp
  with drain_inv_length [OF inv] have "length (stdout_done s) + k \<le> length inp" by simp
  moreover have "reader_rank t (reader t) = reader_rank s (reader s)"
    using drain by (cases "reader s") simp_all
  moreover have "length (stdout_done t) = length (stdout_done s) + k" using drain by simp
  ultimately show ?thesis using drain by (simp add: drain_measure_def)
next
  case (drained j)
  have "reader_rank t (reader t) = reader_rank s (reader s)"
    using drained by (cases "reader s") simp_all
  with drained show ?thesis by (simp add: drain_measure_def)
qed (auto simp: drain_measure_def)

lemma drain_steps_bound:
  "drain_steps cap s n t \<Longrightarrow> drain_inv cap inp s \<Longrightarrow> 0 < cap \<Longrightarrow> n + drain_measure inp t \<le> drain_measure inp s"
proof (induction rule: drain_steps.induct)
  case (one_more s n t u)
  from drain_measure_step [OF one_more.hyps(2) drain_inv_steps [OF one_more.hyps(1) one_more.prems(1)]
      one_more.prems(2)] one_more.IH one_more.prems
  show ?case by fastforce
qed simp

lemma drain_progress:
  assumes inv: "drain_inv cap inp s"
  shows "(\<exists>t. drain_step cap s t) \<or> reader s = R_Done \<and> writer s = W_Done"
proof -
  have writer: "\<exists>t. drain_step cap s t" if w: "writer s = Drain j n" for j n
  proof (cases "n < length (bufs s ((j + 1) mod 2))")
    case True
    with w drain_step.drain [of s j n 1 cap] show ?thesis by auto
  next
    case False
    then have "n = length (bufs s ((j + 1) mod 2))" using inv w by (simp add: drain_inv_def)
    with w drain_step.drained [of s j cap] show ?thesis by auto
  qed
  have r: "round_ok s (reader s) (writer s)" using inv by (simp add: drain_inv_def)
  show ?thesis
  proof (cases "reader s")
    case (Reset i)
    from drain_step.reset [OF this] show ?thesis by blast
  next
    case (Fill i)
    from drain_step.fill [OF this, of cap] drain_step.filled [OF this, of cap] show ?thesis by blast
  next
    case (R_First i)
    with r consider n where "writer s = Drain i n" | "writer s = W_First i" by auto
    then show ?thesis
      using writer drain_step.first_meeting [OF R_First, of i cap] by cases blast+
  next
    case (R_Set i)
    from drain_step.set_eof [OF this] show ?thesis by blast
  next
    case (R_Second i)
    with r have "writer s = W_Second i" by simp
    from drain_step.second_meeting [OF R_Second this] show ?thesis by blast
  next
    case R_Done
    with r writer show ?thesis by auto
  qed
qed

section \<open>Properties\<close>

text \<open>C20. Whatever the interleaving of the two threads and the sizes of the writes, the program
  copies its input: it makes at most a bounded number of steps, it never stops before both threads
  have ended, what it has written is always a beginning of the input, and at the end all of it.\<close>

theorem drain_copies:
  assumes "drain_program total_capacity inp = Inr (cap, s0)" and "drain_steps cap s0 n s"
  shows "n \<le> 31 * length inp + 38 \<and> prefix (stdout_done s) inp \<and>
    ((\<exists>t. drain_step cap s t) \<or>
     reader s = R_Done \<and> writer s = W_Done \<and> stdout_done s = inp)"
proof -
  have s0: "s0 = drain_main inp" "0 < cap"
    using assms(1) by (auto simp: drain_program_def Let_def split: if_splits)
  have inv: "drain_inv cap inp s"
    using drain_inv_steps [OF assms(2)] drain_inv_start s0 by simp
  have "n \<le> 31 * length inp + 38"
    using drain_steps_bound [OF assms(2), of inp] drain_inv_start [of cap inp] s0
    by (simp add: drain_measure_def drain_main_def)
  moreover have "prefix (stdout_done s) inp"
    using inv unfolding drain_inv_def by (metis prefixI)
  moreover have "stdout_done s = inp" if "reader s = R_Done" "writer s = W_Done"
    using inv that by (auto simp: drain_inv_def)
  ultimately show ?thesis using drain_progress [OF inv] by blast
qed

lemma sample_drain:
  "drain_steps 2 (drain_main ''ab'') 2 ((drain_main ''ab'')
     \<lparr>bufs := (\<lambda>_. [])(0 := ''ab''), stdin_rest := [], reader := Fill 0\<rparr>)"
proof -
  let ?s = "drain_main ''ab''"
  let ?t = "?s\<lparr>bufs := (bufs ?s)(0 mod 2 := []), reader := Fill 0\<rparr>"
  have "drain_step 2 ?s ?t" by (rule drain_step.reset) (simp add: drain_main_def)
  with drain_steps.none have "drain_steps 2 ?s (Suc 0) ?t" by (rule drain_steps.one_more)
  moreover have "drain_step 2 ?t (fread_step 2 0 ?t)"
    by (rule drain_step.fill) (simp_all add: filling_def drain_main_def)
  ultimately have "drain_steps 2 ?s (Suc (Suc 0)) (fread_step 2 0 ?t)"
    by (rule drain_steps.one_more)
  then show ?thesis by (simp add: fread_step_def drain_main_def numeral_2_eq_2)
qed

theorem drain_copies_witness:
  "drain_program 4 ''ab'' = Inr (2, drain_main ''ab'') \<and>
   (\<exists>n s t. drain_steps 2 (drain_main ''ab'') n s \<and> n = 2 \<and> drain_step 2 s t)"
proof -
  have p: "drain_program 4 ''ab'' = Inr (2, drain_main ''ab'')" by (simp add: drain_program_def)
  from drain_copies [OF p sample_drain] have "\<exists>t. drain_step 2 ((drain_main ''ab'')
     \<lparr>bufs := (\<lambda>_. [])(0 := ''ab''), stdin_rest := [], reader := Fill 0\<rparr>) t"
    by (simp add: drain_main_def)
  with p sample_drain show ?thesis by blast
qed

text \<open>The threads never use the same buffer: while the reader resets or fills one, the writer
  drains the other; and \<open>eof\<close> is written only while the writer waits at the barrier.\<close>

theorem drain_exclusive:
  assumes "drain_program total_capacity inp = Inr (cap, s0)" and "drain_steps cap s0 n s"
  shows "(\<forall>i j k. (reader s = Reset i \<or> reader s = Fill i) \<longrightarrow> writer s = Drain j k \<longrightarrow>
      i mod 2 \<noteq> (j + 1) mod 2) \<and>
    (\<forall>i. reader s = R_Set i \<longrightarrow> writer s = W_Second i)"
proof -
  have s0: "s0 = drain_main inp"
    using assms(1) by (auto simp: drain_program_def Let_def split: if_splits)
  have "round_ok s (reader s) (writer s)"
    using drain_inv_steps [OF assms(2)] drain_inv_start [of cap inp] s0 by (simp add: drain_inv_def)
  then show ?thesis using other_buffer by (metis round_ok.simps(1,2,4) writer_pc.inject(1) writer_pc.distinct(1))
qed

theorem drain_exclusive_witness:
  "\<exists>s. drain_steps 2 (drain_main ''ab'') 2 s \<and> reader s = Fill 0 \<and> writer s = Drain 0 0 \<and>
     0 mod 2 \<noteq> (0 + 1) mod (2 :: nat)"
proof -
  have p: "drain_program 4 ''ab'' = Inr (2, drain_main ''ab'')" by (simp add: drain_program_def)
  from drain_exclusive [OF p sample_drain]
  have "0 mod 2 \<noteq> (0 + 1) mod (2 :: nat)" by (simp add: drain_main_def)
  moreover have "reader ((drain_main ''ab'')\<lparr>bufs := (\<lambda>_. [])(0 := ''ab''), stdin_rest := [], reader := Fill 0\<rparr>) = Fill 0"
    "writer ((drain_main ''ab'')\<lparr>bufs := (\<lambda>_. [])(0 := ''ab''), stdin_rest := [], reader := Fill 0\<rparr>) = Drain 0 0"
    by (simp_all add: drain_main_def)
  ultimately show ?thesis using sample_drain by blast
qed

end
