(* ===== verification/Counter_Program.thy ===== *)
theory Counter_Program
  imports Counter_Test Trace_Line
begin

text \<open>
  The test programs \<open>src/src/inc.cpp\<close> and \<open>src/src/inc_cas.cpp\<close> as a whole: \<open>main\<close> starts the
  threads, opens and closes the region of interest, joins the threads, checks the counter and
  prints the counts; the threads register, and meet \<open>main\<close> at four barriers around their loops.
\<close>

section \<open>Arguments\<close>

text \<open>\<open>atoi\<close>: a value outside the range of \<open>int\<close> is undefined behaviour.\<close>

definition atoi :: "string \<Rightarrow> int result" where
  "atoi s = (if - (2 ^ 31) \<le> atoll_value s \<and> atoll_value s < 2 ^ 31 then Inr (atoll_value s)
             else Inl (Undefined ''atoi out of range''))"

definition counter_arguments :: "string list \<Rightarrow> (nat \<times> nat \<times> counter_state) result" where
  "counter_arguments argv =
     (if length argv \<noteq> 3 then Inl (Assertion ''argc == 3'')
      else case atoi (argv ! 1) of
             Inl f \<Rightarrow> Inl f
           | Inr num_threads \<Rightarrow>
             (case atoi (argv ! 2) of
                Inl f \<Rightarrow> Inl f
              | Inr to_insert_total \<Rightarrow> inc_main num_threads to_insert_total))"

section \<open>Threads and barriers\<close>

datatype barrier = Bar1 | Bar2 | Bar3 | Bar4

text \<open>Where a thread is in \<open>thread_incs\<close>, and where \<open>main\<close> is.\<close>

datatype stage = Uncreated | Registering | Arriving barrier | Waiting barrier | Looping | Exited

datatype main_stage =
    Creating nat
  | M_Arriving barrier
  | M_Waiting barrier
  | Starting_Roi
  | Ending_Roi
  | Joining nat
  | Checking
  | Printing
  | Returned
  | Aborted

text \<open>A barrier counts its arrivals; \<open>num_threads + 1\<close> of them open it. Each is used once.\<close>

record program =
  shared :: counter_state
  stages :: "nat \<Rightarrow> stage"
  boss :: main_stage
  arrivals :: "barrier \<Rightarrow> nat"
  roi_on :: bool
  registered_ids :: "nat list"
  printed :: string

definition new_program :: "counter_state \<Rightarrow> program" where
  "new_program s =
     \<lparr>shared = s, stages = (\<lambda>_. Uncreated), boss = Creating 0, arrivals = (\<lambda>_. 0),
      roi_on = False, registered_ids = [], printed = []\<rparr>"

fun after_barrier :: "barrier \<Rightarrow> stage" where
  "after_barrier Bar1 = Arriving Bar2"
| "after_barrier Bar2 = Looping"
| "after_barrier Bar3 = Arriving Bar4"
| "after_barrier Bar4 = Exited"

fun main_after_barrier :: "barrier \<Rightarrow> main_stage" where
  "main_after_barrier Bar1 = Starting_Roi"
| "main_after_barrier Bar2 = M_Arriving Bar3"
| "main_after_barrier Bar3 = Ending_Roi"
| "main_after_barrier Bar4 = Joining 0"

definition arrive_at :: "barrier \<Rightarrow> program \<Rightarrow> program" where
  "arrive_at b P = P\<lparr>arrivals := (arrivals P)(b := arrivals P b + 1)\<rparr>"

definition set_stage :: "nat \<Rightarrow> stage \<Rightarrow> program \<Rightarrow> program" where
  "set_stage i st P = P\<lparr>stages := (stages P)(i := st)\<rparr>"

text \<open>The steps of \<open>thread_incs\<close> around the loop, for the loop steps \<open>inner\<close>.\<close>

inductive thread_step ::
  "(nat \<Rightarrow> nat \<Rightarrow> counter_state \<Rightarrow> counter_state \<Rightarrow> bool) \<Rightarrow> nat \<Rightarrow> nat \<Rightarrow> program \<Rightarrow> program \<Rightarrow> bool"
  for inner stop n where
  register: "i < n \<Longrightarrow> stages P i = Registering \<Longrightarrow>
    thread_step inner stop n P
      (set_stage i (Arriving Bar1) (P\<lparr>registered_ids := registered_ids P @ [i]\<rparr>))"
| arrive: "i < n \<Longrightarrow> stages P i = Arriving b \<Longrightarrow>
    thread_step inner stop n P (set_stage i (Waiting b) (arrive_at b P))"
| pass: "i < n \<Longrightarrow> stages P i = Waiting b \<Longrightarrow> arrivals P b = n + 1 \<Longrightarrow>
    thread_step inner stop n P (set_stage i (after_barrier b) P)"
| work: "i < n \<Longrightarrow> stages P i = Looping \<Longrightarrow> inner stop n (shared P) s \<Longrightarrow>
    workers s i \<noteq> workers (shared P) i \<Longrightarrow> (\<And>j. j \<noteq> i \<Longrightarrow> workers s j = workers (shared P) j) \<Longrightarrow>
    thread_step inner stop n P (P\<lparr>shared := s\<rparr>)"
| leave: "i < n \<Longrightarrow> stages P i = Looping \<Longrightarrow> w_pc (workers (shared P) i) = Ended \<Longrightarrow>
    thread_step inner stop n P (set_stage i (Arriving Bar3) P)"

text \<open>The steps of \<open>main\<close>; \<open>report\<close> is what it prints at the end.\<close>

inductive main_step :: "(nat \<Rightarrow> (nat \<Rightarrow> worker) \<Rightarrow> string) \<Rightarrow> nat \<Rightarrow> nat \<Rightarrow> program \<Rightarrow> program \<Rightarrow> bool"
  for report stop n where
  create: "boss P = Creating i \<Longrightarrow> i < n \<Longrightarrow>
    main_step report stop n P (set_stage i Registering (P\<lparr>boss := Creating (i + 1)\<rparr>))"
| created: "boss P = Creating i \<Longrightarrow> \<not> i < n \<Longrightarrow>
    main_step report stop n P (P\<lparr>boss := M_Arriving Bar1\<rparr>)"
| m_arrive: "boss P = M_Arriving b \<Longrightarrow>
    main_step report stop n P (arrive_at b (P\<lparr>boss := M_Waiting b\<rparr>))"
| m_pass: "boss P = M_Waiting b \<Longrightarrow> arrivals P b = n + 1 \<Longrightarrow>
    main_step report stop n P (P\<lparr>boss := main_after_barrier b\<rparr>)"
| start_roi: "boss P = Starting_Roi \<Longrightarrow>
    main_step report stop n P (P\<lparr>roi_on := True, boss := M_Arriving Bar2\<rparr>)"
| end_roi: "boss P = Ending_Roi \<Longrightarrow>
    main_step report stop n P (P\<lparr>roi_on := False, boss := M_Arriving Bar4\<rparr>)"
| join: "boss P = Joining i \<Longrightarrow> i < n \<Longrightarrow> stages P i = Exited \<Longrightarrow>
    main_step report stop n P (P\<lparr>boss := Joining (i + 1)\<rparr>)"
| joined: "boss P = Joining i \<Longrightarrow> \<not> i < n \<Longrightarrow>
    main_step report stop n P (P\<lparr>boss := Checking\<rparr>)"
| check: "boss P = Checking \<Longrightarrow>
    main_step report stop n P
      (P\<lparr>boss := (if counter (shared P) = stop + n then Printing else Aborted)\<rparr>)"
| print: "boss P = Printing \<Longrightarrow>
    main_step report stop n P
      (P\<lparr>printed := report n (workers (shared P)), boss := Returned\<rparr>)"

definition program_step ::
  "(nat \<Rightarrow> nat \<Rightarrow> counter_state \<Rightarrow> counter_state \<Rightarrow> bool) \<Rightarrow>
   (nat \<Rightarrow> (nat \<Rightarrow> worker) \<Rightarrow> string) \<Rightarrow> nat \<Rightarrow> nat \<Rightarrow> program \<Rightarrow> program \<Rightarrow> bool" where
  "program_step inner report stop n P Q \<longleftrightarrow>
     thread_step inner stop n P Q \<or> main_step report stop n P Q"

section \<open>The two programs\<close>

definition inc_report :: "nat \<Rightarrow> (nat \<Rightarrow> worker) \<Rightarrow> string" where
  "inc_report n ws =
     concat (map (\<lambda>i. ''thread '' @ show_nat i @ TAB # show_nat (w_count (ws i)) @ TAB #
       show_nat (w_even_count (ws i)) @ [NL]) [0..<n])"

definition cas_report :: "nat \<Rightarrow> (nat \<Rightarrow> worker) \<Rightarrow> string" where
  "cas_report n ws =
     concat (map (\<lambda>i. ''thread '' @ show_nat i @ TAB # show_nat (w_count (ws i)) @ TAB #
       show_nat (w_even_count (ws i)) @ TAB # show_nat (w_fail_count (ws i)) @ [NL]) [0..<n]) @
     ''CAS fails: '' @ show_nat (\<Sum>i \<leftarrow> [0..<n]. w_fail_count (ws i)) @ [NL]"

definition inc_program :: "nat \<Rightarrow> nat \<Rightarrow> program \<Rightarrow> program \<Rightarrow> bool" where
  "inc_program stop n = program_step inc_step inc_report stop n"

definition cas_program :: "nat \<Rightarrow> nat \<Rightarrow> program \<Rightarrow> program \<Rightarrow> bool" where
  "cas_program stop n = program_step cas_step cas_report stop n"

section \<open>The barriers\<close>

text \<open>How far a thread and \<open>main\<close> have come, and where they arrive at a barrier.\<close>

fun at_barrier :: "barrier \<Rightarrow> nat" where
  "at_barrier Bar1 = 2" | "at_barrier Bar2 = 4" | "at_barrier Bar3 = 7" | "at_barrier Bar4 = 9"

fun progress :: "stage \<Rightarrow> nat" where
  "progress Uncreated = 0"
| "progress Registering = 1"
| "progress (Arriving b) = at_barrier b"
| "progress (Waiting b) = at_barrier b + 1"
| "progress Looping = 6"
| "progress Exited = 11"

fun main_at_barrier :: "barrier \<Rightarrow> nat" where
  "main_at_barrier Bar1 = 2" | "main_at_barrier Bar2 = 5"
| "main_at_barrier Bar3 = 7" | "main_at_barrier Bar4 = 10"

fun main_progress :: "main_stage \<Rightarrow> nat" where
  "main_progress (Creating i) = 1"
| "main_progress (M_Arriving b) = main_at_barrier b"
| "main_progress (M_Waiting b) = main_at_barrier b + 1"
| "main_progress Starting_Roi = 4"
| "main_progress Ending_Roi = 9"
| "main_progress (Joining i) = 12"
| "main_progress Checking = 13"
| "main_progress Printing = 14"
| "main_progress Returned = 15"
| "main_progress Aborted = 16"

definition arrived :: "nat \<Rightarrow> barrier \<Rightarrow> (nat \<Rightarrow> stage) \<Rightarrow> nat" where
  "arrived n b sts = (\<Sum>i < n. of_bool (at_barrier b < progress (sts i)))"

definition main_arrived :: "barrier \<Rightarrow> main_stage \<Rightarrow> nat" where
  "main_arrived b m = of_bool (main_at_barrier b < main_progress m)"

lemma arrived_upd:
  assumes "i < n"
  shows "arrived n b (sts(i := st)) + of_bool (at_barrier b < progress (sts i)) =
    arrived n b sts + of_bool (at_barrier b < progress st)"
proof -
  have split: "arrived n b u = of_bool (at_barrier b < progress (u i)) +
      (\<Sum>j \<in> {..<n} - {i}. of_bool (at_barrier b < progress (u j)))" for u
    unfolding arrived_def by (rule sum.remove) (use assms in simp_all)
  have "(\<Sum>j \<in> {..<n} - {i}. of_bool (at_barrier b < progress ((sts(i := st)) j))) =
      (\<Sum>j \<in> {..<n} - {i}. of_bool (at_barrier b < progress (sts j)) :: nat)"
    by (rule sum.cong) auto
  with split [of "sts(i := st)"] split [of sts] show ?thesis by (simp del: sum_of_bool_eq)
qed

lemma arrived_le: "arrived n b sts \<le> n"
proof -
  have "arrived n b sts \<le> (\<Sum>i < n. 1)" unfolding arrived_def by (rule sum_mono) simp
  then show ?thesis by simp
qed

lemma arrived_all: "arrived n b sts = n \<longleftrightarrow> (\<forall>i < n. at_barrier b < progress (sts i))"
proof
  assume a: "arrived n b sts = n"
  show "\<forall>i < n. at_barrier b < progress (sts i)"
  proof (intro allI impI)
    fix i assume i: "i < n"
    show "at_barrier b < progress (sts i)"
    proof (rule ccontr)
      assume "\<not> at_barrier b < progress (sts i)"
      with arrived_upd [OF i, of b sts Exited] have "arrived n b (sts(i := Exited)) = Suc n"
        using a by (cases b) auto
      with arrived_le [of n b "sts(i := Exited)"] show False by simp
    qed
  qed
next
  assume "\<forall>i < n. at_barrier b < progress (sts i)"
  then have "arrived n b sts = (\<Sum>i < n. 1)" unfolding arrived_def by (intro sum.cong) auto
  then show "arrived n b sts = n" by simp
qed

text \<open>
  A barrier has counted those that arrived; one that went beyond it shows that all have arrived.
\<close>

definition all_arrived :: "nat \<Rightarrow> barrier \<Rightarrow> program \<Rightarrow> bool" where
  "all_arrived n b P \<longleftrightarrow>
     (\<forall>i < n. at_barrier b < progress (stages P i)) \<and> main_at_barrier b < main_progress (boss P)"

definition barriers_ok :: "nat \<Rightarrow> program \<Rightarrow> bool" where
  "barriers_ok n P \<longleftrightarrow>
     (\<forall>b. arrivals P b = arrived n b (stages P) + main_arrived b (boss P)) \<and>
     (\<forall>b i. i < n \<longrightarrow> at_barrier b + 1 < progress (stages P i) \<longrightarrow> all_arrived n b P) \<and>
     (\<forall>b. main_at_barrier b + 1 < main_progress (boss P) \<longrightarrow> all_arrived n b P)"

lemma barrier_full: "barriers_ok n P \<Longrightarrow> arrivals P b = n + 1 \<longleftrightarrow> all_arrived n b P"
  using arrived_le [of n b "stages P"] arrived_all [of n b "stages P"]
  by (auto simp: barriers_ok_def all_arrived_def main_arrived_def of_bool_def)

lemma barriers_move_thread:
  assumes ok: "barriers_ok n P" and i: "i < n"
    and Q: "stages Q = (stages P)(i := st)" "boss Q = boss P"
    and le: "progress (stages P i) \<le> progress st"
    and arr: "\<And>b. arrivals Q b + of_bool (at_barrier b < progress (stages P i)) =
      arrivals P b + of_bool (at_barrier b < progress st)"
    and new: "\<And>b. at_barrier b + 1 < progress st \<Longrightarrow>
      at_barrier b + 1 < progress (stages P i) \<or> arrivals P b = n + 1"
  shows "barriers_ok n Q"
proof -
  have keep: "all_arrived n b P \<Longrightarrow> all_arrived n b Q" for b
    using le unfolding all_arrived_def Q by (auto intro: less_le_trans)
  have "arrivals Q b = arrived n b (stages Q) + main_arrived b (boss Q)" for b
  proof -
    have "arrivals P b = arrived n b (stages P) + main_arrived b (boss P)"
      using ok by (simp add: barriers_ok_def)
    with arr [of b] arrived_upd [OF i, of b "stages P" st] show ?thesis
      unfolding Q by linarith
  qed
  moreover have "all_arrived n b P" if "j < n" "at_barrier b + 1 < progress (stages Q j)" for b j
  proof (cases "j = i")
    case True
    with that new [of b] i ok barrier_full [OF ok, of b] show ?thesis
      unfolding Q barriers_ok_def by auto
  next
    case False
    with that ok show ?thesis unfolding Q barriers_ok_def by auto
  qed
  moreover have "all_arrived n b P" if "main_at_barrier b + 1 < main_progress (boss Q)" for b
    using that ok unfolding Q barriers_ok_def by blast
  ultimately show ?thesis
    using keep unfolding barriers_ok_def by blast
qed

lemma barriers_move_main:
  assumes ok: "barriers_ok n P" and Q: "stages Q = stages P" "boss Q = m"
    and le: "main_progress (boss P) \<le> main_progress m"
    and arr: "\<And>b. arrivals Q b + of_bool (main_at_barrier b < main_progress (boss P)) =
      arrivals P b + of_bool (main_at_barrier b < main_progress m)"
    and new: "\<And>b. main_at_barrier b + 1 < main_progress m \<Longrightarrow>
      main_at_barrier b + 1 < main_progress (boss P) \<or> arrivals P b = n + 1"
  shows "barriers_ok n Q"
proof -
  have keep: "all_arrived n b P \<Longrightarrow> all_arrived n b Q" for b
    using le unfolding all_arrived_def Q by auto
  have "arrivals Q b = arrived n b (stages Q) + main_arrived b (boss Q)" for b
  proof -
    have "arrivals P b = arrived n b (stages P) + main_arrived b (boss P)"
      using ok by (simp add: barriers_ok_def)
    with arr [of b] show ?thesis unfolding Q main_arrived_def by linarith
  qed
  moreover have "all_arrived n b P" if "j < n" "at_barrier b + 1 < progress (stages Q j)" for b j
    using that ok unfolding Q barriers_ok_def by blast
  moreover have "all_arrived n b P" if "main_at_barrier b + 1 < main_progress (boss Q)" for b
    using that new [of b] ok barrier_full [OF ok, of b] unfolding Q barriers_ok_def by auto
  ultimately show ?thesis
    using keep unfolding barriers_ok_def by blast
qed

section \<open>The invariant\<close>

definition main_ok :: "(nat \<Rightarrow> (nat \<Rightarrow> worker) \<Rightarrow> string) \<Rightarrow> nat \<Rightarrow> nat \<Rightarrow> program \<Rightarrow> bool" where
  "main_ok report stop n P \<longleftrightarrow>
     (case boss P of
        Creating j \<Rightarrow> j \<le> n \<and> (\<forall>i < n. stages P i = Uncreated \<longleftrightarrow> j \<le> i)
      | Joining j \<Rightarrow> j \<le> n \<and> (\<forall>i < n. stages P i \<noteq> Uncreated) \<and> (\<forall>i < n. i < j \<longrightarrow> stages P i = Exited)
      | Checking \<Rightarrow> \<forall>i < n. stages P i = Exited
      | Printing \<Rightarrow> (\<forall>i < n. stages P i = Exited) \<and> counter (shared P) = stop + n
      | Returned \<Rightarrow> (\<forall>i < n. stages P i = Exited) \<and> counter (shared P) = stop + n \<and>
          printed P = report n (workers (shared P))
      | Aborted \<Rightarrow> False
      | _ \<Rightarrow> \<forall>i < n. stages P i \<noteq> Uncreated) \<and>
     (roi_on P \<longleftrightarrow> 4 < main_progress (boss P) \<and> main_progress (boss P) < 10)"

definition threads_inv :: "nat \<Rightarrow> program \<Rightarrow> bool" where
  "threads_inv n P \<longleftrightarrow>
     (\<forall>i < n. 6 < progress (stages P i) \<longrightarrow> w_pc (workers (shared P) i) = Ended) \<and>
     distinct (registered_ids P) \<and>
     set (registered_ids P) = {i. i < n \<and> 1 < progress (stages P i)}"

text \<open>What is left to do, for the length of a run.\<close>

fun main_left :: "nat \<Rightarrow> main_stage \<Rightarrow> nat" where
  "main_left n (Creating i) = 2 * n + 20 - i"
| "main_left n (Joining i) = n + 4 - i"
| "main_left n m = (if main_progress m < 12 then n + 18 - main_progress m else 16 - main_progress m)"

definition program_left :: "nat \<Rightarrow> program \<Rightarrow> nat" where
  "program_left n P = (\<Sum>i < n. 11 - progress (stages P i)) + main_left n (boss P)"

lemma program_left_thread:
  assumes i: "i < n" and Q: "stages Q = (stages P)(i := st)" "boss Q = boss P"
    and lt: "progress (stages P i) < progress st" "progress st \<le> 11"
  shows "program_left n Q < program_left n P"
proof -
  have split: "(\<Sum>j < n. 11 - progress (u j)) =
      (11 - progress (u i)) + (\<Sum>j \<in> {..<n} - {i}. 11 - progress (u j))" for u
    by (rule sum.remove) (use i in simp_all)
  have "(\<Sum>j \<in> {..<n} - {i}. 11 - progress (stages Q j)) =
      (\<Sum>j \<in> {..<n} - {i}. 11 - progress (stages P j))"
    by (rule sum.cong) (auto simp: Q)
  with split [of "stages Q"] split [of "stages P"] lt show ?thesis
    by (simp add: program_left_def Q)
qed

lemma program_left_main:
  "stages Q = stages P \<Longrightarrow> main_left n (boss Q) < main_left n (boss P) \<Longrightarrow>
   program_left n Q < program_left n P"
  by (simp add: program_left_def)

lemma set_stage_sel [simp]:
  "stages (set_stage i st P) = (stages P)(i := st)" "boss (set_stage i st P) = boss P"
  "shared (set_stage i st P) = shared P" "arrivals (set_stage i st P) = arrivals P"
  "roi_on (set_stage i st P) = roi_on P" "registered_ids (set_stage i st P) = registered_ids P"
  "printed (set_stage i st P) = printed P"
  by (simp_all add: set_stage_def)

lemma arrive_at_sel [simp]:
  "stages (arrive_at b P) = stages P" "boss (arrive_at b P) = boss P"
  "shared (arrive_at b P) = shared P" "arrivals (arrive_at b P) = (arrivals P)(b := arrivals P b + 1)"
  "roi_on (arrive_at b P) = roi_on P" "registered_ids (arrive_at b P) = registered_ids P"
  "printed (arrive_at b P) = printed P"
  by (simp_all add: arrive_at_def)

lemma at_barrier_bounds [simp]: "2 \<le> at_barrier b" "at_barrier b \<le> 9" "at_barrier b \<le> 10"
  "2 \<le> main_at_barrier b" "main_at_barrier b \<le> 10"
  "\<not> at_barrier b < 2" "0 < at_barrier b" "\<not> at_barrier b < Suc 0" "Suc 0 < at_barrier b"
  "at_barrier b = 0 \<longleftrightarrow> False" "main_at_barrier b = 0 \<longleftrightarrow> False"
  "\<not> main_at_barrier b < 2" "0 < main_at_barrier b" "\<not> main_at_barrier b < Suc 0"
  by (cases b; simp)+

lemma at_barrier_less: "at_barrier c < at_barrier b \<Longrightarrow> Suc (at_barrier c) < at_barrier b"
  "at_barrier b < Suc (at_barrier c) \<longleftrightarrow> at_barrier b < at_barrier c \<or> b = c"
  by (cases b; cases c; simp)+

lemma main_at_barrier_less: "main_at_barrier c < main_at_barrier b \<Longrightarrow> Suc (main_at_barrier c) < main_at_barrier b"
  "main_at_barrier b < Suc (main_at_barrier c) \<longleftrightarrow> main_at_barrier b < main_at_barrier c \<or> b = c"
  by (cases b; cases c; simp)+

lemma loop_barriers: "at_barrier b < 6 \<longleftrightarrow> at_barrier b < 5" "at_barrier b < 7 \<longleftrightarrow> at_barrier b < 5"
  by (cases b; simp)+

text \<open>A thread that moves on, when it exists and has not ended.\<close>

lemma main_ok_thread:
  assumes ok: "main_ok report stop n P" and i: "i < n" "stages P i \<noteq> Uncreated" "stages P i \<noteq> Exited"
    and Q: "stages Q = (stages P)(i := st)" "st \<noteq> Uncreated" "boss Q = boss P" "roi_on Q = roi_on P"
      "shared Q = shared P" "printed Q = printed P"
  shows "main_ok report stop n Q"
  using ok i unfolding main_ok_def Q by (cases "boss P") (auto simp: Q(2))

lemma after_barrier_progress:
  "Suc (at_barrier b) < progress (after_barrier b)" "progress (after_barrier b) \<le> 11"
  "after_barrier b \<noteq> Uncreated"
  "Suc (at_barrier c) < progress (after_barrier b) \<Longrightarrow> at_barrier c < at_barrier b \<or> c = b"
  "at_barrier c < progress (after_barrier b) \<longleftrightarrow> at_barrier c < at_barrier b \<or> c = b"
  by (cases b; cases c; simp)+

lemma main_after_progress:
  "Suc (main_at_barrier b) < main_progress (main_after_barrier b)"
  "Suc (main_at_barrier c) < main_progress (main_after_barrier b) \<Longrightarrow>
    main_at_barrier c < main_at_barrier b \<or> c = b"
  "main_at_barrier c < main_progress (main_after_barrier b) \<longleftrightarrow>
    main_at_barrier c < main_at_barrier b \<or> c = b"
  by (cases b; cases c; simp)+

lemma main_between:
  "main_at_barrier b < 5 \<longleftrightarrow> main_at_barrier b < 3" "main_at_barrier b < 4 \<longleftrightarrow> main_at_barrier b < 3"
  "main_at_barrier b < 10 \<longleftrightarrow> main_at_barrier b < 8" "main_at_barrier b < 9 \<longleftrightarrow> main_at_barrier b < 8"
  "main_at_barrier b < 11" "main_at_barrier b < 12" "main_at_barrier b < 13" "main_at_barrier b < 14"
  "main_at_barrier b < 15"
  by (cases b; simp)+

locale counting_each = counting +
  assumes acts: "good stop n s \<Longrightarrow> i < n \<Longrightarrow> w_pc (workers s i) \<noteq> Ended \<Longrightarrow>
    \<exists>t. step stop n s t \<and> workers t i \<noteq> workers s i \<and> (\<forall>j. j \<noteq> i \<longrightarrow> workers t j = workers s j)"
begin

definition inv :: "(nat \<Rightarrow> (nat \<Rightarrow> worker) \<Rightarrow> string) \<Rightarrow> nat \<Rightarrow> nat \<Rightarrow> program \<Rightarrow> bool" where
  "inv report stop n P \<longleftrightarrow>
     barriers_ok n P \<and> main_ok report stop n P \<and> threads_inv n P \<and> good stop n (shared P)"

lemma ended_counter:
  assumes "good stop n s" "0 < n" "\<And>i. i < n \<Longrightarrow> w_pc (workers s i) = Ended"
  shows "counter s = stop + n" "total n w_count s = stop + n"
    "total n w_even_count s = (stop + n + 1) div 2"
proof -
  have inv: "count_inv stop n s" using assms(1) by (rule counts)
  have p: "total n (past stop) s = (\<Sum>i < n. 1)"
    "total n increments s = total n w_count s" "total n evens s = total n w_even_count s"
    unfolding total_def using assms(3)
    by (auto simp: past_def increments_def evens_def intro!: sum.cong)
  then have e: "counter s - stop = n" "total n w_count s = counter s"
    "total n w_even_count s = (counter s + 1) div 2"
    using inv unfolding count_inv_def by auto
  with assms(2) show "counter s = stop + n" "total n w_count s = stop + n"
    "total n w_even_count s = (stop + n + 1) div 2" by auto
qed

lemma thread_keeps:
  assumes step: "thread_step step stop n P Q" and ok: "inv report stop n P"
  shows "inv report stop n Q \<and>
    program_left n Q + bound stop n (shared Q) < program_left n P + bound stop n (shared P)"
proof -
  have bar: "barriers_ok n P" and main: "main_ok report stop n P" and thr: "threads_inv n P"
    and good: "good stop n (shared P)"
    using ok by (simp_all add: inv_def)
  from assms(1) show ?thesis
  proof cases
    case (register i)
    have b: "barriers_ok n Q"
      by (rule barriers_move_thread [OF bar register(2), of _ "Arriving Bar1"])
        (use register in \<open>auto simp: at_barrier_less\<close>)
    have m: "main_ok report stop n Q"
      by (rule main_ok_thread [OF main register(2), of _ "Arriving Bar1"]) (use register in simp_all)
    have t: "threads_inv n Q"
      using thr register by (auto simp: threads_inv_def)
    have "program_left n Q < program_left n P"
      by (rule program_left_thread [OF register(2), of _ _ "Arriving Bar1"]) (use register in simp_all)
    with b m t good register show ?thesis by (simp add: inv_def)
  next
    case (arrive i b)
    have b: "barriers_ok n Q"
      by (rule barriers_move_thread [OF bar arrive(2), of _ "Waiting b"])
        (use arrive in \<open>auto simp: at_barrier_less\<close>)
    have m: "main_ok report stop n Q"
      by (rule main_ok_thread [OF main arrive(2), of _ "Waiting b"]) (use arrive in simp_all)
    have t: "threads_inv n Q"
      using thr arrive by (cases b) (auto simp: threads_inv_def)
    have "program_left n Q < program_left n P"
      by (rule program_left_thread [OF arrive(2), of _ _ "Waiting b"]) (use arrive in simp_all)
    with b m t good arrive show ?thesis by (simp add: inv_def)
  next
    case (pass i b)
    have b: "barriers_ok n Q"
      by (rule barriers_move_thread [OF bar pass(2), of _ "after_barrier b"])
        (use pass after_barrier_progress(1,2) [of b] in
          \<open>auto simp: after_barrier_progress(5) at_barrier_less dest!: after_barrier_progress(4)\<close>)
    have m: "main_ok report stop n Q"
      by (rule main_ok_thread [OF main pass(2), of _ "after_barrier b"])
        (use pass in \<open>simp_all add: after_barrier_progress\<close>)
    have t: "threads_inv n Q"
      using thr pass by (cases b) (auto simp: threads_inv_def)
    have "program_left n Q < program_left n P"
      by (rule program_left_thread [OF pass(2), of _ _ "after_barrier b"])
        (use pass after_barrier_progress [of b] in auto)
    with b m t good pass show ?thesis by (simp add: inv_def)
  next
    case (work i s)
    have b: "barriers_ok n Q"
      using bar work by (simp add: barriers_ok_def all_arrived_def)
    have m: "main_ok report stop n Q"
      using main work unfolding main_ok_def by (cases "boss P") auto
    have t: "threads_inv n Q"
      unfolding threads_inv_def
    proof (intro conjI allI impI)
      fix j assume j: "j < n" "6 < progress (stages Q j)"
      then have "j \<noteq> i" using work by auto
      with j thr work show "w_pc (workers (shared Q) j) = Ended" by (simp add: threads_inv_def)
    qed (use thr work in \<open>simp_all add: threads_inv_def\<close>)
    have "good stop n s" "bound stop n s < bound stop n (shared P)"
      using keeps descends work good by blast+
    with b m t work show ?thesis by (simp add: inv_def program_left_def)
  next
    case (leave i)
    have b: "barriers_ok n Q"
      by (rule barriers_move_thread [OF bar leave(2), of _ "Arriving Bar3"])
        (use leave in \<open>auto simp: loop_barriers\<close>)
    have m: "main_ok report stop n Q"
      by (rule main_ok_thread [OF main leave(2), of _ "Arriving Bar3"]) (use leave in simp_all)
    have t: "threads_inv n Q"
      using thr leave by (auto simp: threads_inv_def)
    have "program_left n Q < program_left n P"
      by (rule program_left_thread [OF leave(2), of _ _ "Arriving Bar3"]) (use leave in simp_all)
    with b m t good leave show ?thesis by (simp add: inv_def)
  qed
qed

lemma main_keeps:
  assumes step: "main_step report stop n P Q" and ok: "inv report stop n P" and n: "0 < n"
  shows "inv report stop n Q \<and>
    program_left n Q + bound stop n (shared Q) < program_left n P + bound stop n (shared P)"
proof -
  have bar: "barriers_ok n P" and main: "main_ok report stop n P" and thr: "threads_inv n P"
    and good: "good stop n (shared P)"
    using ok by (simp_all add: inv_def)
  from assms(1) show ?thesis
  proof cases
    case (create i)
    have un: "stages P i = Uncreated" using main create by (simp add: main_ok_def)
    have "barriers_ok n (P\<lparr>boss := Creating (i + 1)\<rparr>)"
      by (rule barriers_move_main [OF bar]) (use create in auto)
    then have b: "barriers_ok n Q"
      by (rule barriers_move_thread [OF _ create(3), of _ _ Registering]) (use create un in auto)
    have m: "main_ok report stop n Q"
      using main create by (auto simp: main_ok_def)
    have t: "threads_inv n Q"
      using thr create un by (auto simp: threads_inv_def)
    have "program_left n (set_stage i Registering P) < program_left n P"
      by (rule program_left_thread [OF create(3), of _ _ Registering]) (use un in simp_all)
    then have "program_left n Q < program_left n P"
      using create by (simp add: program_left_def)
    with b m t good create show ?thesis by (simp add: inv_def)
  next
    case created
    have b: "barriers_ok n Q"
      by (rule barriers_move_main [OF bar, of _ "M_Arriving Bar1"]) (use created in \<open>auto\<close>)
    have m: "main_ok report stop n Q"
      using main created by (auto simp: main_ok_def)
    have t: "threads_inv n Q" using thr created by (simp add: threads_inv_def)
    have "program_left n Q < program_left n P"
      by (rule program_left_main) (use created main in \<open>auto simp: main_ok_def\<close>)
    with b m t good created show ?thesis by (simp add: inv_def)
  next
    case (m_arrive b)
    have bo: "barriers_ok n Q"
      by (rule barriers_move_main [OF bar, of _ "M_Waiting b"])
        (use m_arrive in \<open>auto simp: main_at_barrier_less\<close>)
    have m: "main_ok report stop n Q"
      using main m_arrive by (cases b) (auto simp: main_ok_def)
    have t: "threads_inv n Q" using thr m_arrive by (simp add: threads_inv_def)
    have "program_left n Q < program_left n P"
      by (rule program_left_main) (use m_arrive in \<open>cases b; simp\<close>)+
    with bo m t good m_arrive show ?thesis by (simp add: inv_def)
  next
    case (m_pass b)
    have bo: "barriers_ok n Q"
      by (rule barriers_move_main [OF bar, of _ "main_after_barrier b"])
        (use m_pass main_after_progress [of b] in
          \<open>auto simp: main_after_progress(3) main_at_barrier_less dest!: main_after_progress(2)\<close>)
    have m: "main_ok report stop n Q"
      using main m_pass by (cases b) (auto simp: main_ok_def)
    have t: "threads_inv n Q" using thr m_pass by (simp add: threads_inv_def)
    have "program_left n Q < program_left n P"
      by (rule program_left_main) (use m_pass in \<open>cases b; simp\<close>)+
    with bo m t good m_pass show ?thesis by (simp add: inv_def)
  next
    case start_roi
    have bo: "barriers_ok n Q"
      by (rule barriers_move_main [OF bar, of _ "M_Arriving Bar2"])
        (use start_roi in \<open>auto simp: main_between\<close>)
    have m: "main_ok report stop n Q"
      using main start_roi by (auto simp: main_ok_def)
    have t: "threads_inv n Q" using thr start_roi by (simp add: threads_inv_def)
    have "program_left n Q < program_left n P"
      by (rule program_left_main) (use start_roi in simp_all)
    with bo m t good start_roi show ?thesis by (simp add: inv_def)
  next
    case end_roi
    have bo: "barriers_ok n Q"
      by (rule barriers_move_main [OF bar, of _ "M_Arriving Bar4"])
        (use end_roi in \<open>auto simp: main_between\<close>)
    have m: "main_ok report stop n Q"
      using main end_roi by (auto simp: main_ok_def)
    have t: "threads_inv n Q" using thr end_roi by (simp add: threads_inv_def)
    have "program_left n Q < program_left n P"
      by (rule program_left_main) (use end_roi in simp_all)
    with bo m t good end_roi show ?thesis by (simp add: inv_def)
  next
    case (join i)
    have bo: "barriers_ok n Q"
      by (rule barriers_move_main [OF bar, of _ "Joining (i + 1)"]) (use join in auto)
    have m: "main_ok report stop n Q"
      using main join by (auto simp: main_ok_def less_Suc_eq)
    have t: "threads_inv n Q" using thr join by (simp add: threads_inv_def)
    have "program_left n Q < program_left n P"
      by (rule program_left_main) (use join in simp_all)
    with bo m t good join show ?thesis by (simp add: inv_def)
  next
    case (joined i)
    have bo: "barriers_ok n Q"
      by (rule barriers_move_main [OF bar, of _ Checking])
        (use joined in \<open>auto simp: main_between\<close>)
    have m: "main_ok report stop n Q"
      using main joined by (auto simp: main_ok_def)
    have t: "threads_inv n Q" using thr joined by (simp add: threads_inv_def)
    have "program_left n Q < program_left n P"
      by (rule program_left_main) (use joined main in \<open>auto simp: main_ok_def\<close>)
    with bo m t good joined show ?thesis by (simp add: inv_def)
  next
    case check
    have c: "counter (shared P) = stop + n"
      by (rule ended_counter [OF good n]) (use main check thr in \<open>auto simp: main_ok_def threads_inv_def\<close>)
    have bo: "barriers_ok n Q"
      by (rule barriers_move_main [OF bar, of _ Printing])
        (use check c in \<open>auto simp: main_between\<close>)
    have m: "main_ok report stop n Q"
      using main check c by (auto simp: main_ok_def)
    have t: "threads_inv n Q" using thr check by (simp add: threads_inv_def)
    have "program_left n Q < program_left n P"
      by (rule program_left_main) (use check c in simp_all)
    with bo m t good check show ?thesis by (simp add: inv_def)
  next
    case print
    have bo: "barriers_ok n Q"
      by (rule barriers_move_main [OF bar, of _ Returned])
        (use print in \<open>auto simp: main_between\<close>)
    have m: "main_ok report stop n Q"
      using main print by (auto simp: main_ok_def)
    have t: "threads_inv n Q" using thr print by (simp add: threads_inv_def)
    have "program_left n Q < program_left n P"
      by (rule program_left_main) (use print in simp_all)
    with bo m t good print show ?thesis by (simp add: inv_def)
  qed
qed

text \<open>Until \<open>main\<close> has returned, some thread or \<open>main\<close> can go on.\<close>

lemma program_goes_on:
  assumes ok: "inv report stop n P" and not_done: "boss P \<noteq> Returned"
  shows "\<exists>Q. program_step step report stop n P Q"
proof -
  have bar: "barriers_ok n P" and main: "main_ok report stop n P" and good: "good stop n (shared P)"
    using ok by (simp_all add: inv_def)
  have thread: "\<exists>Q. thread_step step stop n P Q"
    if i: "i < n" "stages P i \<noteq> Uncreated" "stages P i \<noteq> Exited"
      and open_: "\<And>b. stages P i = Waiting b \<Longrightarrow> arrivals P b = n + 1" for i
  proof (cases "stages P i")
    case Looping
    show ?thesis
    proof (cases "w_pc (workers (shared P) i) = Ended")
      case False
      with acts [OF good i(1)] Looping i(1) show ?thesis by (blast intro: work)
    qed (use Looping i(1) in \<open>blast intro: leave\<close>)
  next
    case (Waiting b)
    with i(1) open_ show ?thesis by (blast intro: pass)
  qed (use i open_ in \<open>auto intro: thread_step.intros\<close>)
  have passed: "arrivals P c = n + 1"
    if "main_at_barrier c + 1 < main_progress (boss P)" for c
    using that bar barrier_full [OF bar, of c] unfolding barriers_ok_def by blast
  have "(\<exists>Q. main_step report stop n P Q) \<or> (\<exists>Q. thread_step step stop n P Q)"
  proof (cases "boss P")
    case (Creating i)
    then show ?thesis by (cases "i < n") (blast intro: create created)+
  next
    case (M_Waiting b)
    show ?thesis
    proof (cases "arrivals P b = n + 1")
      case False
      with barrier_full [OF bar] M_Waiting obtain i where
        i: "i < n" "\<not> at_barrier b < progress (stages P i)"
        by (auto simp: all_arrived_def)
      have "stages P i \<noteq> Uncreated" using main M_Waiting i(1) by (simp add: main_ok_def)
      moreover have "stages P i \<noteq> Exited" using i(2) by (cases b) auto
      moreover have "arrivals P c = n + 1" if "stages P i = Waiting c" for c
        by (rule passed) (use that i(2) M_Waiting in \<open>cases b; cases c; simp\<close>)
      ultimately show ?thesis using thread [OF i(1)] by blast
    qed (use M_Waiting in \<open>blast intro: m_pass\<close>)
  next
    case (Joining i)
    show ?thesis
    proof (cases "i < n \<and> stages P i \<noteq> Exited")
      case True
      have "stages P i \<noteq> Uncreated" using main Joining True by (simp add: main_ok_def)
      moreover have "arrivals P c = n + 1" for c
        by (rule passed) (use Joining in \<open>cases c; simp\<close>)
      ultimately show ?thesis using thread True by blast
    qed (use Joining in \<open>blast intro: join joined\<close>)
  qed (use not_done main in \<open>auto simp: main_ok_def intro: main_step.intros\<close>)
  then show ?thesis by (auto simp: program_step_def)
qed

lemma program_keeps:
  assumes "program_step step report stop n P Q" "inv report stop n P" "0 < n"
  shows "inv report stop n Q \<and>
    program_left n Q + bound stop n (shared Q) < program_left n P + bound stop n (shared P)"
  using assms thread_keeps main_keeps unfolding program_step_def by blast

lemma start_inv:
  assumes "good stop n s"
  shows "inv report stop n (new_program s)"
proof -
  have "arrived n b (\<lambda>_. Uncreated) = 0" for b
    by (simp add: arrived_def)
  with assms show ?thesis
    by (auto simp: inv_def new_program_def barriers_ok_def main_arrived_def main_ok_def
        threads_inv_def)
qed

lemma program_runs:
  "(program_step step report stop n ^^ k) P Q \<Longrightarrow> inv report stop n P \<Longrightarrow> 0 < n \<Longrightarrow>
   inv report stop n Q \<and>
   k + (program_left n Q + bound stop n (shared Q)) \<le> program_left n P + bound stop n (shared P)"
proof (induction k arbitrary: Q)
  case (Suc k)
  then obtain R where R: "(program_step step report stop n ^^ k) P R" "program_step step report stop n R Q"
    by auto
  from Suc.IH [OF R(1) Suc.prems(2,3)] program_keeps [OF R(2) _ Suc.prems(3)] show ?case by fastforce
qed simp

lemma program_correct:
  assumes "(program_step step report stop n ^^ k) (new_program s) P" "good stop n s" "0 < n"
  shows "k \<le> 13 * n + 20 + bound stop n s \<and> boss P \<noteq> Aborted \<and>
    ((\<exists>Q. program_step step report stop n P Q) \<or>
     boss P = Returned \<and> printed P = report n (workers (shared P)) \<and>
     counter (shared P) = stop + n \<and> total n w_count (shared P) = stop + n \<and>
     total n w_even_count (shared P) = (stop + n + 1) div 2)"
proof -
  note R = program_runs [OF assms(1) start_inv [OF assms(2)] assms(3)]
  have ok: "inv report stop n P" using R by blast
  have k: "k \<le> 13 * n + 20 + bound stop n s"
    using R by (simp add: program_left_def new_program_def)
  have "boss P \<noteq> Aborted" using ok by (auto simp: inv_def main_ok_def)
  moreover have "printed P = report n (workers (shared P)) \<and> counter (shared P) = stop + n \<and>
      total n w_count (shared P) = stop + n \<and>
      total n w_even_count (shared P) = (stop + n + 1) div 2" if "boss P = Returned"
  proof -
    have e: "w_pc (workers (shared P) i) = Ended" if "i < n" for i
      using ok that \<open>boss P = Returned\<close> by (auto simp: inv_def main_ok_def threads_inv_def)
    have "good stop n (shared P)" using ok by (simp add: inv_def)
    from ended_counter [OF this assms(3) e] ok that show ?thesis
      by (simp add: inv_def main_ok_def)
  qed
  ultimately show ?thesis using k program_goes_on [OF ok] by blast
qed

text \<open>A thread is in its loop only between the start and the end of the region of interest.\<close>

lemma loops_in_roi:
  assumes "(program_step step report stop n ^^ k) (new_program s) P" "good stop n s" "0 < n"
    and i: "i < n" "stages P i = Looping"
  shows "roi_on P" "distinct (registered_ids P)" "set (registered_ids P) = {..<n}"
proof -
  have ok: "inv report stop n P"
    using program_runs [OF assms(1) start_inv [OF assms(2)] assms(3)] by blast
  then have bar: "barriers_ok n P" and thr: "threads_inv n P" by (simp_all add: inv_def)
  have a2: "all_arrived n Bar2 P"
    using bar i unfolding barriers_ok_def by force
  have "\<not> all_arrived n Bar3 P"
    using i by (auto simp: all_arrived_def)
  then have "\<not> main_at_barrier Bar3 + 1 < main_progress (boss P)"
    using bar unfolding barriers_ok_def by blast
  with a2 ok show "roi_on P" by (simp add: all_arrived_def inv_def main_ok_def)
  show "distinct (registered_ids P)" using thr by (simp add: threads_inv_def)
  have "1 < progress (stages P j)" if "j < n" for j
    using a2 that by (force simp: all_arrived_def)
  with thr show "set (registered_ids P) = {..<n}" by (auto simp: threads_inv_def)
qed

end

section \<open>Both programs have the interface\<close>

lemma inc_acts:
  assumes "inc_good stop n s" "i < n" "w_pc (workers s i) \<noteq> Ended"
  shows "\<exists>t. inc_step stop n s t \<and> workers t i \<noteq> workers s i \<and> (\<forall>j. j \<noteq> i \<longrightarrow> workers t j = workers s j)"
proof (cases "w_pc (workers s i)")
  case Ready
  have "workers (set_worker i ((workers s i)\<lparr>w_pc := Got (counter s)\<rparr>) (s\<lparr>counter := counter s + 1\<rparr>)) i
      \<noteq> workers s i"
    using Ready by (auto dest: arg_cong [where f = w_pc])
  with inc_step.fetch [OF assms(2) Ready] show ?thesis by (intro exI conjI) auto
next
  case (Got v)
  have "workers (set_worker i (account stop v (workers s i)) s) i \<noteq> workers s i"
    by (auto simp: account_def dest: arg_cong [where f = w_count])
  with inc_step.count [OF assms(2) Got] show ?thesis by (intro exI conjI) auto
qed (use assms in \<open>auto simp: inc_good_def\<close>)

lemma cas_acts:
  assumes "count_inv stop n s" "i < n" "w_pc (workers s i) \<noteq> Ended"
  shows "\<exists>t. cas_step stop n s t \<and> workers t i \<noteq> workers s i \<and> (\<forall>j. j \<noteq> i \<longrightarrow> workers t j = workers s j)"
proof (cases "w_pc (workers s i)")
  case Ready
  have "workers (set_worker i ((workers s i)\<lparr>w_pc := Trying (counter s) True\<rparr>) s) i \<noteq> workers s i"
    using Ready by (auto dest: arg_cong [where f = w_pc])
  with cas_step.load [OF assms(2) Ready] show ?thesis by (intro exI conjI) auto
next
  case (Trying v b)
  obtain c w where r: "cas_round v b (counter s) (workers s i) = (c, w)" by fastforce
  have "w_pc w \<noteq> Trying v b"
    using cas_round_cases [OF r] assms(1,2) Trying by auto
  then have "workers (set_worker i w (s\<lparr>counter := c\<rparr>)) i \<noteq> workers s i"
    using Trying by auto
  with cas_step.swap [OF assms(2) Trying r] show ?thesis by (intro exI conjI) auto
next
  case (Got v)
  have "workers (set_worker i (account stop v (workers s i)) s) i \<noteq> workers s i"
    by (auto simp: account_def dest: arg_cong [where f = w_count])
  with cas_step.count [OF assms(2) Got] show ?thesis by (intro exI conjI) auto
qed (use assms in simp)

interpretation pi: counting_each inc_step inc_good inc_bound
  by unfold_locales (rule inc_acts)

interpretation pc: counting_each cas_step count_inv cas_bound
  by unfold_locales (rule cas_acts)

section \<open>Properties\<close>

lemma counter_arguments_start:
  assumes "counter_arguments argv = Inr (stop, n, s)"
  shows "inc_good stop n s" "count_inv stop n s" "0 < n" "inc_bound stop n s = 2 * (stop + n)"
    "cas_bound stop n s = (stop + n + 4) * (stop + n) + n * (stop + n + 2)"
proof -
  from assms obtain a b where "inc_main a b = Inr (stop, n, s)"
    by (auto simp: counter_arguments_def split: if_splits sum.splits)
  note S = inc_main_start [OF this]
  then show "inc_good stop n s" "count_inv stop n s" "0 < n" by simp_all
  show "inc_bound stop n s = 2 * (stop + n)"
    "cas_bound stop n s = (stop + n + 4) * (stop + n) + n * (stop + n + 2)"
    using S(5,6) by (simp_all add: inc_bound_def cas_bound_def total_def)
qed

text \<open>C22. The whole of \<open>inc\<close>: for arguments its assertions accept, however the threads and \<open>main\<close>
  are scheduled, every run is finite, never fails the assertion on the counter and never gets stuck
  before \<open>main\<close> has printed the counts of all threads, which add up to the requested total.\<close>

theorem inc_program_correct:
  assumes "counter_arguments argv = Inr (stop, n, s)" and "(inc_program stop n ^^ k) (new_program s) P"
  shows "k \<le> 13 * n + 20 + 2 * (stop + n) \<and> boss P \<noteq> Aborted \<and>
    ((\<exists>Q. inc_program stop n P Q) \<or>
     boss P = Returned \<and> printed P = inc_report n (workers (shared P)) \<and>
     counter (shared P) = stop + n \<and> total n w_count (shared P) = stop + n \<and>
     total n w_even_count (shared P) = (stop + n + 1) div 2)"
  using pi.program_correct [OF assms(2) [unfolded inc_program_def]] counter_arguments_start [OF assms(1)]
  by (simp add: inc_program_def)

lemma sample_arguments:
  "\<exists>s. counter_arguments [''inc'', ''2'', ''5''] = Inr (3, 2, s)"
  by (simp add: counter_arguments_def atoi_def atoll_value_def isspace_def isdigit_def code_of_def
      inc_main_def)

theorem inc_program_correct_witness:
  "\<exists>s. counter_arguments [''inc'', ''2'', ''5''] = Inr (3, 2, s) \<and>
     (\<exists>Q. inc_program 3 2 (new_program s) Q)"
proof -
  obtain s where s: "counter_arguments [''inc'', ''2'', ''5''] = Inr (3, 2, s)"
    using sample_arguments by blast
  from inc_program_correct [OF s, of 0 "new_program s"] s show ?thesis
    by (auto simp: new_program_def)
qed

text \<open>C21. The whole of \<open>inc_cas\<close>: the same, failed swaps included in the bound and in the report.\<close>

theorem cas_program_correct:
  assumes "counter_arguments argv = Inr (stop, n, s)" and "(cas_program stop n ^^ k) (new_program s) P"
  shows "k \<le> 13 * n + 20 + ((stop + n + 4) * (stop + n) + n * (stop + n + 2)) \<and> boss P \<noteq> Aborted \<and>
    ((\<exists>Q. cas_program stop n P Q) \<or>
     boss P = Returned \<and> printed P = cas_report n (workers (shared P)) \<and>
     counter (shared P) = stop + n \<and> total n w_count (shared P) = stop + n \<and>
     total n w_even_count (shared P) = (stop + n + 1) div 2)"
  using pc.program_correct [OF assms(2) [unfolded cas_program_def]] counter_arguments_start [OF assms(1)]
  by (simp add: cas_program_def)

theorem cas_program_correct_witness:
  "\<exists>s. counter_arguments [''inc'', ''2'', ''5''] = Inr (3, 2, s) \<and>
     (\<exists>Q. cas_program 3 2 (new_program s) Q)"
proof -
  obtain s where s: "counter_arguments [''inc'', ''2'', ''5''] = Inr (3, 2, s)"
    using sample_arguments by blast
  from cas_program_correct [OF s, of 0 "new_program s"] s show ?thesis
    by (auto simp: new_program_def)
qed

text \<open>C25. The increments stay inside the region of interest: whenever a thread of either program is in
  its loop, \<open>main\<close> has called \<open>start_roi\<close> and not yet \<open>end_roi\<close>, and every thread has registered,
  once, under its own id.\<close>

theorem increments_inside_roi:
  assumes "counter_arguments argv = Inr (stop, n, s)"
    and "(inc_program stop n ^^ k) (new_program s) P \<or> (cas_program stop n ^^ k) (new_program s) P"
    and "i < n" and "stages P i = Looping"
  shows "roi_on P \<and> distinct (registered_ids P) \<and> set (registered_ids P) = {..<n}"
  using assms(2)
proof
  note S = counter_arguments_start [OF assms(1)]
  assume r: "(inc_program stop n ^^ k) (new_program s) P"
  from pi.loops_in_roi [OF r [unfolded inc_program_def] S(1,3) assms(3,4)] show ?thesis by simp
next
  note S = counter_arguments_start [OF assms(1)]
  assume r: "(cas_program stop n ^^ k) (new_program s) P"
  from pc.loops_in_roi [OF r [unfolded cas_program_def] S(2,3) assms(3,4)] show ?thesis by simp
qed

text \<open>A run of one thread, up to its loop.\<close>

lemma program_stepI:
  "thread_step inner stop n P Q \<Longrightarrow> program_step inner report stop n P Q"
  "main_step report stop n P Q \<Longrightarrow> program_step inner report stop n P Q"
  by (simp_all add: program_step_def)

lemma one_thread_loops:
  "\<exists>k P. (program_step inner report stop 1 ^^ k) (new_program s) P \<and> stages P 0 = Looping"
proof -
  let ?R = "program_step inner report stop 1"
  define P1 where "P1 = set_stage 0 Registering (new_program s\<lparr>boss := Creating (0 + 1)\<rparr>)"
  define P2 where "P2 = set_stage 0 (Arriving Bar1) (P1\<lparr>registered_ids := registered_ids P1 @ [0]\<rparr>)"
  define P3 where "P3 = P2\<lparr>boss := M_Arriving Bar1\<rparr>"
  define P4 where "P4 = set_stage 0 (Waiting Bar1) (arrive_at Bar1 P3)"
  define P5 where "P5 = arrive_at Bar1 (P4\<lparr>boss := M_Waiting Bar1\<rparr>)"
  define P6 where "P6 = set_stage 0 (after_barrier Bar1) P5"
  define P7 where "P7 = P6\<lparr>boss := main_after_barrier Bar1\<rparr>"
  define P8 where "P8 = P7\<lparr>roi_on := True, boss := M_Arriving Bar2\<rparr>"
  define P9 where "P9 = set_stage 0 (Waiting Bar2) (arrive_at Bar2 P8)"
  define P10 where "P10 = arrive_at Bar2 (P9\<lparr>boss := M_Waiting Bar2\<rparr>)"
  define P11 where "P11 = set_stage 0 (after_barrier Bar2) P10"
  note defs = P1_def P2_def P3_def P4_def P5_def P6_def P7_def P8_def P9_def P10_def P11_def
    new_program_def set_stage_def arrive_at_def
  have "?R\<^sup>*\<^sup>* (new_program s) P1"
    unfolding P1_def by (intro r_into_rtranclp program_stepI(2) create) (simp_all add: new_program_def)
  moreover have "?R P1 P2"
    unfolding P2_def by (intro program_stepI(1) register) (simp_all add: defs)
  moreover have "?R P2 P3"
    unfolding P3_def by (intro program_stepI(2) created [where i = 1]) (simp_all add: defs)
  moreover have "?R P3 P4"
    unfolding P4_def by (intro program_stepI(1) arrive) (simp_all add: defs)
  moreover have "?R P4 P5"
    unfolding P5_def by (intro program_stepI(2) m_arrive) (simp_all add: defs)
  moreover have "?R P5 P6"
    unfolding P6_def by (intro program_stepI(1) pass) (simp_all add: defs)
  moreover have "?R P6 P7"
    unfolding P7_def by (intro program_stepI(2) m_pass) (simp_all add: defs)
  moreover have "?R P7 P8"
    unfolding P8_def by (intro program_stepI(2) start_roi) (simp_all add: defs)
  moreover have "?R P8 P9"
    unfolding P9_def by (intro program_stepI(1) arrive) (simp_all add: defs)
  moreover have "?R P9 P10"
    unfolding P10_def by (intro program_stepI(2) m_arrive) (simp_all add: defs)
  moreover have "?R P10 P11"
    unfolding P11_def by (intro program_stepI(1) pass) (simp_all add: defs)
  ultimately have "?R\<^sup>*\<^sup>* (new_program s) P11"
    by (meson rtranclp.rtrancl_into_rtrancl)
  then obtain k where "(?R ^^ k) (new_program s) P11" by (auto dest: rtranclp_imp_relpowp)
  moreover have "stages P11 0 = Looping" by (simp add: P11_def)
  ultimately show ?thesis by blast
qed

theorem increments_inside_roi_witness:
  "\<exists>s k P. counter_arguments [''inc'', ''1'', ''5''] = Inr (4, 1, s) \<and>
     (inc_program 4 1 ^^ k) (new_program s) P \<and> stages P 0 = Looping \<and> roi_on P \<and>
     registered_ids P = [0]"
proof -
  obtain s where s: "counter_arguments [''inc'', ''1'', ''5''] = Inr (4, 1, s)"
    by (simp add: counter_arguments_def atoi_def atoll_value_def isspace_def isdigit_def code_of_def
        inc_main_def)
  obtain k P where P: "(inc_program 4 1 ^^ k) (new_program s) P" "stages P 0 = Looping"
    using one_thread_loops [of inc_step inc_report 4 s] by (auto simp: inc_program_def)
  from increments_inside_roi [OF s, of k P 0] P
  have roi: "roi_on P" "distinct (registered_ids P)" "set (registered_ids P) = {..<1}" by auto
  have "length (registered_ids P) = 1"
    using distinct_card [OF roi(2)] roi(3) by simp
  then obtain x where x: "registered_ids P = [x]" by (auto simp: length_Suc_conv)
  then have "x \<in> {..<1}" using roi(3) by auto
  with x have "registered_ids P = [0]" by simp
  with s P roi(1) show ?thesis by (intro exI [of _ s] exI [of _ k] exI [of _ P] conjI)
qed

end
