(* ===== verification/Lock_Protocol.thy ===== *)
theory Lock_Protocol
  imports Instruction_Marks
begin

text \<open>
  The address locks of \<open>src/trace/trace.cpp\<close> one mutex operation at a time (\<open>acquire_address_locks\<close>
  and \<open>release_address_locks\<close>, lines 399 to 450, and the footer, lines 528 to 540). In \<open>Handlers\<close>
  taking or giving back all locks of an instruction is one step; here other threads may do anything
  between two locks, and in between the timestamp of the thread may be raised: the release
  reads it without holding the mutex of the thread.
\<close>

section \<open>Definitions\<close>

text \<open>
  Where a thread is: outside an access, with some locks still to take, with all its locks (did the
  instruction go to memory, is it in the trace), with some locks still to give back, and with the
  time of the first of these already set.
\<close>

datatype lock_stage =
    Outside
  | Taking "int list"
  | Inside bool bool
  | Giving "int list"
  | Unlocking "int list"

text \<open>The members of \<open>thread_data_t\<close> that matter, and the number of the instruction.\<close>

record lock_thread =
  l_stage :: lock_stage
  l_list :: "int list"
  l_max :: int
  l_time :: int
  l_count :: nat

text \<open>The bank, the threads, and the marks so far, those of entries with their timestamps.\<close>

record protocol =
  bank_of :: "int \<Rightarrow> address_lock"
  thread_of :: "int \<Rightarrow> lock_thread"
  events_of :: "(mark \<times> int) list"

datatype lock_action =
    List_Locks int "int list"
  | Take_Lock int
  | Have_Locks int
  | Go_To_Memory int
  | Write_Entry int
  | Raise_Time int int
  | Start_Release int
  | Set_Lock_Time int
  | Unlock int
  | End_Release int

definition update_thread :: "int \<Rightarrow> lock_thread \<Rightarrow> protocol \<Rightarrow> protocol" where
  "update_thread p th x = x\<lparr>thread_of := (thread_of x)(p := th)\<rparr>"

definition new_mark :: "int \<Rightarrow> lock_thread \<Rightarrow> mark_kind \<Rightarrow> mark" where
  "new_mark p th kind = \<lparr>m_thread = p, m_instr = l_count th, m_kind = kind, m_locks = l_list th\<rparr>"

text \<open>The next timestamp, as the footer computes it.\<close>

definition next_time :: "lock_thread \<Rightarrow> int" where
  "next_time th = (if l_max th < l_time th then l_time th else l_max th) + 1"

text \<open>
  One step. The list is what \<open>std::sort\<close> and \<open>std::unique\<close> leave: strictly increasing. Taking a lock
  reads its time; a lock that is held is waited for. The locks are given back in a later call of the
  thread, after the entry is written; the instruction has gone to memory by then, unless it faults.
\<close>

fun do_action :: "lock_action \<Rightarrow> protocol \<Rightarrow> protocol option" where
  "do_action (List_Locks p is) x =
     (let th = thread_of x p in
      if l_stage th = Outside \<and> sorted_wrt (<) is
      then Some (update_thread p (th\<lparr>l_stage := Taking is, l_list := is, l_max := 0\<rparr>) x) else None)"
| "do_action (Take_Lock p) x =
     (let th = thread_of x p in
      case l_stage th of
        Taking (i # is) \<Rightarrow>
          (if lock_owner (bank_of x i) \<noteq> None then None
           else Some (update_thread p
             (th\<lparr>l_stage := Taking is,
                l_max := (if lock_time (bank_of x i) < l_max th then l_max th else lock_time (bank_of x i))\<rparr>)
             (x\<lparr>bank_of := (bank_of x)(i := (bank_of x i)\<lparr>lock_owner := Some p\<rparr>)\<rparr>)))
      | _ \<Rightarrow> None)"
| "do_action (Have_Locks p) x =
     (let th = thread_of x p in
      if l_stage th = Taking []
      then Some (update_thread p (th\<lparr>l_stage := Inside False False, l_count := l_count th + 1\<rparr>) x)
      else None)"
| "do_action (Go_To_Memory p) x =
     (let th = thread_of x p in
      case l_stage th of
        Inside False c \<Rightarrow>
          Some (update_thread p (th\<lparr>l_stage := Inside True c\<rparr>)
            (x\<lparr>events_of := events_of x @ [(new_mark p th Performs, 0)]\<rparr>))
      | _ \<Rightarrow> None)"
| "do_action (Write_Entry p) x =
     (let th = thread_of x p in
      case l_stage th of
        Inside b False \<Rightarrow>
          Some (update_thread p (th\<lparr>l_stage := Inside b True, l_time := next_time th\<rparr>)
            (x\<lparr>events_of := events_of x @ [(new_mark p th Traces, next_time th)]\<rparr>))
      | _ \<Rightarrow> None)"
| "do_action (Raise_Time p t) x =
     (let th = thread_of x p in
      if l_time th \<le> t then Some (update_thread p (th\<lparr>l_time := t\<rparr>) x) else None)"
| "do_action (Start_Release p) x =
     (let th = thread_of x p in
      case l_stage th of
        Inside b True \<Rightarrow> Some (update_thread p (th\<lparr>l_stage := Giving (l_list th)\<rparr>) x)
      | _ \<Rightarrow> None)"
| "do_action (Set_Lock_Time p) x =
     (let th = thread_of x p in
      case l_stage th of
        Giving (i # is) \<Rightarrow>
          Some (update_thread p (th\<lparr>l_stage := Unlocking (i # is)\<rparr>)
            (x\<lparr>bank_of := (bank_of x)(i := (bank_of x i)\<lparr>lock_time := l_time th\<rparr>)\<rparr>))
      | _ \<Rightarrow> None)"
| "do_action (Unlock p) x =
     (let th = thread_of x p in
      case l_stage th of
        Unlocking (i # is) \<Rightarrow>
          Some (update_thread p (th\<lparr>l_stage := Giving is\<rparr>)
            (x\<lparr>bank_of := (bank_of x)(i := (bank_of x i)\<lparr>lock_owner := None\<rparr>)\<rparr>))
      | _ \<Rightarrow> None)"
| "do_action (End_Release p) x =
     (let th = thread_of x p in
      if l_stage th = Giving []
      then Some (update_thread p (th\<lparr>l_stage := Outside, l_list := []\<rparr>) x) else None)"

fun do_actions :: "lock_action list \<Rightarrow> protocol \<Rightarrow> protocol option" where
  "do_actions [] x = Some x"
| "do_actions (a # as) x = (case do_action a x of None \<Rightarrow> None | Some y \<Rightarrow> do_actions as y)"

text \<open>All locks free at time 0, as \<open>main\<close> sets them up, and no thread in an access.\<close>

definition protocol_start :: protocol where
  "protocol_start =
     \<lparr>bank_of = (\<lambda>_. \<lparr>lock_owner = None, lock_time = 0\<rparr>),
      thread_of = (\<lambda>_. \<lparr>l_stage = Outside, l_list = [], l_max = 0, l_time = 0, l_count = 0\<rparr>),
      events_of = []\<rparr>"

section \<open>The invariant\<close>

text \<open>The locks a thread has.\<close>

fun mine :: "lock_thread \<Rightarrow> int set" where
  "mine th = (case l_stage th of
     Outside \<Rightarrow> {}
   | Taking is \<Rightarrow> set (l_list th) - set is
   | Inside _ _ \<Rightarrow> set (l_list th)
   | Giving is \<Rightarrow> set is
   | Unlocking is \<Rightarrow> set is)"

declare mine.simps [simp del]

lemma mine_simps [simp]:
  "l_stage th = Outside \<Longrightarrow> mine th = {}"
  "l_stage th = Taking is \<Longrightarrow> mine th = set (l_list th) - set is"
  "l_stage th = Giving is \<Longrightarrow> mine th = set is"
  "l_stage th = Unlocking is \<Longrightarrow> mine th = set is"
  by (simp_all add: mine.simps)

lemma mine_inside: "l_stage th = Inside b c \<Longrightarrow> mine th = set (l_list th)"
  by (simp add: mine.simps)

definition inside :: "lock_thread \<Rightarrow> bool" where
  "inside th \<longleftrightarrow> (\<exists>b c. l_stage th = Inside b c)"

text \<open>Is the time of lock \<open>i\<close> still to be set from that of its holder?\<close>

definition time_due :: "lock_thread \<Rightarrow> int \<Rightarrow> bool" where
  "time_due th i \<longleftrightarrow> (case l_stage th of
     Inside b c \<Rightarrow> c
   | Giving _ \<Rightarrow> True
   | Unlocking is \<Rightarrow> is \<noteq> [] \<and> i \<noteq> List.hd is
   | _ \<Rightarrow> False)"

text \<open>What the time of a lock will be at least when it is next taken.\<close>

definition floor_with :: "address_lock \<Rightarrow> lock_thread \<Rightarrow> int \<Rightarrow> int" where
  "floor_with l th i = (if time_due th i then l_time th else lock_time l)"

definition lock_floor :: "protocol \<Rightarrow> int \<Rightarrow> int" where
  "lock_floor x i = (case lock_owner (bank_of x i) of
     None \<Rightarrow> lock_time (bank_of x i)
   | Some p \<Rightarrow> floor_with (bank_of x i) (thread_of x p) i)"

definition owners_ok :: "protocol \<Rightarrow> bool" where
  "owners_ok x \<longleftrightarrow> (\<forall>p i. lock_owner (bank_of x i) = Some p \<longleftrightarrow> i \<in> mine (thread_of x p))"

definition thread_ok :: "(int \<Rightarrow> address_lock) \<Rightarrow> lock_thread \<Rightarrow> bool" where
  "thread_ok bank th \<longleftrightarrow> distinct (l_list th) \<and> (case l_stage th of
     Outside \<Rightarrow> True
   | Taking is \<Rightarrow> distinct is \<and> set is \<subseteq> set (l_list th) \<and> (\<forall>i \<in> mine th. lock_time (bank i) \<le> l_max th)
   | Inside b c \<Rightarrow>
       (\<forall>i \<in> mine th. lock_time (bank i) \<le> (if c then l_time th else l_max th))
   | Giving is \<Rightarrow> distinct is \<and> (\<forall>i \<in> mine th. lock_time (bank i) \<le> l_time th)
   | Unlocking is \<Rightarrow> is \<noteq> [] \<and> distinct is \<and> (\<forall>i \<in> mine th. lock_time (bank i) \<le> l_time th))"

definition times_sorted :: "(mark \<times> int) list \<Rightarrow> bool" where
  "times_sorted es \<longleftrightarrow> sorted_wrt (\<lambda>e e'. m_kind (fst e) = Traces \<longrightarrow> m_kind (fst e') = Traces \<longrightarrow>
     share (fst e) (fst e') \<longrightarrow> snd e < snd e') es"

definition floors_ok :: "protocol \<Rightarrow> bool" where
  "floors_ok x \<longleftrightarrow> (\<forall>e \<in> set (events_of x). m_kind (fst e) = Traces \<longrightarrow>
     (\<forall>i \<in> set (m_locks (fst e)). snd e \<le> lock_floor x i))"

definition seen :: "protocol \<Rightarrow> int \<Rightarrow> mark_kind \<Rightarrow> bool" where
  "seen x p kind \<longleftrightarrow> (p, l_count (thread_of x p), kind) \<in> (key_of \<circ> fst) ` set (events_of x)"

definition events_ok :: "protocol \<Rightarrow> bool" where
  "events_ok x \<longleftrightarrow>
     marks_ok (\<lambda>p. inside (thread_of x p)) (\<lambda>p. l_count (thread_of x p)) (\<lambda>p. l_list (thread_of x p))
       (map fst (events_of x)) \<and>
     (\<forall>p b c. l_stage (thread_of x p) = Inside b c \<longrightarrow>
        (\<not> b \<longrightarrow> \<not> seen x p Performs) \<and> (\<not> c \<longrightarrow> \<not> seen x p Traces))"

definition protocol_inv :: "protocol \<Rightarrow> bool" where
  "protocol_inv x \<longleftrightarrow> owners_ok x \<and> (\<forall>p. thread_ok (bank_of x) (thread_of x p)) \<and>
     floors_ok x \<and> times_sorted (events_of x) \<and> events_ok x"


lemma protocol_invD:
  assumes "protocol_inv x"
  shows "owners_ok x" "thread_ok (bank_of x) (thread_of x p)" "floors_ok x" "times_sorted (events_of x)"
    "events_ok x"
  using assms unfolding protocol_inv_def by blast+

section \<open>Every step keeps it\<close>

text \<open>
  A change of one thread and of locks that are free or its own: what the other threads have is
  theirs still.
\<close>

lemma change_keeps:
  assumes inv: "protocol_inv x"
    and bank: "\<And>j. bank' j = bank_of x j \<or>
      lock_owner (bank_of x j) \<in> {None, Some p} \<and> lock_owner (bank' j) \<in> {None, Some p}"
    and own: "\<And>j. lock_owner (bank' j) = Some p \<longleftrightarrow> j \<in> mine th'"
    and ok: "thread_ok bank' th'"
    and x': "bank_of x' = bank'" "thread_of x' = (thread_of x)(p := th')"
    and floor: "\<And>j. lock_owner (bank_of x j) \<in> {None, Some p} \<Longrightarrow> lock_floor x j \<le> lock_floor x' j"
  shows "owners_ok x'" "thread_ok (bank_of x') (thread_of x' q)" "lock_floor x j \<le> lock_floor x' j"
proof -
  note o = protocol_invD(1) [OF inv, unfolded owners_ok_def, rule_format]
  have other: "lock_owner (bank' j) = Some q \<longleftrightarrow> j \<in> mine (thread_of x q)" if "q \<noteq> p" for j q
    using bank [of j] o [of j q] that by auto
  show "owners_ok x'"
    unfolding owners_ok_def x' using own other by simp
  have same: "bank' j = bank_of x j" if "j \<in> mine (thread_of x q)" "q \<noteq> p" for j q
    using bank [of j] o [of j q] that by auto
  show "thread_ok (bank_of x') (thread_of x' q)"
  proof (cases "q = p")
    case False
    have "thread_ok bank' (thread_of x q) = thread_ok (bank_of x) (thread_of x q)"
      unfolding thread_ok_def
      by (cases "l_stage (thread_of x q)") (use same [OF _ False] in \<open>auto simp del: mine_simps\<close>)
    with False protocol_invD(2) [OF inv] show ?thesis by (simp add: x')
  qed (use ok in \<open>simp add: x'\<close>)
  show "lock_floor x j \<le> lock_floor x' j"
  proof (cases "lock_owner (bank_of x j) \<in> {None, Some p}")
    case False
    with bank [of j] have "bank' j = bank_of x j" by blast
    with False show ?thesis by (auto simp: lock_floor_def x' split: option.splits)
  qed (rule floor)
qed

lemma floors_keep:
  assumes "floors_ok x" and "\<And>i. lock_floor x i \<le> lock_floor x' i" and "events_of x' = events_of x"
  shows "floors_ok x'"
  using assms unfolding floors_ok_def by (metis order_trans)

text \<open>Steps that leave the marks alone, and do not bring the thread into an access.\<close>

lemma events_keep:
  assumes inv: "events_ok x" and x': "events_of x' = events_of x" "thread_of x' = (thread_of x)(p := th')"
    and th: "l_count th' = l_count (thread_of x p)"
    and stage: "inside th' \<Longrightarrow> l_stage th' = l_stage (thread_of x p) \<and> l_list th' = l_list (thread_of x p)"
  shows "events_ok x'"
proof -
  have s: "seen x' = seen x" by (auto simp: seen_def x' th fun_eq_iff)
  have c: "(\<lambda>q. l_count (thread_of x' q)) = (\<lambda>q. l_count (thread_of x q))"
    by (auto simp: x' th)
  have i: "inside (thread_of x p)" if "inside th'"
    using that stage [OF that] by (simp add: inside_def)
  have "marks_ok (\<lambda>q. inside (thread_of x' q)) (\<lambda>q. l_count (thread_of x q))
      (\<lambda>q. l_list (thread_of x' q)) (map fst (events_of x))"
    by (rule marks_ok_mono [of "\<lambda>q. inside (thread_of x q)" _ "\<lambda>q. l_list (thread_of x q)"])
      (use inv stage i in \<open>auto simp: events_ok_def x'\<close>)
  moreover have "l_stage (thread_of x q) = Inside b c" if "l_stage (thread_of x' q) = Inside b c" for q b c
    using that stage by (auto simp: x' inside_def split: if_splits)
  ultimately show ?thesis using inv unfolding events_ok_def s c x'(1) by blast
qed

lemma quiet_keeps:
  assumes inv: "protocol_inv x"
    and bank: "\<And>j. bank' j = bank_of x j \<or>
      lock_owner (bank_of x j) \<in> {None, Some p} \<and> lock_owner (bank' j) \<in> {None, Some p}"
    and own: "\<And>j. lock_owner (bank' j) = Some p \<longleftrightarrow> j \<in> mine th'"
    and ok: "thread_ok bank' th'"
    and x': "bank_of x' = bank'" "thread_of x' = (thread_of x)(p := th')" "events_of x' = events_of x"
    and floor: "\<And>j. lock_owner (bank_of x j) \<in> {None, Some p} \<Longrightarrow> lock_floor x j \<le> lock_floor x' j"
    and ev: "events_ok x'"
  shows "protocol_inv x'" "lock_floor x j \<le> lock_floor x' j"
proof -
  note c = change_keeps [OF inv bank own ok x'(1,2) floor]
  show "lock_floor x j \<le> lock_floor x' j" by (rule c(3))
  have "floors_ok x'" by (rule floors_keep [OF protocol_invD(3) [OF inv] c(3) x'(3)])
  with c(1,2) ev protocol_invD(4) [OF inv] show "protocol_inv x'"
    by (simp add: protocol_inv_def x'(3))
qed


lemmas protocol_facts =
  thread_ok_def lock_floor_def floor_with_def time_due_def update_thread_def inside_def

lemma owner_mine: "protocol_inv x \<Longrightarrow> lock_owner (bank_of x j) = Some p \<longleftrightarrow> j \<in> mine (thread_of x p)"
  using protocol_invD(1) unfolding owners_ok_def by blast

lemma thread_only_keeps:
  assumes inv: "protocol_inv x" and m: "mine th' = mine (thread_of x p)"
    and ok: "thread_ok (bank_of x) th'"
    and floor: "\<And>j. j \<in> mine th' \<Longrightarrow>
      floor_with (bank_of x j) (thread_of x p) j \<le> floor_with (bank_of x j) th' j"
    and ev: "events_ok (update_thread p th' x)"
  shows "protocol_inv (update_thread p th' x)"
proof (rule quiet_keeps(1) [OF inv, of "bank_of x" p th'])
  show "lock_floor x j \<le> lock_floor (update_thread p th' x) j"
    if "lock_owner (bank_of x j) \<in> {None, Some p}" for j
    using that floor [of j] owner_mine [OF inv, of j p] m
    by (auto simp: lock_floor_def update_thread_def)
qed (use m ok ev owner_mine [OF inv] in \<open>simp_all add: update_thread_def\<close>)

lemma update_events:
  assumes "events_ok x" and "l_count th' = l_count (thread_of x p)"
    and "inside th' \<Longrightarrow> l_stage th' = l_stage (thread_of x p) \<and> l_list th' = l_list (thread_of x p)"
  shows "events_ok (update_thread p th' x)"
  by (rule events_keep [OF assms(1) _ _ assms(2,3)]) (simp_all add: update_thread_def)

lemma List_Locks_keeps:
  assumes inv: "protocol_inv x" and st: "l_stage (thread_of x p) = Outside" and "sorted_wrt (<) is"
  shows "protocol_inv (update_thread p
    ((thread_of x p)\<lparr>l_stage := Taking is, l_list := is, l_max := 0\<rparr>) x)"
proof -
  have "distinct is" using assms(3) by (simp add: strict_sorted_iff)
  then show ?thesis
    by (intro thread_only_keeps [OF inv] update_events [OF protocol_invD(5) [OF inv]])
      (use st in \<open>simp_all add: protocol_facts\<close>)
qed

lemma Have_Locks_keeps:
  assumes inv: "protocol_inv x" and st: "l_stage (thread_of x p) = Taking []"
  shows "protocol_inv (update_thread p
    ((thread_of x p)\<lparr>l_stage := Inside False False, l_count := l_count (thread_of x p) + 1\<rparr>) x)"
    (is "protocol_inv (update_thread p ?th x)")
proof (rule thread_only_keeps [OF inv])
  show "thread_ok (bank_of x) ?th"
    using protocol_invD(2) [OF inv, of p] st by (simp add: thread_ok_def mine.simps)
  let ?bg = "\<lambda>q. l_count (thread_of x q)"
  have m: "marks_ok (\<lambda>q. inside (thread_of x q)) ?bg (\<lambda>q. l_list (thread_of x q)) (map fst (events_of x))"
    using protocol_invD(5) [OF inv] by (simp add: events_ok_def)
  have c: "(\<lambda>q. l_count (((thread_of x)(p := ?th)) q)) = ?bg(p := ?bg p + 1)" by auto
  have mo: "marks_ok (\<lambda>q. inside (((thread_of x)(p := ?th)) q)) (?bg(p := ?bg p + 1))
      (\<lambda>q. l_list (((thread_of x)(p := ?th)) q)) (map fst (events_of x))"
    by (rule marks_ok_new [OF m]) auto
  have new: "(p, ?bg p + 1, kind) \<notin> (key_of \<circ> fst) ` set (events_of x)" for kind
  proof
    assume "(p, ?bg p + 1, kind) \<in> (key_of \<circ> fst) ` set (events_of x)"
    then obtain e where "fst e \<in> set (map fst (events_of x))" "m_thread (fst e) = p"
      "m_instr (fst e) = ?bg p + 1"
      unfolding key_of_def by fastforce
    with marks_okD(1) [OF m] show False by fastforce
  qed
  have sq: "seen (update_thread p ?th x) q kind \<longleftrightarrow> seen x q kind" if "q \<noteq> p" for q kind
    using that by (simp add: seen_def update_thread_def)
  have t: "thread_of (update_thread p ?th x) = (thread_of x)(p := ?th)"
    "events_of (update_thread p ?th x) = events_of x"
    by (simp_all add: update_thread_def)
  have ns: "\<not> seen (update_thread p ?th x) p kind" for kind
    using new by (simp add: seen_def update_thread_def)
  have "seen (update_thread p ?th x) q kind \<longrightarrow> l_stage (thread_of (update_thread p ?th x) q) =
      Inside b c' \<longrightarrow> q \<noteq> p \<and> seen x q kind \<and> l_stage (thread_of x q) = Inside b c'" for q kind b c'
    using ns sq t by (cases "q = p") simp_all
  with mo show "events_ok (update_thread p ?th x)"
    using protocol_invD(5) [OF inv] unfolding events_ok_def c t by blast
qed (use st in \<open>simp_all add: protocol_facts mine.simps\<close>)

lemma Raise_Time_keeps:
  assumes inv: "protocol_inv x" and t: "l_time (thread_of x p) \<le> t"
  shows "protocol_inv (update_thread p ((thread_of x p)\<lparr>l_time := t\<rparr>) x)"
proof (rule thread_only_keeps [OF inv])
  show "thread_ok (bank_of x) ((thread_of x p)\<lparr>l_time := t\<rparr>)"
    using protocol_invD(2) [OF inv, of p] t
    by (cases "l_stage (thread_of x p)") (auto simp: thread_ok_def mine_inside split: if_splits)
  show "events_ok (update_thread p ((thread_of x p)\<lparr>l_time := t\<rparr>) x)"
    by (rule update_events [OF protocol_invD(5) [OF inv]]) (simp_all add: protocol_facts)
  show "mine ((thread_of x p)\<lparr>l_time := t\<rparr>) = mine (thread_of x p)"
    by (cases "l_stage (thread_of x p)") (simp_all add: mine.simps)
qed (use t in \<open>simp add: floor_with_def time_due_def\<close>)

lemma Start_Release_keeps:
  assumes inv: "protocol_inv x" and st: "l_stage (thread_of x p) = Inside b True"
  shows "protocol_inv (update_thread p
    ((thread_of x p)\<lparr>l_stage := Giving (l_list (thread_of x p))\<rparr>) x)"
  by (intro thread_only_keeps [OF inv] update_events [OF protocol_invD(5) [OF inv]])
    (use st protocol_invD(2) [OF inv, of p] in \<open>simp_all add: protocol_facts mine_inside\<close>)

lemma End_Release_keeps:
  assumes inv: "protocol_inv x" and st: "l_stage (thread_of x p) = Giving []"
  shows "protocol_inv (update_thread p ((thread_of x p)\<lparr>l_stage := Outside, l_list := []\<rparr>) x)"
  by (intro thread_only_keeps [OF inv] update_events [OF protocol_invD(5) [OF inv]])
    (use st in \<open>simp_all add: protocol_facts\<close>)


text \<open>The steps that touch a lock.\<close>

lemma Take_Lock_keeps:
  assumes inv: "protocol_inv x" and st: "l_stage (thread_of x p) = Taking (i # is)"
    and free: "lock_owner (bank_of x i) = None"
  shows "protocol_inv (update_thread p
      ((thread_of x p)\<lparr>l_stage := Taking is,
         l_max := (if lock_time (bank_of x i) < l_max (thread_of x p) then l_max (thread_of x p)
                   else lock_time (bank_of x i))\<rparr>)
      (x\<lparr>bank_of := (bank_of x)(i := (bank_of x i)\<lparr>lock_owner := Some p\<rparr>)\<rparr>))"
    (is "protocol_inv (update_thread p ?th (x\<lparr>bank_of := ?bank\<rparr>))")
proof -
  let ?x = "update_thread p ?th (x\<lparr>bank_of := ?bank\<rparr>)"
  note ok = protocol_invD(2) [OF inv, of p, unfolded thread_ok_def]
  have i: "i \<notin> set is" "i \<in> set (l_list (thread_of x p))" "distinct is"
    "set is \<subseteq> set (l_list (thread_of x p))"
    using ok st by auto
  then have m: "mine ?th = insert i (mine (thread_of x p))" using st by auto
  show ?thesis
  proof (rule quiet_keeps(1) [OF inv, of ?bank p ?th])
    show "?bank j = bank_of x j \<or>
        lock_owner (bank_of x j) \<in> {None, Some p} \<and> lock_owner (?bank j) \<in> {None, Some p}" for j
      using free by simp
    show "(lock_owner (?bank j) = Some p) = (j \<in> mine ?th)" for j
      using m owner_mine [OF inv, of j p] by simp
    have "lock_time (bank_of x j) \<le> l_max (thread_of x p)" if "j \<in> mine (thread_of x p)" for j
      using ok st that by simp
    then have "lock_time (bank_of x j) \<le> l_max ?th" if "j \<in> mine ?th" for j
      using that unfolding m by (fastforce split: if_splits simp del: mine_simps)
    then show "thread_ok ?bank ?th"
      using ok i st by (auto simp: thread_ok_def simp del: mine_simps)
    show "events_ok ?x"
      by (rule events_keep [OF protocol_invD(5) [OF inv], of _ p ?th])
        (simp_all add: update_thread_def inside_def)
    show "lock_floor x j \<le> lock_floor ?x j" if "lock_owner (bank_of x j) \<in> {None, Some p}" for j
      using that st free by (auto simp: lock_floor_def update_thread_def floor_with_def time_due_def)
  qed (simp_all add: update_thread_def)
qed

lemma Set_Lock_Time_keeps:
  assumes inv: "protocol_inv x" and st: "l_stage (thread_of x p) = Giving (i # is)"
  shows "protocol_inv (update_thread p ((thread_of x p)\<lparr>l_stage := Unlocking (i # is)\<rparr>)
      (x\<lparr>bank_of := (bank_of x)(i := (bank_of x i)\<lparr>lock_time := l_time (thread_of x p)\<rparr>)\<rparr>))"
    (is "protocol_inv (update_thread p ?th (x\<lparr>bank_of := ?bank\<rparr>))")
proof -
  let ?x = "update_thread p ?th (x\<lparr>bank_of := ?bank\<rparr>)"
  note ok = protocol_invD(2) [OF inv, of p, unfolded thread_ok_def]
  have o: "lock_owner (bank_of x i) = Some p" using owner_mine [OF inv] st by simp
  show ?thesis
  proof (rule quiet_keeps(1) [OF inv, of ?bank p ?th])
    show "?bank j = bank_of x j \<or>
        lock_owner (bank_of x j) \<in> {None, Some p} \<and> lock_owner (?bank j) \<in> {None, Some p}" for j
      using o by simp
    show "(lock_owner (?bank j) = Some p) = (j \<in> mine ?th)" for j
      using st o owner_mine [OF inv, of j p] by auto
    show "thread_ok ?bank ?th"
      using ok st by (auto simp: thread_ok_def)
    show "events_ok ?x"
      by (rule events_keep [OF protocol_invD(5) [OF inv], of _ p ?th])
        (simp_all add: update_thread_def inside_def)
    show "lock_floor x j \<le> lock_floor ?x j" if "lock_owner (bank_of x j) \<in> {None, Some p}" for j
      using that st o by (auto simp: lock_floor_def update_thread_def floor_with_def time_due_def)
  qed (simp_all add: update_thread_def)
qed

lemma Unlock_keeps:
  assumes inv: "protocol_inv x" and st: "l_stage (thread_of x p) = Unlocking (i # is)"
  shows "protocol_inv (update_thread p ((thread_of x p)\<lparr>l_stage := Giving is\<rparr>)
      (x\<lparr>bank_of := (bank_of x)(i := (bank_of x i)\<lparr>lock_owner := None\<rparr>)\<rparr>))"
    (is "protocol_inv (update_thread p ?th (x\<lparr>bank_of := ?bank\<rparr>))")
proof -
  let ?x = "update_thread p ?th (x\<lparr>bank_of := ?bank\<rparr>)"
  note ok = protocol_invD(2) [OF inv, of p, unfolded thread_ok_def]
  have i: "i \<notin> set is" and o: "lock_owner (bank_of x i) = Some p"
    using ok owner_mine [OF inv] st by simp_all
  show ?thesis
  proof (rule quiet_keeps(1) [OF inv, of ?bank p ?th])
    show "?bank j = bank_of x j \<or>
        lock_owner (bank_of x j) \<in> {None, Some p} \<and> lock_owner (?bank j) \<in> {None, Some p}" for j
      using o by simp
    show "(lock_owner (?bank j) = Some p) = (j \<in> mine ?th)" for j
      using st i owner_mine [OF inv, of j p] by auto
    show "thread_ok ?bank ?th"
      using ok st by (auto simp: thread_ok_def)
    show "events_ok ?x"
      by (rule events_keep [OF protocol_invD(5) [OF inv], of _ p ?th])
        (simp_all add: update_thread_def inside_def)
    show "lock_floor x j \<le> lock_floor ?x j" if "lock_owner (bank_of x j) \<in> {None, Some p}" for j
      using that st o by (auto simp: lock_floor_def update_thread_def floor_with_def time_due_def)
  qed (simp_all add: update_thread_def)
qed


text \<open>The steps that leave a mark.\<close>

lemma add_mark:
  assumes inv: "protocol_inv x" and st: "l_stage (thread_of x p) = Inside b c"
    and kind: "\<not> seen x p kind"
    and th': "l_stage th' = Inside b' c'" "l_list th' = l_list (thread_of x p)"
      "l_count th' = l_count (thread_of x p)"
    and b': "\<not> b' \<Longrightarrow> \<not> b \<and> kind \<noteq> Performs" "\<not> c' \<Longrightarrow> \<not> c \<and> kind \<noteq> Traces"
    and x': "thread_of x' = (thread_of x)(p := th')"
      "events_of x' = events_of x @ [(new_mark p (thread_of x p) kind, t)]"
  shows "events_ok x'"
proof -
  let ?e = "new_mark p (thread_of x p) kind"
  have key: "key_of ?e = (p, l_count (thread_of x p), kind)" by (simp add: key_of_def new_mark_def)
  have "marks_ok (\<lambda>q. inside (thread_of x q)) (\<lambda>q. l_count (thread_of x q))
      (\<lambda>q. l_list (thread_of x q)) (map fst (events_of x) @ [?e])"
  proof (rule marks_ok_append)
    show "key_of ?e \<notin> key_of ` set (map fst (events_of x))"
      using kind unfolding key by (simp add: seen_def image_comp)
    show "set (l_list (thread_of x q)) \<inter> set (l_list (thread_of x (m_thread ?e))) = {}"
      if "inside (thread_of x q)" "q \<noteq> m_thread ?e" for q
    proof -
      have "mine (thread_of x q) = set (l_list (thread_of x q))" "mine (thread_of x p) = set (l_list (thread_of x p))"
        using that(1) st by (auto simp: inside_def mine_inside)
      with that(2) owner_mine [OF inv, of _ q] owner_mine [OF inv, of _ p] show ?thesis
        unfolding new_mark_def mark.simps by (metis disjoint_iff option.inject)
    qed
  qed (use protocol_invD(5) [OF inv] st in \<open>simp_all add: events_ok_def new_mark_def inside_def\<close>)
  moreover have "(\<lambda>q. inside (thread_of x' q)) = (\<lambda>q. inside (thread_of x q))"
    "(\<lambda>q. l_count (thread_of x' q)) = (\<lambda>q. l_count (thread_of x q))"
    "(\<lambda>q. l_list (thread_of x' q)) = (\<lambda>q. l_list (thread_of x q))"
    using st th' by (auto simp: x' inside_def fun_eq_iff)
  ultimately have marks: "marks_ok (\<lambda>q. inside (thread_of x' q)) (\<lambda>q. l_count (thread_of x' q))
      (\<lambda>q. l_list (thread_of x' q)) (map fst (events_of x'))"
    by (simp only: x'(2) map_append list.map fst_conv)
  have seen: "seen x' q k \<longleftrightarrow> seen x q k \<or> q = p \<and> k = kind" for q k
    using th' key by (auto simp: seen_def x')
  have old: "\<not> seen x q Performs \<or> b0" "\<not> seen x q Traces \<or> c0"
    if "l_stage (thread_of x q) = Inside b0 c0" for q b0 c0
    using protocol_invD(5) [OF inv] that unfolding events_ok_def by blast+
  have "(\<not> b1 \<longrightarrow> \<not> seen x' q Performs) \<and> (\<not> c1 \<longrightarrow> \<not> seen x' q Traces)"
    if "l_stage (thread_of x' q) = Inside b1 c1" for q b1 c1
  proof (cases "q = p")
    case True
    with that th'(1) have "b1 = b'" "c1 = c'" by (simp_all add: x')
    with b' old [OF st] True show ?thesis unfolding seen by blast
  next
    case False
    with that old [of q b1 c1] show ?thesis unfolding seen by (auto simp: x')
  qed
  with marks show ?thesis unfolding events_ok_def by blast
qed

lemma times_sorted_append:
  "times_sorted (es @ [(m, t)]) \<longleftrightarrow> times_sorted es \<and>
   (m_kind m = Traces \<longrightarrow> (\<forall>e \<in> set es. m_kind (fst e) = Traces \<longrightarrow> share (fst e) m \<longrightarrow> snd e < t))"
  by (auto simp: times_sorted_def sorted_wrt_append)

lemma Go_To_Memory_keeps:
  assumes inv: "protocol_inv x" and st: "l_stage (thread_of x p) = Inside False c"
  shows "protocol_inv (update_thread p ((thread_of x p)\<lparr>l_stage := Inside True c\<rparr>)
      (x\<lparr>events_of := events_of x @ [(new_mark p (thread_of x p) Performs, 0)]\<rparr>))"
    (is "protocol_inv (update_thread p ?th (x\<lparr>events_of := ?es\<rparr>))")
proof -
  let ?y = "update_thread p ?th x" and ?x = "update_thread p ?th (x\<lparr>events_of := ?es\<rparr>)"
  have m: "mine ?th = mine (thread_of x p)" using st by (simp add: mine.simps)
  have own: "(lock_owner (bank_of x j) = Some p) = (j \<in> mine ?th)" for j
    unfolding m by (rule owner_mine [OF inv])
  have ok: "thread_ok (bank_of x) ?th"
    using protocol_invD(2) [OF inv, of p] st unfolding thread_ok_def m
    by (auto simp del: mine_simps)
  have fl: "lock_floor x j \<le> lock_floor ?x j" if "lock_owner (bank_of x j) \<in> {None, Some p}" for j
    using that st by (auto simp: lock_floor_def floor_with_def time_due_def update_thread_def)
  note k = change_keeps [OF inv, of "bank_of x" p ?th ?x, OF _ own ok _ _ fl]
  have "events_ok ?x"
  proof (rule add_mark [OF inv st, of Performs ?th True c])
    show "\<not> seen x p Performs" using protocol_invD(5) [OF inv] st unfolding events_ok_def by blast
  qed (simp_all add: update_thread_def)
  moreover have "lock_floor x j \<le> lock_floor ?x j" for j
    by (rule k(3)) (simp_all add: update_thread_def)
  then have "floors_ok ?x"
    using protocol_invD(3) [OF inv]
    unfolding floors_ok_def by (fastforce simp: update_thread_def new_mark_def intro: order_trans)
  ultimately show ?thesis
    using k(1,2) protocol_invD(4) [OF inv]
    by (simp add: protocol_inv_def update_thread_def times_sorted_append new_mark_def)
qed

lemma Write_Entry_keeps:
  assumes inv: "protocol_inv x" and st: "l_stage (thread_of x p) = Inside b False"
  shows "protocol_inv (update_thread p
      ((thread_of x p)\<lparr>l_stage := Inside b True, l_time := next_time (thread_of x p)\<rparr>)
      (x\<lparr>events_of := events_of x @ [(new_mark p (thread_of x p) Traces, next_time (thread_of x p))]\<rparr>))"
    (is "protocol_inv (update_thread p ?th (x\<lparr>events_of := ?es\<rparr>))")
proof -
  let ?x = "update_thread p ?th (x\<lparr>events_of := ?es\<rparr>)" and ?t = "next_time (thread_of x p)"
  have t: "l_max (thread_of x p) < ?t" "l_time (thread_of x p) < ?t" by (simp_all add: next_time_def)
  have m: "mine ?th = set (l_list (thread_of x p))" "mine (thread_of x p) = set (l_list (thread_of x p))"
    using st by (simp_all add: mine.simps)
  have own: "(lock_owner (bank_of x j) = Some p) = (j \<in> mine ?th)" for j
    using owner_mine [OF inv, of j p] m by simp
  have le: "lock_time (bank_of x j) \<le> l_max (thread_of x p)" if "j \<in> set (l_list (thread_of x p))" for j
    using protocol_invD(2) [OF inv, of p] st that by (simp add: thread_ok_def m(2))
  have low: "lock_floor x j \<le> l_max (thread_of x p)" "lock_floor ?x j = ?t"
    if "j \<in> set (l_list (thread_of x p))" for j
  proof -
    have "lock_owner (bank_of x j) = Some p" using that m own by simp
    with st le [OF that] show "lock_floor x j \<le> l_max (thread_of x p)" "lock_floor ?x j = ?t"
      by (simp_all add: lock_floor_def floor_with_def time_due_def update_thread_def)
  qed
  have ok: "thread_ok (bank_of x) ?th"
    using protocol_invD(2) [OF inv, of p] le t(1)
    by (fastforce simp: thread_ok_def m(1) simp del: mine_simps)
  have fl: "lock_floor x j \<le> lock_floor ?x j" if "lock_owner (bank_of x j) \<in> {None, Some p}" for j
  proof (cases "j \<in> set (l_list (thread_of x p))")
    case True
    with low [of j] t(1) show ?thesis by simp
  next
    case False
    with that own m(1) show ?thesis by (auto simp: lock_floor_def update_thread_def)
  qed
  note k = change_keeps [OF inv, of "bank_of x" p ?th ?x, OF _ own ok _ _ fl]
  have "events_ok ?x"
  proof (rule add_mark [OF inv st, of Traces ?th b True])
    show "\<not> seen x p Traces" using protocol_invD(5) [OF inv] st unfolding events_ok_def by blast
  qed (simp_all add: update_thread_def)
  moreover have "lock_floor x j \<le> lock_floor ?x j" for j
    by (rule k(3)) (simp_all add: update_thread_def)
  then have "floors_ok ?x"
    using protocol_invD(3) [OF inv] low(2)
    unfolding floors_ok_def by (fastforce simp: update_thread_def new_mark_def intro: order_trans)
  moreover have "snd e < ?t"
    if "e \<in> set (events_of x)" "m_kind (fst e) = Traces" "share (fst e) (new_mark p (thread_of x p) Traces)" for e
  proof -
    from that(3) obtain j where "j \<in> set (m_locks (fst e))" "j \<in> set (l_list (thread_of x p))"
      by (auto simp: share_def new_mark_def)
    with that(1,2) protocol_invD(3) [OF inv] low(1) [of j] t(1) show ?thesis
      unfolding floors_ok_def by fastforce
  qed
  then have "times_sorted ?es"
    using protocol_invD(4) [OF inv] by (simp add: times_sorted_append)
  ultimately show ?thesis
    using k(1,2) by (simp add: protocol_inv_def update_thread_def)
qed

theorem do_action_keeps:
  assumes inv: "protocol_inv x" and step: "do_action a x = Some y"
  shows "protocol_inv y"
proof (cases a)
  case (Take_Lock p)
  with step obtain i "is" where st: "l_stage (thread_of x p) = Taking (i # is)"
    "lock_owner (bank_of x i) = None"
    by (auto simp: Let_def split: lock_stage.splits list.splits if_splits)
  with step Take_Lock Take_Lock_keeps [OF inv st] show ?thesis by (simp add: Let_def)
next
  case (Have_Locks p)
  with step Have_Locks_keeps [OF inv, of p] show ?thesis by (simp add: Let_def split: if_splits)
qed (use step in \<open>auto simp: Let_def inv intro: List_Locks_keeps Go_To_Memory_keeps
      Write_Entry_keeps Raise_Time_keeps Start_Release_keeps Set_Lock_Time_keeps Unlock_keeps
      End_Release_keeps split: lock_stage.splits list.splits bool.splits if_splits\<close>)


lemma protocol_start_inv: "protocol_inv protocol_start"
  by (simp add: protocol_inv_def protocol_start_def owners_ok_def thread_ok_def floors_ok_def
      times_sorted_def events_ok_def)

lemma do_actions_keep: "do_actions as x = Some y \<Longrightarrow> protocol_inv x \<Longrightarrow> protocol_inv y"
  by (induction as x rule: do_actions.induct)
    (auto split: option.splits intro: do_action_keeps)

text \<open>The time of a lock never goes back.\<close>

lemma lock_time_increases:
  assumes inv: "protocol_inv x" and step: "do_action a x = Some y"
  shows "lock_time (bank_of x i) \<le> lock_time (bank_of y i)"
proof (cases a)
  case (Set_Lock_Time p)
  with step obtain j "is" where st: "l_stage (thread_of x p) = Giving (j # is)"
    by (auto simp: Let_def split: lock_stage.splits list.splits)
  with protocol_invD(2) [OF inv, of p] have "lock_time (bank_of x j) \<le> l_time (thread_of x p)"
    by (simp add: thread_ok_def)
  with step Set_Lock_Time st show ?thesis by (auto simp: Let_def update_thread_def)
qed (use step in \<open>auto simp: Let_def update_thread_def
      split: lock_stage.splits list.splits bool.splits if_splits\<close>)

section \<open>The order of the memory\<close>

text \<open>The time of the entry of an instruction, and the accesses that went to memory, in that
  order, with the locks and the times of those whose entry is written.\<close>

definition entry_time :: "protocol \<Rightarrow> mark \<Rightarrow> int option" where
  "entry_time x m =
     map_of (map (\<lambda>(n, t). ((m_thread n, m_instr n), t))
       (filter (\<lambda>(n, t). m_kind n = Traces) (events_of x))) (m_thread m, m_instr m)"

definition memory_times :: "protocol \<Rightarrow> (int list \<times> int) list" where
  "memory_times x =
     map (\<lambda>(m, t). (m_locks m, the (entry_time x m)))
       (filter (\<lambda>(m, t). m_kind m = Performs \<and> entry_time x m \<noteq> None) (events_of x))"

lemma entry_time_nth:
  assumes "entry_time x m = Some t"
  obtains i where "i < length (events_of x)" "m_kind (fst (events_of x ! i)) = Traces"
    "same (fst (events_of x ! i)) m" "snd (events_of x ! i) = t"
proof -
  from map_of_SomeD [OF assms [unfolded entry_time_def]] obtain n
    where "(n, t) \<in> set (events_of x)" "m_kind n = Traces" "same n m"
    by (auto simp: same_def)
  with that show thesis by (metis fst_conv in_set_conv_nth snd_conv)
qed

lemma performed_in_order:
  assumes inv: "protocol_inv x" and uv: "u < v" "v < length (events_of x)"
    and k: "m_kind (fst (events_of x ! u)) = Performs" "m_kind (fst (events_of x ! v)) = Performs"
    and t: "entry_time x (fst (events_of x ! u)) = Some t" "entry_time x (fst (events_of x ! v)) = Some t'"
    and sh: "share (fst (events_of x ! u)) (fst (events_of x ! v))"
  shows "t < t'"
proof -
  let ?ms = "map fst (events_of x)"
  have ok: "marks_ok (\<lambda>p. inside (thread_of x p)) (\<lambda>p. l_count (thread_of x p))
      (\<lambda>p. l_list (thread_of x p)) ?ms"
    using protocol_invD(5) [OF inv] by (simp add: events_ok_def)
  from t(1) obtain i where i: "i < length ?ms" "m_kind (?ms ! i) = Traces" "same (?ms ! i) (?ms ! u)"
    "snd (events_of x ! i) = t"
    using uv by (elim entry_time_nth) simp
  from t(2) obtain j where j: "j < length ?ms" "m_kind (?ms ! j) = Traces" "same (?ms ! j) (?ms ! v)"
    "snd (events_of x ! j) = t'"
    using uv by (elim entry_time_nth) simp
  have uv': "?ms ! u \<in> set ?ms" "?ms ! v \<in> set ?ms" using uv by simp_all
  have ne: "\<not> same (?ms ! u) (?ms ! v)"
  proof
    assume "same (?ms ! u) (?ms ! v)"
    with k uv have "key_of (?ms ! u) = key_of (?ms ! v)" by (simp add: key_of_def same_def)
    with marks_okD(5) [OF ok] uv show False
      by (auto simp: distinct_conv_nth dest!: spec [of _ u])
  qed
  have "m_locks (?ms ! i) = m_locks (?ms ! u)"
    by (rule marks_okD(4) [OF ok _ _ i(3)]) (use i uv in simp_all)
  moreover have "m_locks (?ms ! j) = m_locks (?ms ! v)"
    by (rule marks_okD(4) [OF ok _ _ j(3)]) (use j uv in simp_all)
  ultimately have sh': "share (?ms ! i) (?ms ! j)" using sh uv by (simp add: share_def)
  have ne': "\<not> same (?ms ! i) (?ms ! j)" "\<not> same (?ms ! j) (?ms ! i)"
    using ne i(3) j(3) by (auto simp: same_def)
  consider "i < j" | "i = j" | "j < i" by linarith
  then show ?thesis
  proof cases
    case 1
    with protocol_invD(4) [OF inv] i j sh' show ?thesis
      by (auto simp: times_sorted_def sorted_wrt_iff_nth_less)
  next
    case 2
    with ne' show ?thesis by simp
  next
    case 3
    have "v < u"
      by (rule marks_ordered [OF ok 3 i(1) share_sym [OF sh'] ne'(2), of v u])
        (use uv i j k in \<open>simp_all add: same_sym\<close>)
    with uv(1) show ?thesis by simp
  qed
qed

lemma memory_times_sorted:
  assumes "protocol_inv x"
  shows "sorted_wrt (\<lambda>(l, t) (l', t'). set l \<inter> set l' \<noteq> {} \<longrightarrow> t < t') (memory_times x)"
proof -
  have "sorted_wrt (\<lambda>e e'. \<forall>t t'. m_kind (fst e) = Performs \<longrightarrow> m_kind (fst e') = Performs \<longrightarrow>
      entry_time x (fst e) = Some t \<longrightarrow> entry_time x (fst e') = Some t' \<longrightarrow> share (fst e) (fst e') \<longrightarrow>
      t < t') (events_of x)"
    unfolding sorted_wrt_iff_nth_less using performed_in_order [OF assms] by blast
  note sorted_wrt_filter [OF this, of "\<lambda>(m, t). m_kind m = Performs \<and> entry_time x m \<noteq> None"]
  then show ?thesis
    unfolding memory_times_def sorted_wrt_map
    by (rule sorted_wrt_mono_rel [rotated]) (auto simp: share_def)
qed


section \<open>The routines are uninterrupted steps\<close>

text \<open>
  \<open>lock_all\<close> and \<open>unlock_all\<close> of \<open>Handlers\<close>, which take and give back all locks of an instruction
  at once, are these steps with nothing in between.
\<close>

lemma do_actions_append:
  "do_actions (as @ bs) x = (case do_actions as x of None \<Rightarrow> None | Some y \<Rightarrow> do_actions bs y)"
  by (induction as x rule: do_actions.induct) (auto split: option.splits)

lemma lock_all_steps:
  assumes "lock_all p is m s = Inr (t, s')" and "bank_of x = address_lock_bank s"
    and "l_stage (thread_of x p) = Taking is" "l_max (thread_of x p) = m"
  shows "do_actions (replicate (length is) (Take_Lock p)) x =
    Some (update_thread p ((thread_of x p)\<lparr>l_stage := Taking [], l_max := t\<rparr>)
      (x\<lparr>bank_of := address_lock_bank s'\<rparr>))"
  using assms
proof (induction "is" arbitrary: m s x)
  case Nil
  then have "(thread_of x p)\<lparr>l_stage := Taking [], l_max := t\<rparr> = thread_of x p"
    "x\<lparr>bank_of := address_lock_bank s'\<rparr> = x" by simp_all
  then show ?case by (simp add: update_thread_def)
next
  case (Cons i "is")
  let ?s = "s\<lparr>address_lock_bank := (address_lock_bank s)
      (i := (address_lock_bank s i)\<lparr>lock_owner := Some p\<rparr>)\<rparr>"
  let ?m = "if lock_time (address_lock_bank s i) < m then m else lock_time (address_lock_bank s i)"
  let ?x = "update_thread p ((thread_of x p)\<lparr>l_stage := Taking is, l_max := ?m\<rparr>)
      (x\<lparr>bank_of := address_lock_bank ?s\<rparr>)"
  from Cons.prems(1) have free: "lock_owner (address_lock_bank s i) = None"
    and run: "lock_all p is ?m ?s = Inr (t, s')"
    by (auto simp: andThen_Inr lock_address_def split: if_splits)
  have "do_action (Take_Lock p) x = Some ?x"
    using free Cons.prems(2-4) by (simp add: Let_def)
  moreover have "do_actions (replicate (length is) (Take_Lock p)) ?x =
      Some (update_thread p ((thread_of ?x p)\<lparr>l_stage := Taking [], l_max := t\<rparr>)
        (?x\<lparr>bank_of := address_lock_bank s'\<rparr>))"
    by (rule Cons.IH [OF run]) (simp_all add: update_thread_def)
  ultimately show ?case by (simp add: update_thread_def)
qed

lemma unlock_all_steps:
  assumes "unlock_all p (l_time (thread_of x p)) is s = Inr s'" and "bank_of x = address_lock_bank s"
    and "l_stage (thread_of x p) = Giving is"
  shows "do_actions (concat (replicate (length is) [Set_Lock_Time p, Unlock p])) x =
    Some (update_thread p ((thread_of x p)\<lparr>l_stage := Giving []\<rparr>)
      (x\<lparr>bank_of := address_lock_bank s'\<rparr>))"
  using assms
proof (induction "is" arbitrary: s x)
  case Nil
  then have "(thread_of x p)\<lparr>l_stage := Giving []\<rparr> = thread_of x p"
    "x\<lparr>bank_of := address_lock_bank s'\<rparr> = x" by simp_all
  then show ?case by (simp add: update_thread_def)
next
  case (Cons i "is")
  let ?t = "l_time (thread_of x p)"
  let ?s = "s\<lparr>address_lock_bank := (address_lock_bank s)
      (i := (address_lock_bank s i)\<lparr>lock_time := ?t, lock_owner := None\<rparr>)\<rparr>"
  let ?x = "update_thread p ((thread_of x p)\<lparr>l_stage := Giving is\<rparr>)
      (x\<lparr>bank_of := address_lock_bank ?s\<rparr>)"
  from Cons.prems(1) have run: "unlock_all p ?t is ?s = Inr s'"
    by (auto simp: andThen_Inr unlock_address_def split: if_splits)
  have one: "do_actions [Set_Lock_Time p, Unlock p] x = Some ?x"
    using Cons.prems(2,3) by (simp add: Let_def update_thread_def)
  have rest: "do_actions (concat (replicate (length is) [Set_Lock_Time p, Unlock p])) ?x =
      Some (update_thread p ((thread_of ?x p)\<lparr>l_stage := Giving []\<rparr>)
        (?x\<lparr>bank_of := address_lock_bank s'\<rparr>))"
    by (rule Cons.IH [where s = ?s]) (use run in \<open>simp_all add: update_thread_def\<close>)
  have all: "concat (replicate (length (i # is)) [Set_Lock_Time p, Unlock p]) =
      [Set_Lock_Time p, Unlock p] @ concat (replicate (length is) [Set_Lock_Time p, Unlock p])"
    by simp
  show ?case
    unfolding all do_actions_append one option.case rest by (simp add: update_thread_def)
qed

section \<open>The order, one mutex operation at a time\<close>

text \<open>
  Two threads whose accesses share lock 4: the second waits for it, takes it as soon as it is given
  back, while the first still has to end its release, in which its timestamp was raised twice.
\<close>

definition two_accesses :: "lock_action list" where
  "two_accesses =
     [List_Locks 0 [3, 4], List_Locks 1 [4, 5], Take_Lock 0, Take_Lock 0, Have_Locks 0, Write_Entry 0,
      Raise_Time 0 5, Go_To_Memory 0, Start_Release 0, Set_Lock_Time 0, Unlock 0, Raise_Time 0 7,
      Set_Lock_Time 0, Unlock 0, Take_Lock 1, End_Release 0, Take_Lock 1, Have_Locks 1, Go_To_Memory 1,
      Write_Entry 1]"

lemma two_accesses_run:
  "\<exists>x. do_actions two_accesses protocol_start = Some x \<and> memory_times x = [([3, 4], 1), ([4, 5], 8)]"
  by (simp add: two_accesses_def protocol_start_def Let_def update_thread_def new_mark_def next_time_def
      memory_times_def entry_time_def)

text \<open>C5. One mutex operation at a time, with any interleaving in between, the trace still has the
  order of the memory: whatever the threads do between two locks of an instruction, and though the
  release reads the timestamp of the thread while others may raise it, accesses that share a
  lock are traced at times that increase in the order in which they went to memory; and the next step
  of any thread takes the time of no lock back.\<close>

theorem stepwise_order:
  assumes "do_actions as protocol_start = Some x"
  shows "sorted_wrt (\<lambda>(l, t) (l', t'). set l \<inter> set l' \<noteq> {} \<longrightarrow> t < t') (memory_times x) \<and>
    (\<forall>a y. do_action a x = Some y \<longrightarrow> lock_time (bank_of x i) \<le> lock_time (bank_of y i))"
  using memory_times_sorted lock_time_increases do_actions_keep [OF assms protocol_start_inv] by blast

theorem stepwise_order_witness:
  "\<exists>x. do_actions two_accesses protocol_start = Some x \<and> memory_times x = [([3, 4], 1), ([4, 5], 8)] \<and>
     sorted_wrt (\<lambda>(l, t) (l', t'). set l \<inter> set l' \<noteq> {} \<longrightarrow> t < t') (memory_times x)"
  using two_accesses_run stepwise_order by blast

end
