(* ===== verification/Mutex_State.thy ===== *)
theory Mutex_State
  imports Mutex_Progress Executions
begin

text \<open>
  The two views of a routine of \<open>src/trace/trace.cpp\<close> brought together: what \<open>Handlers\<close> makes it do to
  the state in one step, and which mutexes it takes and gives back meanwhile (\<open>Mutex_Order\<close>). The
  findings on which the second depends are computed here from the state of the first.
\<close>

section \<open>The findings of a state\<close>

text \<open>
  The time and the state with which a routine calls \<open>touch_buffer\<close>: the entry is in the stream of
  the thread, the rest of the routine is still to come.
\<close>

definition add_entry :: "int \<Rightarrow> event \<Rightarrow> int \<Rightarrow> 'b tracer \<Rightarrow> (int \<times> 'b tracer) result" where
  "add_entry p ev time s =
     andThen (get_tls s p) (\<lambda>td. Inr (time,
       set_tls p (td\<lparr>trace_stream := trace_stream td @ [(time, user_threadid td, ev)]\<rparr>) s))"

definition add_synchronised :: "int \<Rightarrow> event \<Rightarrow> 'b tracer \<Rightarrow> (int \<times> 'b tracer) result" where
  "add_synchronised p ev s = andThen (acquire_all_thread_locks s) (\<lambda>t. add_entry p ev (t + 1) s)"

definition add_function :: "int \<Rightarrow> event \<Rightarrow> 'b tracer \<Rightarrow> (int \<times> 'b tracer) result" where
  "add_function p ev s =
     andThen (get_tls s p) (\<lambda>td.
     andThen (if 0 \<le> user_threadid td then Inr (lamport_timestamp td) else acquire_all_thread_locks s)
       (\<lambda>t. add_entry p ev (t + 1) (set_tls p (td\<lparr>lamport_timestamp := t + 1\<rparr>) s)))"

fun before_touch :: "call \<Rightarrow> 'b tracer \<Rightarrow> (int \<times> 'b tracer) result" where
  "before_touch (Footer p) s =
     andThen (get_tls s p) (\<lambda>td. add_entry p (access_event td) (access_time td) s)"
| "before_touch (Call name p sp a b c) s =
     andThen (release_address_locks p s) (add_function p (Function_Call name sp a b c))"
| "before_touch (Return name p sp v) s =
     andThen (release_address_locks p s) (add_function p (Function_Return name sp v))"
| "before_touch (Roi p b name) s =
     andThen (release_address_locks p s) (\<lambda>s1. add_synchronised p (Change_Roi name) (s1\<lparr>in_roi := b\<rparr>))"
| "before_touch (Register p uid) s =
     andThen (release_address_locks p s) (\<lambda>s1.
     andThen (get_tls s1 p) (\<lambda>td.
       add_synchronised p Thread_Register (set_tls p (td\<lparr>user_threadid := uid\<rparr>) s1)))"
| "before_touch (Start g uid p) s =
     add_synchronised p Thread_Register
       (set_tls p ((new_thread_data g)\<lparr>user_threadid := uid\<rparr>) (s\<lparr>num_threads := num_threads s + 1\<rparr>))"
| "before_touch (Fini p) s = andThen (release_address_locks p s) (add_synchronised p Thread_Finish)"
| "before_touch (Ctxt_Change p) s =
     andThen (release_address_locks p s) (\<lambda>s1.
     andThen (get_tls s1 p) (\<lambda>td. add_entry p Context_Change (lamport_timestamp td + 1) s1))"
| "before_touch c s = Inl (Undefined ''no entry'')"

text \<open>
  The threads that \<open>attempt_flush_others\<close> visits: those still running, with whether it writes
  their buffer.
\<close>

fun flush_visits :: "'b bimap_ops \<Rightarrow> int \<Rightarrow> int list \<Rightarrow> 'b tracer \<Rightarrow> (int \<times> bool) list" where
  "flush_visits bm time [] s = []"
| "flush_visits bm time (q # qs) s =
     (case tls s q of
        Some td \<Rightarrow>
          (if q \<in> set (pin_threadid_set s)
           then [(q, lagging s (time - lamport_timestamp td) \<and>
                     0 < buffered_entries (sync_thread time td))] else [])
      | None \<Rightarrow> []) @
     (case attempt_flush_one bm time q s of Inl e \<Rightarrow> [] | Inr s1 \<Rightarrow> flush_visits bm time qs s1)"

text \<open>Does \<open>touch_buffer\<close> flush because the buffer is full, and whom does it visit then?\<close>

definition buffer_full :: "int \<Rightarrow> 'b tracer \<Rightarrow> bool" where
  "buffer_full p s =
     (case tls s p of None \<Rightarrow> False | Some td \<Rightarrow> accesses_flush s \<le> buffered_entries td + 1)"

definition flushed_state :: "'b bimap_ops \<Rightarrow> int \<Rightarrow> int \<Rightarrow> 'b tracer \<Rightarrow> (int list \<times> 'b tracer) result" where
  "flushed_state bm p time s =
     andThen (get_tls s p) (\<lambda>td.
     andThen (write_file (trace_stream td) s) (\<lambda>s1.
     andThen
       (check_last_flushed bm time
         (s1\<lparr>last_flushed := bm_insert bm p time (bm_erase bm p (last_flushed s1))\<rparr>))
       (\<lambda>(ps, s2). Inr (ps, set_tls p
          (td\<lparr>lamport_timestamp := time, buffered_entries := 0, trace_stream := [],
              flush_others := ps\<rparr>) s2))))"

definition touch_visits :: "'b bimap_ops \<Rightarrow> int \<Rightarrow> int \<Rightarrow> bool \<Rightarrow> 'b tracer \<Rightarrow> (int \<times> bool) list" where
  "touch_visits bm p time force s =
     (if buffer_full p s \<or> force then
        (case flushed_state bm p time s of
           Inl e \<Rightarrow> []
         | Inr (ps, s1) \<Rightarrow> flush_visits bm time ps s1)
      else [])"

fun forced :: "call \<Rightarrow> 'b tracer \<Rightarrow> bool" where
  "forced (Footer p) s = False"
| "forced (Ctxt_Change p) s = False"
| "forced (Call name p sp a b c) s =
     (case tls s p of None \<Rightarrow> False | Some td \<Rightarrow> user_threadid td < 0)"
| "forced (Return name p sp v) s =
     (case tls s p of None \<Rightarrow> False | Some td \<Rightarrow> user_threadid td < 0)"
| "forced c s = True"

text \<open>Does \<open>thread_fini_a\<close> find entries in the buffer of its thread at the end?\<close>

definition fini_entries :: "'b bimap_ops \<Rightarrow> int \<Rightarrow> 'b tracer \<Rightarrow> bool" where
  "fini_entries bm p s =
     (case andThen (release_address_locks p s) (\<lambda>s1.
           andThen (get_tls s1 p) (\<lambda>td.
           andThen (if 0 \<le> user_threadid td then trace_synchronised bm p Thread_Finish s1 else Inr s1)
             (\<lambda>s2. get_tls s2 p))) of
        Inl e \<Rightarrow> False
      | Inr td \<Rightarrow> 0 < buffered_entries td)"

definition findings_of :: "'b bimap_ops \<Rightarrow> call \<Rightarrow> 'b tracer \<Rightarrow> findings" where
  "findings_of bm c s =
     \<lparr>access_traced = tracing (caller c) s,
      locking = \<not> turn_off_locks s,
      wanted = (case tls s (caller c) of None \<Rightarrow> [] | Some td \<Rightarrow> needed_indices s td),
      is_registered = (case tls s (caller c) of None \<Rightarrow> False | Some td \<Rightarrow> 0 \<le> user_threadid td),
      registering = register_threads s,
      running = pin_threadid_set s,
      flushes = (case before_touch c s of Inl e \<Rightarrow> False | Inr (t, s1) \<Rightarrow> buffer_full (caller c) s1),
      visited = (case before_touch c s of
          Inl e \<Rightarrow> [] | Inr (t, s1) \<Rightarrow> touch_visits bm (caller c) t (forced c s) s1),
      entries_left = (case c of Fini p \<Rightarrow> fini_entries bm p s | _ \<Rightarrow> False)\<rparr>"

text \<open>The mutex operations of a call in a state.\<close>

definition script_of :: "'b bimap_ops \<Rightarrow> call \<Rightarrow> 'b tracer \<Rightarrow> action list" where
  "script_of bm c s = call_mutexes c (findings_of bm c s) (held s (caller c))"


section \<open>Changes under a mutex\<close>

text \<open>
  Every change from one state to the other to data that threads share is under a mutex in \<open>M\<close>, as the
  comments at the declarations ask (lines 94 to 121, 135 to 139 and 296): of the
  buffer and the timestamp of a thread under the mutex of that thread, of the trace file, \<open>last_flushed\<close>
  and its cache under \<open>file_lock\<close>, of the set of threads under \<open>thread_start_fini_lock\<close>, of an address
  lock under its own. The other members of a thread are only used by the thread itself.
\<close>

definition shared :: "thread_data \<Rightarrow> int \<times> entry list \<times> int" where
  "shared td = (lamport_timestamp td, trace_stream td, buffered_entries td)"

definition guarded :: "mutex set \<Rightarrow> 'b tracer \<Rightarrow> 'b tracer \<Rightarrow> bool" where
  "guarded M s s' \<longleftrightarrow>
     (\<forall>q. Thread q \<in> M \<or> map_option shared (tls s' q) = map_option shared (tls s q)) \<and>
     (File \<in> M \<or> trace_file s' = trace_file s \<and> last_flushed s' = last_flushed s \<and>
        last_flushed_cache s' = last_flushed_cache s) \<and>
     (Start_Fini \<in> M \<or> pin_threadid_set s' = pin_threadid_set s \<and> num_threads s' = num_threads s) \<and>
     (\<forall>i. Address i \<in> M \<or> address_lock_bank s' i = address_lock_bank s i)"

named_theorems guarded_intro \<open>steps of the routines that change shared data under mutexes\<close>

lemma guarded_refl [simp, guarded_intro]: "guarded M s s"
  by (simp add: guarded_def)

lemma guarded_trans: "guarded M s t \<Longrightarrow> guarded M t u \<Longrightarrow> guarded M s u"
  unfolding guarded_def by metis

lemma guarded_mono: "guarded M s t \<Longrightarrow> M \<subseteq> N \<Longrightarrow> guarded N s t"
  unfolding guarded_def by blast

lemma guarded_set_tls [guarded_intro]:
  "Thread p \<in> M \<or> map_option shared (tls s p) = Some (shared td) \<Longrightarrow> guarded M s (set_tls p td s)"
  by (auto simp: guarded_def set_tls_def)

lemma guarded_set_tls2:
  "Thread p \<in> M \<Longrightarrow> guarded M s t \<Longrightarrow> guarded M s (set_tls p td t)"
  by (auto simp: guarded_def set_tls_def)

lemma shared_simps [simp]:
  "shared (td\<lparr>index_lock_list := l\<rparr>) = shared td"
  "shared (td\<lparr>max_locked_timestamp := t\<rparr>) = shared td"
  "shared (td\<lparr>user_threadid := u\<rparr>) = shared td"
  "shared (td\<lparr>is_write := b\<rparr>) = shared td"
  by (simp_all add: shared_def)

lemma release_guarded:
  assumes "release_address_locks p s = Inr s'"
  shows "guarded (addresses (held s p)) s s'"
proof -
  obtain td where td: "tls s p = Some td"
    and s': "s' = set_tls p (td\<lparr>index_lock_list := []\<rparr>)
       (s\<lparr>address_lock_bank :=
          freed (index_lock_list td) (lamport_timestamp td) (address_lock_bank s)\<rparr>)"
    using assms by (rule release_result)
  show ?thesis
    using td by (auto simp: guarded_def s' set_tls_def addresses_def held_def freed_def)
qed

lemma release_others:
  assumes "release_address_locks p s = Inr s'"
  shows "held s' p = []" "tracing q s' = tracing q s" "turn_off_locks s' = turn_off_locks s"
    "pin_threadid_set s' = pin_threadid_set s" "register_threads s' = register_threads s"
    "map_option user_threadid (tls s' q) = map_option user_threadid (tls s q)"
  using assms
  by (auto elim!: release_result simp: set_tls_def held_def tracing_def split: if_splits)

lemma attempt_flush_one_guarded:
  assumes run: "attempt_flush_one bm time q s = Inr s'"
    and M: "\<And>td. q \<in> set (pin_threadid_set s) \<Longrightarrow> tls s q = Some td \<Longrightarrow> Thread q \<in> M \<and>
      (lagging s (time - lamport_timestamp td) \<and> 0 < buffered_entries (sync_thread time td) \<longrightarrow> File \<in> M)"
  shows "guarded M s s'"
proof (cases "q \<in> set (pin_threadid_set s)")
  case mem: True
  with run obtain td where td: "tls s q = Some td" by (auto simp: attempt_flush_one_def andThen_Inr get_tls_Inr)
  note m = M [OF mem td]
  then have q: "Thread q \<in> M" by simp
  let ?lag = "lagging s (time - lamport_timestamp td)" and ?some = "0 < buffered_entries (sync_thread time td)"
  consider "?lag" "?some" | "?lag" "\<not> ?some" | "\<not> ?lag" by blast
  then show ?thesis
  proof cases
    case 1
    with m have "File \<in> M" by simp
    with run td mem 1 q show ?thesis
      by (auto simp: attempt_flush_one_def Let_def andThen_Inr write_file_Inr guarded_def set_tls_def
          split: if_splits)
  next
    case 2
    with run td mem q show ?thesis
      by (auto simp: attempt_flush_one_def Let_def guarded_def set_tls_def split: if_splits)
  next
    case 3
    with run td mem show ?thesis by (auto simp: attempt_flush_one_def Let_def)
  qed
qed (use run in \<open>simp add: attempt_flush_one_def\<close>)

lemma attempt_flush_others_guarded:
  assumes "attempt_flush_others bm time qs s = Inr s'"
    and "\<And>q w. (q, w) \<in> set (flush_visits bm time qs s) \<Longrightarrow> Thread q \<in> M \<and> (w \<longrightarrow> File \<in> M)"
  shows "guarded M s s'"
  using assms
proof (induction qs arbitrary: s)
  case (Cons q qs)
  from Cons.prems(1) obtain s1 where one: "attempt_flush_one bm time q s = Inr s1"
    and more: "attempt_flush_others bm time qs s1 = Inr s'"
    by (auto simp: andThen_Inr)
  have "guarded M s s1"
    by (rule attempt_flush_one_guarded [OF one], rule Cons.prems(2)) simp
  moreover have "Thread r \<in> M \<and> (w \<longrightarrow> File \<in> M)" if "(r, w) \<in> set (flush_visits bm time qs s1)" for r w
    by (rule Cons.prems(2)) (use one that in simp)
  then have "guarded M s1 s'" by (rule Cons.IH [OF more])
  ultimately show ?case by (rule guarded_trans)
qed simp

lemma touch_buffer_guarded:
  assumes run: "touch_buffer bm p time force s = Inr s'" and p: "Thread p \<in> M"
    and fl: "buffer_full p s \<or> force \<Longrightarrow> File \<in> M"
    and vs: "\<And>q w. (q, w) \<in> set (touch_visits bm p time force s) \<Longrightarrow> Thread q \<in> M"
  shows "guarded M s s'"
proof -
  from run obtain td where td: "tls s p = Some td"
    by (auto simp: touch_buffer_def andThen_Inr get_tls_Inr)
  show ?thesis
  proof (cases "buffer_full p s \<or> force")
    case False
    with run td have "s' = set_tls p (td\<lparr>lamport_timestamp := time, flush_others := [],
        buffered_entries := buffered_entries td + 1\<rparr>) s"
      by (auto simp: touch_buffer_def Let_def buffer_full_def)
    with p show ?thesis by (simp add: guarded_set_tls)
  next
    case True
    with run td obtain s1 ps s2 where w: "write_file (trace_stream td) s = Inr s1"
      and ch: "check_last_flushed bm time
        (s1\<lparr>last_flushed := bm_insert bm p time (bm_erase bm p (last_flushed s1))\<rparr>) = Inr (ps, s2)"
      and more: "s' = set_tls p (td\<lparr>lamport_timestamp := time, buffered_entries := 0, trace_stream := [],
            flush_others := ps\<rparr>) s2 \<and> ps = [] \<or>
          attempt_flush_others bm time ps (set_tls p
            (td\<lparr>lamport_timestamp := time, buffered_entries := 0, trace_stream := [],
                flush_others := ps\<rparr>) s2) = Inr s'"
      by (auto simp: touch_buffer_def Let_def buffer_full_def andThen_Inr split: if_splits)
    let ?s = "set_tls p (td\<lparr>lamport_timestamp := time, buffered_entries := 0, trace_stream := [],
        flush_others := ps\<rparr>) s2"
    have st: "flushed_state bm p time s = Inr (ps, ?s)"
      using td w ch by (simp add: flushed_state_def)
    have f: "File \<in> M" by (rule fl [OF True])
    have "guarded M s s1" using w f by (auto simp: write_file_Inr guarded_def)
    moreover have "guarded M s1 s2"
      using ch f
      by (auto simp: check_last_flushed_def guarded_def Let_def split: if_splits list.splits prod.splits)
    ultimately have "guarded M s ?s" using p by (metis guarded_set_tls guarded_trans)
    moreover have "guarded M ?s s'" if "attempt_flush_others bm time ps ?s = Inr s'"
      by (rule attempt_flush_others_guarded [OF that])
        (use vs True st f in \<open>fastforce simp: touch_visits_def\<close>)
    ultimately show ?thesis using more guarded_trans by blast
  qed
qed


text \<open>What holds when a routine has put its entry into the stream of its thread.\<close>

lemma set_thread_times_guarded:
  "set_thread_times ps t s = Inr s' \<Longrightarrow> (\<And>q. q \<in> set ps \<Longrightarrow> Thread q \<in> M) \<Longrightarrow> guarded M s s'"
proof (induction ps arbitrary: s)
  case (Cons q qs)
  from Cons.prems(1) obtain td where
    "set_thread_times qs t (set_tls q (td\<lparr>lamport_timestamp := t\<rparr>) s) = Inr s'"
    by (auto simp: andThen_Inr)
  from Cons.IH [OF this] Cons.prems(2) guarded_set_tls [of q M s] guarded_trans show ?case
    by (metis list.set_intros)
qed simp

lemma add_entry_then_touch:
  assumes add: "add_entry p ev time s = Inr (t, s1)" and run: "touch_buffer bm p t force s1 = Inr s'"
    and p: "Thread p \<in> M" and fl: "buffer_full p s1 \<or> force \<Longrightarrow> File \<in> M"
    and vs: "\<And>q w. (q, w) \<in> set (touch_visits bm p t force s1) \<Longrightarrow> Thread q \<in> M"
  shows "guarded M s s'"
proof -
  from add obtain td where "s1 = set_tls p td s" by (auto simp: add_entry_def andThen_Inr)
  with p have "guarded M s s1" by (simp add: guarded_set_tls)
  moreover have "guarded M s1 s'" using run p fl vs by (rule touch_buffer_guarded)
  ultimately show ?thesis by (rule guarded_trans)
qed

lemma trace_synchronised_entry:
  assumes "trace_synchronised bm p ev s = Inr s'"
  obtains t s1 s2 where "add_synchronised p ev s = Inr (t, s1)" "touch_buffer bm p t True s1 = Inr s2"
    "set_thread_times (pin_threadid_set s2) t s2 = Inr s'"
  using assms
  by (auto simp: trace_synchronised_def add_synchronised_def add_entry_def andThen_Inr get_tls_Inr
      Let_def release_all_thread_locks_def)

lemma flush_visits_running:
  "(q, w) \<in> set (flush_visits bm time qs s) \<Longrightarrow> q \<in> set (pin_threadid_set s)"
proof (induction qs arbitrary: s)
  case (Cons r qs)
  have "pin_threadid_set s1 = pin_threadid_set s" if "attempt_flush_one bm time r s = Inr s1" for s1
    using that
    by (auto simp: attempt_flush_one_def andThen_Inr Let_def write_file_Inr set_tls_def split: if_splits)
  moreover have "q \<in> set (pin_threadid_set s1)"
    if "attempt_flush_one bm time r s = Inr s1" "(q, w) \<in> set (flush_visits bm time qs s1)" for s1
    by (rule Cons.IH [OF that(2)])
  ultimately show ?case
    using Cons.prems by (cases "attempt_flush_one bm time r s") (auto split: option.splits if_splits)
qed simp


lemma touch_visits_running:
  assumes "(q, w) \<in> set (touch_visits bm p t force s)"
  shows "q \<in> set (pin_threadid_set s)"
proof -
  let ?r = "flushed_state bm p t s"
  have c: "buffer_full p s \<or> force"
  proof (rule ccontr)
    assume n: "\<not> (buffer_full p s \<or> force)"
    from assms show False unfolding touch_visits_def if_not_P [OF n] by simp
  qed
  note v0 = assms [unfolded touch_visits_def if_P [OF c]]
  then obtain r where r: "?r = Inr r" by (cases ?r) simp_all
  obtain ps s1 where p: "r = (ps, s1)" by fastforce
  note f = r [unfolded p]
  from v0 have v: "(q, w) \<in> set (flush_visits bm t ps s1)" unfolding f by simp
  from f obtain td s2 y where w: "write_file (trace_stream td) s = Inr s2"
    and ch: "check_last_flushed bm t
      (s2\<lparr>last_flushed := bm_insert bm p t (bm_erase bm p (last_flushed s2))\<rparr>) = Inr y"
    and e: "(\<lambda>(qs, s3). Inr (qs, set_tls p (td\<lparr>lamport_timestamp := t, buffered_entries := 0,
      trace_stream := [], flush_others := qs\<rparr>) s3) :: (int list \<times> 'a tracer) result) y = Inr (ps, s1)"
    unfolding flushed_state_def andThen_Inr by blast
  obtain qs s3 where y: "y = (qs, s3)" by fastforce
  from e have s1: "pin_threadid_set s1 = pin_threadid_set s3"
    unfolding y by (auto simp: set_tls_def)
  have "pin_threadid_set s3 = pin_threadid_set s2"
    using kept_static(6) [OF conjunct1 [OF check_last_flushed_kept [OF ch [unfolded y]]]] by simp
  with w s1 have "pin_threadid_set s1 = pin_threadid_set s" by (auto simp: write_file_Inr)
  with flush_visits_running [OF v] show ?thesis by simp
qed

lemma touch_buffer_running:
  assumes "touch_buffer bm p t force s = Inr s'"
  shows "pin_threadid_set s' = pin_threadid_set s"
  using touch_buffer_guarded [OF assms, of "{m. m \<noteq> Start_Fini}"] by (simp add: guarded_def)

lemma synchronised_guarded:
  assumes run: "trace_synchronised bm p ev s = Inr s'" and p: "Thread p \<in> M" and f: "File \<in> M"
    and all: "\<And>q. q \<in> set (pin_threadid_set s) \<Longrightarrow> Thread q \<in> M"
  shows "guarded M s s'"
proof -
  from run obtain t s1 s2 where a: "add_synchronised p ev s = Inr (t, s1)"
    and b: "touch_buffer bm p t True s1 = Inr s2"
    and c: "set_thread_times (pin_threadid_set s2) t s2 = Inr s'"
    by (rule trace_synchronised_entry)
  from a have p1: "pin_threadid_set s1 = pin_threadid_set s"
    by (auto simp: add_synchronised_def add_entry_def andThen_Inr set_tls_def)
  from a obtain u where e: "add_entry p ev u s = Inr (t, s1)"
    by (auto simp: add_synchronised_def andThen_Inr)
  have "guarded M s s2"
    by (rule add_entry_then_touch [OF e b p f]) (metis touch_visits_running all p1)
  moreover have "guarded M s2 s'"
    by (rule set_thread_times_guarded [OF c]) (use touch_buffer_running [OF b] p1 all in simp)
  ultimately show ?thesis by (rule guarded_trans)
qed

lemma trace_function_entry:
  assumes run: "trace_function bm p ev s = Inr s'" and td: "tls s p = Some td"
  obtains t s1 s2 where "add_function p ev s = Inr (t, s1)"
    "touch_buffer bm p t (\<not> 0 \<le> user_threadid td) s1 = Inr s2"
    "if 0 \<le> user_threadid td then s' = s2 else set_thread_times (pin_threadid_set s2) t s2 = Inr s'"
  using assms
  by (auto simp: trace_function_def add_function_def add_entry_def andThen_Inr Let_def set_tls_def
      release_all_thread_locks_def split: if_splits)

lemma function_guarded:
  assumes run: "trace_function bm p ev s = Inr s'" and td: "tls s p = Some td"
    and p: "Thread p \<in> M"
    and reg: "\<And>t s1. 0 \<le> user_threadid td \<Longrightarrow> add_function p ev s = Inr (t, s1) \<Longrightarrow>
      (buffer_full p s1 \<longrightarrow> File \<in> M) \<and> (\<forall>(q, w) \<in> set (touch_visits bm p t False s1). Thread q \<in> M)"
    and unreg: "user_threadid td < 0 \<Longrightarrow>
      File \<in> M \<and> (\<forall>q \<in> set (pin_threadid_set s). Thread q \<in> M)"
  shows "guarded M s s'"
proof -
  let ?r = "0 \<le> user_threadid td"
  from run td obtain t s1 s2 where a: "add_function p ev s = Inr (t, s1)"
    and b: "touch_buffer bm p t (\<not> ?r) s1 = Inr s2"
    and c: "if ?r then s' = s2 else set_thread_times (pin_threadid_set s2) t s2 = Inr s'"
    by (rule trace_function_entry)
  from a td obtain td1 where s1: "s1 = set_tls p td1 s"
    by (auto simp: add_function_def add_entry_def andThen_Inr set_tls_def split: if_splits)
  then have p1: "pin_threadid_set s1 = pin_threadid_set s" by (simp add: set_tls_def)
  have vs: "Thread q \<in> M" if "(q, w) \<in> set (touch_visits bm p t (\<not> ?r) s1)" for q w
    using that reg [OF _ a] unreg touch_visits_running [OF that] p1 by (cases ?r) auto
  have "guarded M s s1" using p by (simp add: s1 guarded_set_tls)
  moreover have "guarded M s1 s2"
    by (rule touch_buffer_guarded [OF b p _ vs]) (use reg [OF _ a] unreg in \<open>cases ?r; auto\<close>)
  moreover have "guarded M s2 s'"
  proof (cases ?r)
    case False
    with c set_thread_times_guarded [of "pin_threadid_set s2" t s2 s' M] unreg touch_buffer_running [OF b] p1
    show ?thesis by auto
  qed (use c in simp)
  ultimately show ?thesis using guarded_trans by blast
qed


section \<open>Every routine\<close>

text \<open>The mutexes a list of operations takes.\<close>

definition takes :: "action list \<Rightarrow> mutex set" where
  "takes as = {m. Take m \<in> set as}"

lemma takes_simps [simp]:
  "takes [] = {}" "takes (Take m # as) = insert m (takes as)" "takes (Give m # as) = takes as"
  "takes (as @ bs) = takes as \<union> takes bs"
  "takes (in_section b m as) = (if b then {m} else {}) \<union> takes as"
  "takes (map (\<lambda>i. Take (Thread i)) ps) = Thread ` set ps"
  "takes (map (\<lambda>i. Take (Address i)) ps) = Address ` set ps"
  "takes (map (\<lambda>i. Give (Thread i)) ps) = {}"
  by (auto simp: takes_def in_section_def)

lemma takes_flush: "takes (flush_mutexes all qs) = (if all then {} else Thread ` fst ` set qs) \<union>
    (if \<exists>q. (q, True) \<in> set qs then {File} else {})"
  by (induction all qs rule: flush_mutexes.induct) auto

lemma takes_touch:
  assumes "flushes f \<or> force"
  shows "File \<in> takes (touch_mutexes p force all f)"
    "\<not> all \<Longrightarrow> Thread ` fst ` set (visited f) \<subseteq> takes (touch_mutexes p force all f)"
  using assms by (auto simp: touch_mutexes_def takes_flush)

lemma takes_all_threads:
  "File \<in> takes (all_threads_section p f)" "Thread ` set (running f) \<subseteq> takes (all_threads_section p f)"
  using takes_touch(1) [of f True p True] by (auto simp: all_threads_section_def comp_def)

lemma touch_visits_none: "\<not> (buffer_full p s \<or> force) \<Longrightarrow> touch_visits bm p t force s = []"
  unfolding touch_visits_def by (rule if_not_P)

text \<open>The mutexes under which a call may change shared data: those the caller has when it starts, and
  those it takes; a thread that is starting is not shared yet.\<close>

definition call_guard :: "'b bimap_ops \<Rightarrow> call \<Rightarrow> 'b tracer \<Rightarrow> mutex set" where
  "call_guard bm c s = takes (script_of bm c s) \<union> addresses (held s (caller c)) \<union>
     (if tls s (caller c) = None then {Thread (caller c)} else {})"

lemma members_running: "members s \<Longrightarrow> tls s p = Some td \<Longrightarrow> p \<in> set (pin_threadid_set s)"
  by (auto simp: members_def)

lemma findings_of_simps [simp]:
  "running (findings_of bm c s) = pin_threadid_set s"
  "registering (findings_of bm c s) = register_threads s"
  "locking (findings_of bm c s) = (\<not> turn_off_locks s)"
  "access_traced (findings_of bm c s) = tracing (caller c) s"
  by (simp_all add: findings_of_def)

lemma findings_touch:
  assumes "before_touch c s = Inr (t, s1)"
  shows "flushes (findings_of bm c s) = buffer_full (caller c) s1"
    "visited (findings_of bm c s) = touch_visits bm (caller c) t (forced c s) s1"
  using assms by (simp_all add: findings_of_def)

lemma footer_guarded:
  assumes run: "memory_access_footer_a bm p s = Inr s'"
  shows "guarded (call_guard bm (Footer p) s) s s'"
proof (cases "tracing p s")
  case True
  then obtain td where td: "tls s p = Some td" "trace_this_access td"
    by (auto simp: tracing_def split: option.splits)
  from run td obtain s1 where a: "add_entry p (access_event td) (access_time td) s = Inr (access_time td, s1)"
    and b: "touch_buffer bm p (access_time td) False s1 = Inr s'"
    by (simp add: memory_access_footer_a_def add_entry_def Let_def)
  with td have bt: "before_touch (Footer p) s = Inr (access_time td, s1)" by simp
  note f = findings_touch [OF bt, of bm]
  let ?M = "call_guard bm (Footer p) s"
  have M: "takes (touch_mutexes p False False (findings_of bm (Footer p) s)) \<subseteq> ?M" "Thread p \<in> ?M"
    using True by (auto simp: call_guard_def script_of_def)
  show ?thesis
  proof (rule add_entry_then_touch [OF a b M(2)])
    show "File \<in> ?M" if "buffer_full p s1 \<or> False"
      using that f M(1) takes_touch(1) [of "findings_of bm (Footer p) s" False p False] by auto
    show "Thread q \<in> ?M" if "(q, w) \<in> set (touch_visits bm p (access_time td) False s1)" for q w
    proof -
      have "buffer_full p s1" using that touch_visits_none [of p s1 False bm] by force
      with that f M(1) takes_touch(2) [of "findings_of bm (Footer p) s" False False p] show ?thesis
        by force
    qed
  qed
next
  case False
  with run have "s' = s"
    by (auto simp: memory_access_footer_a_def tracing_def andThen_Inr get_tls_Inr split: option.splits if_splits)
  then show ?thesis by simp
qed


text \<open>A release first: its changes are under the locks the thread has.\<close>

lemma after_release:
  assumes "release_address_locks p s = Inr s1" and "guarded M s1 s'" and "addresses (held s p) \<subseteq> M"
  shows "guarded M s s'"
  using guarded_trans [OF guarded_mono [OF release_guarded [OF assms(1)] assms(3)] assms(2)] .

lemma addresses_in_guard: "addresses (held s (caller c)) \<subseteq> call_guard bm c s"
  by (auto simp: call_guard_def)

lemma script_in_guard: "as = script_of bm c s \<Longrightarrow> takes as \<subseteq> call_guard bm c s"
  by (auto simp: call_guard_def)

lemma release_thread:
  assumes "release_address_locks p s = Inr s1" and "tls s1 p = Some td"
  obtains td0 where "tls s p = Some td0" "user_threadid td0 = user_threadid td"
  using release_others(6) [OF assms(1), of p] assms(2) by (cases "tls s p") auto

lemma touch_guard:
  assumes bt: "before_touch c s = Inr (t, s1)" and f: "forced c s = force"
    and M: "takes (touch_mutexes (caller c) force False (findings_of bm c s)) \<subseteq> M"
  shows "buffer_full (caller c) s1 \<or> force \<Longrightarrow> File \<in> M"
    "(q, w) \<in> set (touch_visits bm (caller c) t force s1) \<Longrightarrow> Thread q \<in> M"
proof -
  note fs = findings_touch [OF bt, of bm, unfolded f]
  show "File \<in> M" if "buffer_full (caller c) s1 \<or> force"
    using that fs M takes_touch(1) [of "findings_of bm c s" force "caller c" False] by auto
  show "Thread q \<in> M" if "(q, w) \<in> set (touch_visits bm (caller c) t force s1)"
  proof -
    have "buffer_full (caller c) s1 \<or> force"
      using that touch_visits_none [of "caller c" s1 force bm] by force
    with that fs M takes_touch(2) [of "findings_of bm c s" force False "caller c"] show ?thesis
      by force
  qed
qed

lemma ctxt_guarded:
  assumes run: "ctxt_change_release bm p s = Inr s'"
  shows "guarded (call_guard bm (Ctxt_Change p) s) s s'"
proof -
  let ?c = "Ctxt_Change p" and ?M = "call_guard bm (Ctxt_Change p) s"
  from run obtain s1 td where r: "release_address_locks p s = Inr s1" and td: "tls s1 p = Some td"
    by (auto simp: ctxt_change_release_def andThen_Inr get_tls_Inr)
  let ?t = "lamport_timestamp td + 1"
  from run r td obtain s2 where a: "add_entry p Context_Change ?t s1 = Inr (?t, s2)"
    and b: "touch_buffer bm p ?t False s2 = Inr s'"
    by (simp add: ctxt_change_release_def add_entry_def Let_def)
  with r td have bt: "before_touch ?c s = Inr (?t, s2)" by simp
  have M: "takes (touch_mutexes (caller ?c) False False (findings_of bm ?c s)) \<subseteq> ?M" "Thread p \<in> ?M"
    using script_in_guard [OF refl, of bm ?c s] by (auto simp: script_of_def release_mutexes_def comp_def)
  note g = touch_guard [OF bt _ M(1)]
  have "guarded ?M s1 s'"
    by (rule add_entry_then_touch [OF a b M(2)]) (use g in auto)
  then show ?thesis
    by (rule after_release [OF r]) (use addresses_in_guard [of s ?c] in simp)
qed

lemma called_guarded:
  assumes c: "before_touch c s = andThen (release_address_locks p s) (add_function p ev)" "caller c = p"
    "call_mutexes c = (\<lambda>f h. release_mutexes h @ trace_function_mutexes p f)"
    "\<And>td. tls s p = Some td \<Longrightarrow> forced c s = (user_threadid td < 0)"
    and run: "andThen (release_address_locks p s) (trace_function bm p ev) = Inr s'" and mem: "members s"
  shows "guarded (call_guard bm c s) s s'"
proof -
  let ?f = "findings_of bm c s" and ?M = "call_guard bm c s"
  from run obtain s1 where r: "release_address_locks p s = Inr s1" and f: "trace_function bm p ev s1 = Inr s'"
    by (auto simp: andThen_Inr)
  from f obtain td where td: "tls s1 p = Some td"
    by (auto simp: trace_function_def andThen_Inr get_tls_Inr)
  obtain td0 where td0: "tls s p = Some td0" "user_threadid td0 = user_threadid td"
    by (rule release_thread [OF r td])
  have reg: "is_registered ?f \<longleftrightarrow> 0 \<le> user_threadid td"
    using td0 c(2) by (simp add: findings_of_def)
  have M: "takes (trace_function_mutexes p ?f) \<subseteq> ?M"
    using script_in_guard [OF refl, of bm c s] by (auto simp: script_of_def c(2,3))
  have pin: "pin_threadid_set s1 = pin_threadid_set s" by (rule release_others(4) [OF r])
  have "guarded ?M s1 s'"
  proof (rule function_guarded [OF f td])
    show "Thread p \<in> ?M"
    proof (cases "is_registered ?f")
      case False
      with M members_running [OF mem td0(1)] takes_all_threads(2) [of ?f p] show ?thesis
        by (auto simp: trace_function_mutexes_def)
    qed (use M in \<open>auto simp: trace_function_mutexes_def\<close>)
    show "File \<in> ?M \<and> (\<forall>q \<in> set (pin_threadid_set s1). Thread q \<in> ?M)" if "user_threadid td < 0"
      using that reg M takes_all_threads [where p = p and f = ?f] pin by (auto simp: trace_function_mutexes_def)
    show "(buffer_full p s2 \<longrightarrow> File \<in> ?M) \<and>
        (\<forall>(q, w) \<in> set (touch_visits bm p t False s2). Thread q \<in> ?M)"
      if "0 \<le> user_threadid td" "add_function p ev s1 = Inr (t, s2)" for t s2
    proof -
      have bt: "before_touch c s = Inr (t, s2)" using that(2) r by (simp add: c(1))
      have fo: "forced c s = False" using td0 that(1) c(4) by simp
      have t: "takes (touch_mutexes (caller c) False False ?f) \<subseteq> ?M"
        using that(1) M reg by (auto simp: trace_function_mutexes_def c(2))
      from touch_guard [OF bt fo t] show ?thesis by (auto simp: c(2))
    qed
  qed
  then show ?thesis
    by (rule after_release [OF r]) (use addresses_in_guard [of s c] c(2) in simp)
qed

lemma synchronising_guarded:
  assumes run: "trace_synchronised bm p ev s = Inr s'"
    and M: "takes (all_threads_section q (findings_of bm c s0)) \<subseteq> M" "Thread p \<in> M"
    and pin: "pin_threadid_set s = pin_threadid_set s0"
  shows "guarded M s s'"
  by (rule synchronised_guarded [OF run M(2)])
    (use M(1) takes_all_threads [where p = q and f = "findings_of bm c s0"] pin in auto)


lemma header_guarded:
  assumes run: "memory_access_header_a p s = Inr s'"
  shows "guarded (call_guard bm (Header p) s) s s'"
proof -
  from run obtain s1 where r: "release_address_locks p s = Inr s1" and "guarded (call_guard bm (Header p) s) s1 s'"
    by (auto simp: memory_access_header_a_def andThen_Inr get_tls_Inr shared_def guarded_set_tls)
  then show ?thesis
    by (rule after_release) (use addresses_in_guard [of s "Header p"] in simp)
qed

lemma plain_guarded:
  assumes "tls s p = Some td" and "s' = set_tls p td' s" and "shared td' = shared td"
  shows "guarded M s s'"
  using assms by (simp add: guarded_set_tls)

lemma accesses_guarded:
  "memory_access_read1_a p a n s = Inr s' \<Longrightarrow> guarded M s s'"
  "memory_access_read2_a p a s = Inr s' \<Longrightarrow> guarded M s s'"
  "memory_access_write_a p a n s = Inr s' \<Longrightarrow> guarded M s s'"
  "memory_access_CAS_footer_a p fl s = Inr s' \<Longrightarrow> guarded M s s'"
  by (auto simp: memory_access_read1_a_def memory_access_read2_a_def memory_access_write_a_def
      memory_access_CAS_footer_a_def andThen_Inr get_tls_Inr Let_def shared_def intro!: guarded_set_tls
      split: if_splits)

lemma acquire_guarded:
  assumes run: "memory_access_acquire_locks_a p s = Inr s'"
  shows "guarded (call_guard bm (Acquire p) s) s s'"
proof -
  let ?M = "call_guard bm (Acquire p) s"
  from run obtain td where td: "tls s p = Some td"
    by (auto simp: memory_access_acquire_locks_a_def andThen_Inr get_tls_Inr)
  show ?thesis
  proof (cases "trace_this_access td \<and> \<not> turn_off_locks s")
    case True
    let ?is = "needed_indices s td" and ?s = "set_tls p (td\<lparr>index_lock_list := needed_indices s td\<rparr>) s"
    from run td True obtain t s1 td1 where l: "lock_all p ?is 0 ?s = Inr (t, s1)"
      and s': "tls s1 p = Some td1" "s' = set_tls p (td1\<lparr>max_locked_timestamp := t\<rparr>) s1"
      by (auto simp: memory_access_acquire_locks_a_def acquire_address_locks_def andThen_Inr get_tls_Inr Let_def)
    have "Address i \<in> ?M" if "i \<in> set ?is" for i
      using that td True
      by (auto simp: call_guard_def script_of_def tracing_def findings_of_def comp_def)
    moreover have "s1 = ?s\<lparr>address_lock_bank := taken ?is p (address_lock_bank s)\<rparr>"
      using lock_all_result [OF l] by (simp add: set_tls_def)
    ultimately have "guarded ?M s s1"
      using td by (auto simp: guarded_def set_tls_def taken_def)
    moreover have "guarded ?M s1 s'"
      using s' by (simp add: guarded_set_tls)
    ultimately show ?thesis by (rule guarded_trans)
  next
    case False
    with run td show ?thesis
      by (auto simp: memory_access_acquire_locks_a_def intro!: guarded_set_tls split: if_splits)
  qed
qed

lemma roi_guarded:
  assumes run: "change_roi_a bm p b name s = Inr s'" and mem: "members s"
  shows "guarded (call_guard bm (Roi p b name) s) s s'"
proof -
  let ?c = "Roi p b name" and ?M = "call_guard bm (Roi p b name) s"
  from run obtain s1 where r: "release_address_locks p s = Inr s1"
    and t: "trace_synchronised bm p (Change_Roi name) (s1\<lparr>in_roi := b\<rparr>) = Inr s'"
    by (auto simp: change_roi_a_def andThen_Inr)
  from r obtain td where td: "tls s p = Some td" by (auto elim: release_result)
  have M: "takes (all_threads_section p (findings_of bm ?c s)) \<subseteq> ?M"
    using script_in_guard [OF refl, of bm ?c s] by (auto simp: script_of_def)
  have "guarded ?M (s1\<lparr>in_roi := b\<rparr>) s'"
  proof (rule synchronising_guarded [OF t M])
    show "Thread p \<in> ?M"
      using M takes_all_threads(2) [of "findings_of bm ?c s" p] members_running [OF mem td] by auto
  qed (simp add: release_others(4) [OF r])
  moreover have "guarded ?M s1 (s1\<lparr>in_roi := b\<rparr>)" by (simp add: guarded_def)
  ultimately have "guarded ?M s1 s'" using guarded_trans by blast
  then show ?thesis
    by (rule after_release [OF r]) (use addresses_in_guard [of s ?c] in simp)
qed

lemma register_guarded:
  assumes run: "register_thread_a bm p uid s = Inr s'" and mem: "members s"
  shows "guarded (call_guard bm (Register p uid) s) s s'"
proof -
  let ?c = "Register p uid" and ?M = "call_guard bm (Register p uid) s"
  from run obtain s1 where r: "release_address_locks p s = Inr s1"
    and t: "if register_threads s1 then \<exists>td. tls s1 p = Some td \<and>
        trace_synchronised bm p Thread_Register (set_tls p (td\<lparr>user_threadid := uid\<rparr>) s1) = Inr s'
      else s' = s1"
    by (auto simp: register_thread_a_def andThen_Inr get_tls_Inr split: if_splits)
  have "guarded ?M s1 s'"
  proof (cases "register_threads s1")
    case True
    with t obtain td where td: "tls s1 p = Some td"
      and t: "trace_synchronised bm p Thread_Register (set_tls p (td\<lparr>user_threadid := uid\<rparr>) s1) = Inr s'"
      by auto
    obtain td0 where td0: "tls s p = Some td0" by (rule release_thread [OF r td])
    have M: "takes (all_threads_section p (findings_of bm ?c s)) \<subseteq> ?M"
      using script_in_guard [OF refl, of bm ?c s] True release_others(5) [OF r] by (auto simp: script_of_def)
    have "guarded ?M (set_tls p (td\<lparr>user_threadid := uid\<rparr>) s1) s'"
    proof (rule synchronising_guarded [OF t M])
      show "Thread p \<in> ?M"
        using M takes_all_threads(2) [of "findings_of bm ?c s" p] members_running [OF mem td0] by auto
    qed (use release_others(4) [OF r] in \<open>simp add: set_tls_def\<close>)
    moreover have "guarded ?M s1 (set_tls p (td\<lparr>user_threadid := uid\<rparr>) s1)"
      using td by (simp add: guarded_set_tls)
    ultimately show ?thesis using guarded_trans by blast
  qed (use t in simp)
  then show ?thesis
    by (rule after_release [OF r]) (use addresses_in_guard [of s ?c] in simp)
qed


lemma start_guarded:
  assumes run: "thread_start_a bm g uid p s = Inr s'" and new: "tls s p = None"
  shows "guarded (call_guard bm (Start g uid p) s) s s'"
proof -
  let ?c = "Start g uid p" and ?M = "call_guard bm (Start g uid p) s"
  let ?s = "set_tls p (new_thread_data g) (s\<lparr>num_threads := num_threads s + 1\<rparr>)"
  have p: "Thread p \<in> ?M" using new by (simp add: call_guard_def)
  have script: "takes (start_mutexes p (findings_of bm ?c s)) \<subseteq> ?M"
    using script_in_guard [OF refl, of bm ?c s] by (simp add: script_of_def)
  then have F: "Start_Fini \<in> ?M" "File \<in> ?M" by (auto simp: start_mutexes_def)
  have "guarded ?M s (s\<lparr>num_threads := num_threads s + 1\<rparr>)" using F(1) by (simp add: guarded_def)
  then have first: "guarded ?M s (set_tls p td (s\<lparr>num_threads := num_threads s + 1\<rparr>))" for td
    using p by (rule guarded_set_tls2 [rotated])
  from run obtain s2 where s2: "(if register_threads s then s2 = set_tls p ((new_thread_data g)\<lparr>lamport_timestamp := 0\<rparr>) ?s
      else trace_synchronised bm p Thread_Register
        (set_tls p ((new_thread_data g)\<lparr>user_threadid := uid\<rparr>) ?s) = Inr s2)"
    and s': "s' = s2\<lparr>pin_threadid_set := List.insort_insert p (pin_threadid_set s2),
      last_flushed := bm_insert bm p 0 (last_flushed s2)\<rparr>"
    by (auto simp: thread_start_a_def Let_def andThen_Inr set_tls_def split: if_splits)
  have "guarded ?M s s2"
  proof (cases "register_threads s")
    case True
    with s2 guarded_set_tls2 [OF p first [of "new_thread_data g"]] show ?thesis by simp
  next
    case False
    with s2 have t: "trace_synchronised bm p Thread_Register
        (set_tls p ((new_thread_data g)\<lparr>user_threadid := uid\<rparr>) ?s) = Inr s2" by simp
    have M: "takes (all_threads_section p (findings_of bm ?c s)) \<subseteq> ?M"
      using script False by (simp add: start_mutexes_def)
    have "guarded ?M (set_tls p ((new_thread_data g)\<lparr>user_threadid := uid\<rparr>) ?s) s2"
      by (rule synchronising_guarded [OF t M p]) (simp add: set_tls_def)
    with guarded_set_tls2 [OF p first] guarded_trans show ?thesis by blast
  qed
  moreover have "guarded ?M s2 s'" using F by (simp add: s' guarded_def)
  ultimately show ?thesis by (rule guarded_trans)
qed

lemma thread_fini_entry:
  assumes run: "thread_fini_a bm p s = Inr s'"
  obtains s1 td s2 td3 where "release_address_locks p s = Inr s1" "tls s1 p = Some td"
    "(if 0 \<le> user_threadid td then trace_synchronised bm p Thread_Finish s1 else Inr s1) = Inr s2"
    "tls s2 p = Some td3"
    "if 0 < buffered_entries td3
      then \<exists>s4. write_file (trace_stream td3) (s2\<lparr>pin_threadid_set := remove1 p (pin_threadid_set s2)\<rparr>) = Inr s4 \<and>
        s' = s4\<lparr>last_flushed := bm_erase bm p (last_flushed s4), tls := (tls s4)(p := None)\<rparr>
      else s' = s2\<lparr>pin_threadid_set := remove1 p (pin_threadid_set s2), tls := (tls s2)(p := None)\<rparr>"
proof -
  from run obtain s1 td where r: "release_address_locks p s = Inr s1" and td: "tls s1 p = Some td"
    by (auto simp: thread_fini_a_def andThen_Inr get_tls_Inr)
  with run that show thesis
    by (auto simp: thread_fini_a_def andThen_Inr get_tls_Inr Let_def split: if_splits)
qed

lemma fini_guarded:
  assumes run: "thread_fini_a bm p s = Inr s'"
  shows "guarded (call_guard bm (Fini p) s) s s'"
proof -
  let ?c = "Fini p" and ?M = "call_guard bm (Fini p) s" and ?f = "findings_of bm (Fini p) s"
  from run obtain s1 td s2 td3 where r: "release_address_locks p s = Inr s1" and td: "tls s1 p = Some td"
    and s2: "(if 0 \<le> user_threadid td then trace_synchronised bm p Thread_Finish s1 else Inr s1) = Inr s2"
    and td3: "tls s2 p = Some td3"
    and rest: "if 0 < buffered_entries td3
      then \<exists>s4. write_file (trace_stream td3) (s2\<lparr>pin_threadid_set := remove1 p (pin_threadid_set s2)\<rparr>) = Inr s4 \<and>
        s' = s4\<lparr>last_flushed := bm_erase bm p (last_flushed s4), tls := (tls s4)(p := None)\<rparr>
      else s' = s2\<lparr>pin_threadid_set := remove1 p (pin_threadid_set s2), tls := (tls s2)(p := None)\<rparr>"
    by (rule thread_fini_entry)
  obtain td0 where td0: "tls s p = Some td0" "user_threadid td0 = user_threadid td"
    by (rule release_thread [OF r td])
  have reg: "is_registered ?f \<longleftrightarrow> 0 \<le> user_threadid td" using td0 by (simp add: findings_of_def)
  have left: "entries_left ?f \<longleftrightarrow> 0 < buffered_entries td3"
    using r td s2 td3 by (simp add: findings_of_def fini_entries_def)
  have script: "takes (fini_mutexes p ?f) \<subseteq> ?M"
    using script_in_guard [OF refl, of bm ?c s] by (auto simp: script_of_def)
  then have F: "Start_Fini \<in> ?M" "Thread p \<in> ?M" "0 < buffered_entries td3 \<Longrightarrow> File \<in> ?M"
    using left by (auto simp: fini_mutexes_def)
  have "guarded ?M s1 s2"
  proof (cases "0 \<le> user_threadid td")
    case True
    with s2 have t: "trace_synchronised bm p Thread_Finish s1 = Inr s2" by simp
    have "takes (all_threads_section p ?f) \<subseteq> ?M"
      using script reg True by (auto simp: fini_mutexes_def)
    then show ?thesis
      by (rule synchronising_guarded [OF t _ F(2)]) (rule release_others(4) [OF r])
  qed (use s2 in simp)
  moreover have "guarded ?M s2 s'"
    using rest F by (auto simp: guarded_def write_file_Inr split: if_splits)
  ultimately have "guarded ?M s1 s'" by (rule guarded_trans)
  then show ?thesis
    by (rule after_release [OF r]) (use addresses_in_guard [of s ?c] in simp)
qed

lemma run_call_guarded:
  assumes run: "run_call bm c s = Inr s'" and mem: "members s" and st: "start_ok c s"
  shows "guarded (call_guard bm c s) s s'"
proof (cases c)
  case (Call name p sp a b c')
  show ?thesis
    by (rule called_guarded [where p = p and ev = "Function_Call name sp a b c'"])
      (use run mem Call in \<open>simp_all add: function_call_a_def fun_eq_iff\<close>)
next
  case (Return name p sp v)
  show ?thesis
    by (rule called_guarded [where p = p and ev = "Function_Return name sp v"])
      (use run mem Return in \<open>simp_all add: function_return_a_def fun_eq_iff\<close>)
next
  case (Release p)
  with run have r: "release_address_locks p s = Inr s'" by (simp add: memory_access_release_a_def)
  show ?thesis
    by (rule after_release [OF r]) (use addresses_in_guard [of s c] Release in simp_all)
qed (use run mem st in \<open>auto intro: header_guarded accesses_guarded acquire_guarded footer_guarded
      roi_guarded register_guarded start_guarded fini_guarded ctxt_guarded\<close>)

end
