(* ===== verification/Shared_Data.thy ===== *)
theory Shared_Data
  imports Mutex_State Tracer_Examples
begin

text \<open>
  Runs of the routines of \<open>src/trace/trace.cpp\<close> with their mutex operations: the lists on which the
  order of the mutexes rests stay sorted, so that in every run the routines, as they change the
  state in \<open>Handlers\<close>, change what threads share under the mutexes they take in \<open>Mutex_State\<close>.
\<close>

section \<open>What the routines leave of the lists\<close>

text \<open>Buffering and synchronising change neither the set of threads nor the locks of any.\<close>

definition unmoved :: "'b tracer \<Rightarrow> 'b tracer \<Rightarrow> bool" where
  "unmoved s s' \<longleftrightarrow> pin_threadid_set s' = pin_threadid_set s \<and>
     (\<forall>q. map_option index_lock_list (tls s' q) = map_option index_lock_list (tls s q))"

lemma unmoved_refl [simp]: "unmoved s s"
  by (simp add: unmoved_def)

lemma unmoved_trans: "unmoved s t \<Longrightarrow> unmoved t u \<Longrightarrow> unmoved s u"
  by (simp add: unmoved_def)

lemma unmoved_set_tls:
  "tls s p = Some td \<Longrightarrow> index_lock_list td' = index_lock_list td \<Longrightarrow> unmoved s (set_tls p td' s)"
  by (simp add: unmoved_def set_tls_def)

lemma unmovedD:
  assumes "unmoved s s'"
  shows "pin_threadid_set s' = pin_threadid_set s" "held s' q = held s q" "tls s' q = None \<longleftrightarrow> tls s q = None"
proof -
  have e: "map_option index_lock_list (tls s' q) = map_option index_lock_list (tls s q)"
    using assms by (simp add: unmoved_def)
  then show "held s' q = held s q" "tls s' q = None \<longleftrightarrow> tls s q = None"
    by (cases "tls s q"; cases "tls s' q"; simp add: held_def)+
qed (use assms in \<open>simp add: unmoved_def\<close>)

lemma attempt_flush_one_unmoved: "attempt_flush_one bm t q s = Inr s' \<Longrightarrow> unmoved s s'"
  by (auto simp: attempt_flush_one_def andThen_Inr get_tls_Inr Let_def write_file_Inr unmoved_def
      set_tls_def sync_thread_def split: if_splits)

lemma attempt_flush_others_unmoved: "attempt_flush_others bm t qs s = Inr s' \<Longrightarrow> unmoved s s'"
  by (induction qs arbitrary: s)
    (auto simp: andThen_Inr dest: attempt_flush_one_unmoved intro: unmoved_trans)

lemma check_last_flushed_unmoved:
  "check_last_flushed bm t s = Inr (ps, s') \<Longrightarrow> unmoved s s'"
  using check_last_flushed_kept [of bm t s ps s'] kept_static(6) [of s s'] by (simp add: unmoved_def)

lemma touch_buffer_unmoved:
  assumes run: "touch_buffer bm p t force s = Inr s'"
  shows "unmoved s s'"
proof -
  from run obtain td where td: "tls s p = Some td" by (auto simp: touch_buffer_def andThen_Inr get_tls_Inr)
  let ?td = "td\<lparr>lamport_timestamp := t, flush_others := [], buffered_entries := buffered_entries td + 1\<rparr>"
  show ?thesis
  proof (cases "accesses_flush s \<le> buffered_entries td + 1 \<or> force")
    case True
    with run td obtain s1 ps s2 where w: "write_file (trace_stream ?td) s = Inr s1"
      and c: "check_last_flushed bm t
        (s1\<lparr>last_flushed := bm_insert bm p t (bm_erase bm p (last_flushed s1))\<rparr>) = Inr (ps, s2)"
      and o: "ps \<noteq> [] \<longrightarrow> attempt_flush_others bm t ps
          (set_tls p (?td\<lparr>buffered_entries := 0, trace_stream := [], flush_others := ps\<rparr>) s2) = Inr s'"
        "ps = [] \<longrightarrow> s' = set_tls p (?td\<lparr>buffered_entries := 0, trace_stream := [], flush_others := ps\<rparr>) s2"
      by (auto simp: touch_buffer_def Let_def andThen_Inr split: if_splits)
    have t2: "tls s2 = tls s1" using check_last_flushed_kept [OF c] by simp
    have "unmoved s s1" using w by (auto simp: write_file_Inr unmoved_def)
    moreover have "unmoved s1 s2" using check_last_flushed_unmoved [OF c] by (simp add: unmoved_def)
    moreover have "unmoved s2 (set_tls p (?td\<lparr>buffered_entries := 0, trace_stream := [], flush_others := ps\<rparr>) s2)"
      by (rule unmoved_set_tls [of _ _ td]) (use t2 w td in \<open>auto simp: write_file_Inr\<close>)
    ultimately have "unmoved s (set_tls p (?td\<lparr>buffered_entries := 0, trace_stream := [], flush_others := ps\<rparr>) s2)"
      using unmoved_trans by blast
    then show ?thesis
      using o attempt_flush_others_unmoved unmoved_trans by (cases "ps = []") blast+
  next
    case False
    with run td have "s' = set_tls p ?td s" by (simp add: touch_buffer_def Let_def)
    then show ?thesis by (simp add: unmoved_set_tls [OF td])
  qed
qed

lemma set_thread_times_unmoved: "set_thread_times qs t s = Inr s' \<Longrightarrow> unmoved s s'"
proof (induction qs arbitrary: s)
  case (Cons q qs)
  from Cons.prems obtain td where td: "tls s q = Some td"
    and "set_thread_times qs t (set_tls q (td\<lparr>lamport_timestamp := t\<rparr>) s) = Inr s'"
    by (auto simp: andThen_Inr get_tls_Inr)
  from Cons.IH [OF this(2)] unmoved_set_tls [OF td, of "td\<lparr>lamport_timestamp := t\<rparr>"] show ?case
    using unmoved_trans by force
qed simp

lemma trace_synchronised_unmoved:
  assumes "trace_synchronised bm p ev s = Inr s'"
  shows "unmoved s s'"
proof -
  from assms obtain t s1 s2 where a: "add_synchronised p ev s = Inr (t, s1)"
    and b: "touch_buffer bm p t True s1 = Inr s2" "set_thread_times (pin_threadid_set s2) t s2 = Inr s'"
    by (rule trace_synchronised_entry)
  from a have "unmoved s s1"
    by (auto simp: add_synchronised_def add_entry_def andThen_Inr get_tls_Inr intro: unmoved_set_tls)
  with touch_buffer_unmoved [OF b(1)] set_thread_times_unmoved [OF b(2)] show ?thesis
    using unmoved_trans by blast
qed

lemma trace_function_unmoved:
  assumes "trace_function bm p ev s = Inr s'"
  shows "unmoved s s'"
proof -
  from assms obtain td where td: "tls s p = Some td"
    by (auto simp: trace_function_def andThen_Inr get_tls_Inr)
  from assms td obtain t s1 s2 where a: "add_function p ev s = Inr (t, s1)"
    and b: "touch_buffer bm p t (\<not> 0 \<le> user_threadid td) s1 = Inr s2"
    and c: "if 0 \<le> user_threadid td then s' = s2 else set_thread_times (pin_threadid_set s2) t s2 = Inr s'"
    by (rule trace_function_entry)
  from a td have "unmoved s s1"
    by (auto simp: add_function_def add_entry_def andThen_Inr unmoved_def set_tls_def split: if_splits)
  moreover have "unmoved s2 s'" using c set_thread_times_unmoved by (auto split: if_splits)
  ultimately show ?thesis using touch_buffer_unmoved [OF b] unmoved_trans by blast
qed


text \<open>Who holds what after a call, and which threads there are.\<close>

definition moved :: "int \<Rightarrow> int list \<Rightarrow> int list \<Rightarrow> 'b tracer \<Rightarrow> 'b tracer \<Rightarrow> bool" where
  "moved p locks pins s s' \<longleftrightarrow> pin_threadid_set s' = pins \<and>
     (\<forall>q. held s' q = (if q = p then locks else held s q)) \<and>
     (\<forall>q. q \<noteq> p \<longrightarrow> (tls s' q = None \<longleftrightarrow> tls s q = None))"

lemma moved_unmoved: "moved p l ps s s1 \<Longrightarrow> unmoved s1 s' \<Longrightarrow> moved p l ps s s'"
  using unmovedD [of s1 s'] by (simp add: moved_def)

lemma unmoved_moved: "unmoved s s' \<Longrightarrow> moved p (held s p) (pin_threadid_set s) s s'"
  using unmovedD [of s s'] by (simp add: moved_def)

lemma release_moved:
  assumes "release_address_locks p s = Inr s1"
  shows "moved p [] (pin_threadid_set s) s s1"
  using assms by (auto elim!: release_result simp: moved_def held_def set_tls_def)

lemma same_lists_unmoved: "tls s' = tls s \<Longrightarrow> pin_threadid_set s' = pin_threadid_set s \<Longrightarrow> unmoved s s'"
  by (simp add: unmoved_def)

lemma acquire_moved:
  assumes run: "memory_access_acquire_locks_a p s = Inr s'"
  shows "moved p (held_after (Acquire p) (findings_of bm (Acquire p) s) (held s p)) (pin_threadid_set s) s s'"
proof -
  from run obtain td where td: "tls s p = Some td"
    by (auto simp: memory_access_acquire_locks_a_def andThen_Inr get_tls_Inr)
  show ?thesis
  proof (cases "trace_this_access td \<and> \<not> turn_off_locks s")
    case True
    let ?is = "needed_indices s td" and ?s = "set_tls p (td\<lparr>index_lock_list := needed_indices s td\<rparr>) s"
    from run td True obtain t s1 td1 where l: "lock_all p ?is 0 ?s = Inr (t, s1)"
      and s': "tls s1 p = Some td1" "s' = set_tls p (td1\<lparr>max_locked_timestamp := t\<rparr>) s1"
      by (auto simp: memory_access_acquire_locks_a_def acquire_address_locks_def andThen_Inr get_tls_Inr Let_def)
    with lock_all_result [OF l] td True show ?thesis
      by (auto simp: moved_def held_def set_tls_def tracing_def findings_of_def)
  next
    case False
    with run td show ?thesis
      by (auto simp: memory_access_acquire_locks_a_def moved_def held_def set_tls_def tracing_def split: if_splits)
  qed
qed

lemma plain_moved:
  "memory_access_read1_a p a n s = Inr s' \<Longrightarrow> unmoved s s'"
  "memory_access_read2_a p a s = Inr s' \<Longrightarrow> unmoved s s'"
  "memory_access_write_a p a n s = Inr s' \<Longrightarrow> unmoved s s'"
  "memory_access_CAS_footer_a p fl s = Inr s' \<Longrightarrow> unmoved s s'"
  by (auto simp: memory_access_read1_a_def memory_access_read2_a_def memory_access_write_a_def
      memory_access_CAS_footer_a_def andThen_Inr get_tls_Inr Let_def intro!: unmoved_set_tls
      split: if_splits)

lemma header_moved:
  assumes run: "memory_access_header_a p s = Inr s'"
  shows "moved p [] (pin_threadid_set s) s s'"
proof -
  from run obtain s1 where r: "release_address_locks p s = Inr s1" and "unmoved s1 s'"
    by (auto simp: memory_access_header_a_def andThen_Inr get_tls_Inr unmoved_set_tls)
  then show ?thesis using moved_unmoved [OF release_moved] by blast
qed

lemma footer_unmoved:
  assumes run: "memory_access_footer_a bm p s = Inr s'"
  shows "unmoved s s'"
proof -
  from run obtain td where td: "tls s p = Some td"
    by (auto simp: memory_access_footer_a_def andThen_Inr get_tls_Inr)
  let ?td = "td\<lparr>trace_stream := trace_stream td @ [(access_time td, user_threadid td, access_event td)]\<rparr>"
  have "unmoved s (set_tls p ?td s)" by (simp add: unmoved_set_tls [OF td])
  moreover have "unmoved (set_tls p ?td s) s' \<or> s' = s"
    using run td touch_buffer_unmoved
    by (auto simp: memory_access_footer_a_def Let_def split: if_splits)
  ultimately show ?thesis using unmoved_trans by auto
qed

lemma start_moved:
  assumes run: "thread_start_a bm g uid p s = Inr s'" and new: "tls s p = None"
  shows "moved p [] (List.insort_insert p (pin_threadid_set s)) s s'"
proof -
  let ?s = "set_tls p (new_thread_data g) (s\<lparr>num_threads := num_threads s + 1\<rparr>)"
  from run obtain s2 where s2: "(if register_threads s
      then s2 = set_tls p ((new_thread_data g)\<lparr>lamport_timestamp := 0\<rparr>) ?s
      else trace_synchronised bm p Thread_Register
        (set_tls p ((new_thread_data g)\<lparr>user_threadid := uid\<rparr>) ?s) = Inr s2)"
    and s': "s' = s2\<lparr>pin_threadid_set := List.insort_insert p (pin_threadid_set s2),
      last_flushed := bm_insert bm p 0 (last_flushed s2)\<rparr>"
    by (auto simp: thread_start_a_def Let_def andThen_Inr set_tls_def split: if_splits)
  have "moved p [] (pin_threadid_set s) s s2"
  proof (cases "register_threads s")
    case False
    let ?t = "set_tls p ((new_thread_data g)\<lparr>user_threadid := uid\<rparr>) ?s"
    have "moved p [] (pin_threadid_set s) s ?t"
      by (simp add: moved_def held_def set_tls_def new_thread_data_def)
    with False s2 show ?thesis using moved_unmoved [OF _ trace_synchronised_unmoved] by auto
  qed (use s2 in \<open>simp add: moved_def held_def set_tls_def new_thread_data_def\<close>)
  then show ?thesis by (simp add: s' moved_def held_def)
qed

lemma fini_moved:
  assumes run: "thread_fini_a bm p s = Inr s'"
  shows "moved p [] (remove1 p (pin_threadid_set s)) s s' \<and> tls s' p = None"
proof -
  from run obtain s1 td s2 td3 where r: "release_address_locks p s = Inr s1" and "tls s1 p = Some td"
    and s2: "(if 0 \<le> user_threadid td then trace_synchronised bm p Thread_Finish s1 else Inr s1) = Inr s2"
    and "tls s2 p = Some td3"
    and rest: "if 0 < buffered_entries td3
      then \<exists>s4. write_file (trace_stream td3) (s2\<lparr>pin_threadid_set := remove1 p (pin_threadid_set s2)\<rparr>) = Inr s4 \<and>
        s' = s4\<lparr>last_flushed := bm_erase bm p (last_flushed s4), tls := (tls s4)(p := None)\<rparr>
      else s' = s2\<lparr>pin_threadid_set := remove1 p (pin_threadid_set s2), tls := (tls s2)(p := None)\<rparr>"
    by (rule thread_fini_entry)
  then have s': "pin_threadid_set s' = remove1 p (pin_threadid_set s2)" "tls s' = (tls s2)(p := None)"
    by (auto simp: write_file_Inr split: if_splits)
  have "moved p [] (pin_threadid_set s) s s2"
  proof (rule moved_unmoved [OF release_moved [OF r]])
    show "unmoved s1 s2" using s2 trace_synchronised_unmoved [of bm p Thread_Finish s1 s2] by (auto split: if_splits)
  qed
  with s' show ?thesis by (auto simp: moved_def held_def)
qed


section \<open>Every run\<close>

text \<open>
  The set of threads and the lists of locks stay sorted, which is what the order of the mutexes
  rests on; a thread between its header and its locks has none.
\<close>

definition lists_ok :: "'b run \<Rightarrow> bool" where
  "lists_ok r \<longleftrightarrow> members (run_state r) \<and> sorted_wrt (<) (pin_threadid_set (run_state r)) \<and>
     (\<forall>p. sorted_wrt (<) (held (run_state r) p)) \<and>
     (\<forall>p. run_phase r p = Headed \<longrightarrow> held (run_state r) p = [])"

lemma run_call_moved:
  assumes run: "run_call bm c s = Inr s'" and st: "start_ok c s"
  shows "moved (caller c) (held_after c (findings_of bm c s) (held s (caller c)))
      (pin_threadid_set s') s s' \<and>
    (pin_threadid_set s' = pin_threadid_set s \<or>
     (\<exists>g uid. c = Start g uid (caller c)) \<and>
       pin_threadid_set s' = List.insort_insert (caller c) (pin_threadid_set s) \<or>
     tls s' (caller c) = None \<and> pin_threadid_set s' = remove1 (caller c) (pin_threadid_set s))"
proof -
  let ?p = "caller c" and ?h = "held_after c (findings_of bm c s) (held s (caller c))"
  have same: ?thesis if "moved ?p ?h (pin_threadid_set s) s s'"
    using that by (simp add: moved_def)
  have un: ?thesis if "unmoved s s'" "?h = held s ?p"
    by (rule same) (use that unmoved_moved [OF that(1), of ?p] in simp)
  have rel: ?thesis if "release_address_locks ?p s = Inr s1" "unmoved s1 s'" "?h = []" for s1
    by (rule same) (use moved_unmoved [OF release_moved [OF that(1)] that(2)] that(3) in simp)
  show ?thesis
  proof (cases c)
    case (Acquire p)
    show ?thesis by (rule same) (use run Acquire acquire_moved [of p s s' bm] in simp)
  next
    case (Header p)
    show ?thesis by (rule same) (use run Header header_moved [of p s s'] in simp)
  next
    case (Start g uid p)
    with run st start_moved [of bm g uid p s s'] show ?thesis by (auto simp: moved_def held_def)
  next
    case (Fini p)
    with run fini_moved [of bm p s s'] show ?thesis by (simp add: moved_def)
  next
    case (Call name p sp x y z)
    with run obtain s1 where "release_address_locks p s = Inr s1"
      "trace_function bm p (Function_Call name sp x y z) s1 = Inr s'"
      by (auto simp: function_call_a_def andThen_Inr)
    then show ?thesis by (intro rel trace_function_unmoved) (simp_all add: Call)
  next
    case (Return name p sp v)
    with run obtain s1 where "release_address_locks p s = Inr s1"
      "trace_function bm p (Function_Return name sp v) s1 = Inr s'"
      by (auto simp: function_return_a_def andThen_Inr)
    then show ?thesis by (intro rel trace_function_unmoved) (simp_all add: Return)
  next
    case (Roi p b name)
    with run obtain s1 where r: "release_address_locks p s = Inr s1"
      and t: "trace_synchronised bm p (Change_Roi name) (s1\<lparr>in_roi := b\<rparr>) = Inr s'"
      by (auto simp: change_roi_a_def andThen_Inr)
    have "unmoved s1 s'"
      by (rule unmoved_trans [OF same_lists_unmoved trace_synchronised_unmoved [OF t]]) simp_all
    with r show ?thesis by (intro rel) (simp_all add: Roi)
  next
    case (Register p uid)
    with run obtain s1 where r: "release_address_locks p s = Inr s1"
      and t: "s' = s1 \<or> (\<exists>td. tls s1 p = Some td \<and>
        trace_synchronised bm p Thread_Register (set_tls p (td\<lparr>user_threadid := uid\<rparr>) s1) = Inr s')"
      by (auto simp: register_thread_a_def andThen_Inr get_tls_Inr split: if_splits)
    have "unmoved s1 s'"
    proof (cases "s' = s1")
      case False
      with t obtain td where td: "tls s1 p = Some td"
        and u: "trace_synchronised bm p Thread_Register (set_tls p (td\<lparr>user_threadid := uid\<rparr>) s1) = Inr s'"
        by blast
      show ?thesis
        by (rule unmoved_trans [OF unmoved_set_tls [OF td] trace_synchronised_unmoved [OF u]]) simp
    qed simp
    with r show ?thesis by (intro rel) (simp_all add: Register)
  next
    case (Ctxt_Change p)
    with run obtain s1 td where r: "release_address_locks p s = Inr s1" and td: "tls s1 p = Some td"
      and t: "touch_buffer bm p (lamport_timestamp td + 1) False (set_tls p (td\<lparr>trace_stream :=
        trace_stream td @ [(lamport_timestamp td + 1, user_threadid td, Context_Change)]\<rparr>) s1) = Inr s'"
      by (auto simp: ctxt_change_release_def andThen_Inr get_tls_Inr Let_def)
    have "unmoved s1 s'"
      by (rule unmoved_trans [OF unmoved_set_tls [OF td] touch_buffer_unmoved [OF t]]) simp
    with r show ?thesis by (intro rel) (simp_all add: Ctxt_Change)
  next
    case (Release p)
    with run show ?thesis
      by (intro rel [of s']) (simp_all add: memory_access_release_a_def)
  qed ((rule un; use run in \<open>auto intro: plain_moved footer_unmoved\<close>)+)
qed


lemma held_after_sorted:
  assumes "sorted_wrt (<) h" and "sorted_wrt (<) (wanted f)"
  shows "sorted_wrt (<) (held_after c f h)"
  using assms by (cases c) simp_all

lemma held_after_headed:
  assumes "next_phase c ph = Some Headed" and "ph = Headed \<Longrightarrow> h = []"
  shows "held_after c f h = []"
  using assms by (cases c) (auto split: if_splits)

lemma findings_wanted: "sorted_wrt (<) (wanted (findings_of bm c s))"
  by (auto simp: findings_of_def needed_indices_def sort_unique_ascending split: option.split)

lemma run_step_lists:
  assumes step: "run_step bm r c r'" and ok: "lists_ok r"
  shows "lists_ok r'"
proof -
  let ?s = "run_state r" and ?p = "caller c"
  from step obtain s' ph where run: "run_call bm c ?s = Inr s'" and st: "start_ok c ?s"
    and ph: "next_phase c (run_phase r ?p) = Some ph"
    and r': "r' = \<lparr>run_state = s', run_phase = (run_phase r)(?p := ph), run_log = run_log r @ new_accesses c ?s\<rparr>"
    by (rule run_stepE)
  let ?h = "held_after c (findings_of bm c ?s) (held ?s ?p)"
  note m = run_call_moved [OF run st]
  have h: "held s' q = (if q = ?p then ?h else held ?s q)" for q
    using m by (simp add: moved_def)
  have sorted: "sorted_wrt (<) (pin_threadid_set ?s)" "sorted_wrt (<) (held ?s q)" for q
    using ok by (simp_all add: lists_ok_def)
  have "sorted_wrt (<) (pin_threadid_set s')"
    using m sorted(1) by (auto simp: strict_sorted_iff sorted_insort_insert distinct_insort_insert sorted_remove1)
  moreover have "sorted_wrt (<) (held s' q)" for q
    unfolding h by (auto intro: held_after_sorted findings_wanted sorted(2))
  moreover have "held s' q = []" if "run_phase r' q = Headed" for q
  proof (cases "q = ?p")
    case True
    with that ph r' have "next_phase c (run_phase r ?p) = Some Headed" by simp
    from held_after_headed [OF this] ok True show ?thesis by (simp add: h lists_ok_def)
  next
    case False
    with that r' ok show ?thesis by (simp add: h lists_ok_def)
  qed
  moreover have "q \<in> set (pin_threadid_set s')" if "tls s' q \<noteq> None" for q
  proof (cases "q = ?p")
    case False
    with m that have "tls ?s q \<noteq> None" by (simp add: moved_def)
    with ok have "q \<in> set (pin_threadid_set ?s)" by (simp add: lists_ok_def members_def)
    with m False show ?thesis by (auto simp: set_insort_insert)
  next
    case True
    show ?thesis
    proof (cases "\<exists>g uid. c = Start g uid ?p")
      case start: True
      then obtain g uid where "c = Start g uid ?p" by blast
      with run start_moved [of bm g uid ?p ?s s'] st have
        "pin_threadid_set s' = List.insort_insert ?p (pin_threadid_set ?s)"
        by (metis moved_def run_call.simps(13) start_ok.simps(1))
      with True show ?thesis by (simp add: set_insort_insert)
    next
      case False
      then have "tls ?s ?p \<noteq> None" using run_call_caller [OF run] by fastforce
      with ok have "?p \<in> set (pin_threadid_set ?s)" by (simp add: lists_ok_def members_def)
      with m that True False show ?thesis by auto
    qed
  qed
  ultimately show ?thesis by (simp add: lists_ok_def r' members_def)
qed

lemma reachable_lists: "reachable bm k r \<Longrightarrow> lists_ok r"
proof (induction rule: reachable.induct)
  case (start s)
  then show ?case
    by (auto simp: lists_ok_def members_def held_def tracer_main_def split: if_splits)
qed (rule run_step_lists)


text \<open>The start of a second thread, whose entry synchronises the first.\<close>

definition second_start :: call where
  "second_start = Start blank_thread 1 1"

definition start_script :: "action list" where
  "start_script =
     [Take Start_Fini, Take (Thread 0), Take File, Give File, Give (Thread 0), Take File, Give File,
      Give Start_Fini]"

lemma second_start_run:
  "\<exists>r r'. do_run alist_bimap default_knobs [Start blank_thread 0 0] = Some r \<and>
     do_call alist_bimap second_start r = Some r' \<and>
     script_of alist_bimap second_start (run_state r) = start_script \<and>
     visited (findings_of alist_bimap second_start (run_state r)) = [] \<and>
     tls (run_state r) 1 = None \<and> held (run_state r) 1 = []"
  by (simp add: second_start_def start_script_def do_run_def script_of_def findings_of_def
      add_synchronised_def add_entry_def buffer_full_def touch_visits_def flushed_state_def
      start_mutexes_def in_section_def all_threads_section_def touch_mutexes_def held_def tracer_eval)



end
