(* ===== verification/Tool_Start.thy ===== *)
theory Tool_Start
  imports Annotations Instrument_Properties Atomicity
begin

text \<open>
  The start of the tool as a whole (\<open>src/trace/trace.cpp\<close>, lines 963 to 968 and 1004 to 1058): options
  that Pin does not accept, the two files it opens, the callbacks it registers; and the walk of
  \<open>Image\<close> over an image (lines 817 to 877). \<open>Instrument\<close> has what is inserted at one routine.
\<close>

section \<open>Images\<close>

text \<open>
  An image is the list of its sections, a section the list of the symbol names of its routines.
  \<open>undecorate\<close> is \<open>PIN_UndecorateSymbolName\<close>. The result says at which routine a call is inserted.
\<close>

type_synonym image = "string list list"

fun section_calls ::
  "(string \<Rightarrow> string) \<Rightarrow> string list \<Rightarrow> string list \<Rightarrow> (string \<times> ipoint \<times> rtn_call) list" where
  "section_calls undecorate trace_functions [] = []"
| "section_calls undecorate trace_functions (rtn # rtns) =
     map (Pair rtn) (instrument_routine trace_functions (undecorate rtn)) @
     section_calls undecorate trace_functions rtns"

fun image_calls ::
  "(string \<Rightarrow> string) \<Rightarrow> string list \<Rightarrow> image \<Rightarrow> (string \<times> ipoint \<times> rtn_call) list" where
  "image_calls undecorate trace_functions [] = []"
| "image_calls undecorate trace_functions (sec # secs) =
     section_calls undecorate trace_functions sec @ image_calls undecorate trace_functions secs"

section \<open>\<open>main\<close>\<close>

text \<open>All options: those of \<open>knobs\<close> and the names of the two files.\<close>

record tool_options = knobs +
  knob_output_file :: string
  knob_functions_file :: string

definition default_options :: tool_options where
  "default_options =
     knobs.extend default_knobs
       \<lparr>knob_output_file = ''memory_trace.out'', knob_functions_file = ''trace_functions.in''\<rparr>"

definition usage_text :: "string \<Rightarrow> string" where
  "usage_text summary =
     ''This tool produces a consistent memory access trace and persistence annotation.'' @
     [NL, NL] @ summary @ [NL]"

datatype callback =
    On_Image "string list"
  | On_Instruction
  | On_Thread_Start
  | On_Thread_Fini
  | On_Fini
  | On_Context_Change

text \<open>\<open>main\<close> returns with a message and a status, or runs the program with these callbacks.\<close>

datatype 'b outcome =
    Returned string int
  | Started "'b tracer" "callback list"

text \<open>
  \<open>options\<close> is what \<open>PIN_Init\<close> parsed, None when it reports a failure; \<open>summary\<close> is
  \<open>KNOB_BASE::StringKnobSummary\<close>; \<open>content\<close> gives the files that can be read, \<open>writable\<close> those that
  can be opened for writing. \<open>trace_file.open\<close> is not checked: a stream that did not open is like
  a closed one.
\<close>

definition tool_main ::
  "'b bimap_ops \<Rightarrow> (string \<Rightarrow> string) \<Rightarrow> string \<Rightarrow> (string \<Rightarrow> string option) \<Rightarrow> (string \<Rightarrow> bool) \<Rightarrow>
   tool_options option \<Rightarrow> 'b outcome result" where
  "tool_main bm trim summary content writable options =
     (case options of
        None \<Rightarrow> Inr (Returned (usage_text summary) (-1))
      | Some k \<Rightarrow>
          (let trace_functions = read_trace_functions trim (content (knob_functions_file k)) in
           andThen (tracer_main bm (knobs.truncate k)) (\<lambda>s.
             Inr (Started (s\<lparr>file_closed := \<not> writable (knob_output_file k)\<rparr>)
               [On_Image trace_functions, On_Instruction, On_Thread_Start, On_Thread_Fini, On_Fini,
                On_Context_Change]))))"

section \<open>Properties\<close>

lemma section_calls_set:
  "(rtn, c) \<in> set (section_calls u fs sec) \<longleftrightarrow> rtn \<in> set sec \<and> c \<in> set (instrument_routine fs (u rtn))"
  by (induction sec) auto

lemma image_calls_set:
  "(rtn, c) \<in> set (image_calls u fs img) \<longleftrightarrow>
   rtn \<in> set (concat img) \<and> c \<in> set (instrument_routine fs (u rtn))"
  by (induction img) (auto simp: section_calls_set)

lemma find_name: "find (\<lambda>n. n = f) fs = (if f \<in> set fs then Some f else None)"
  by (induction fs) auto

lemma instrument_routine_set:
  "c \<in> set (instrument_routine fs f) \<longleftrightarrow>
     c = (Before, Insert_Register) \<and> f = ''atomic_trace::register_thread'' \<or>
     c = (Before, Insert_Roi True ''start'') \<and> f = ''atomic_trace::start_roi'' \<or>
     c = (Before, Insert_Roi False ''end'') \<and> f = ''atomic_trace::end_roi'' \<or>
     c \<in> {(Before, Insert_Call f), (After, Insert_Return f)} \<and> f \<in> set fs"
  by (auto simp: instrument_routine_def find_name)

text \<open>A program that starts with the default options, in which nothing can be written.\<close>

lemma default_start:
  "tool_main bm trim summary (\<lambda>_. None) (\<lambda>_. False) (Some default_options) =
     andThen (tracer_main bm default_knobs) (\<lambda>s. Inr (Started (s\<lparr>file_closed := True\<rparr>)
       [On_Image [], On_Instruction, On_Thread_Start, On_Thread_Fini, On_Fini, On_Context_Change]))"
  by (simp add: tool_main_def default_options_def knobs.defs default_knobs_def read_trace_functions_def)


lemma read_names: "f \<in> set (read_trace_functions trim content) \<longleftrightarrow>
    (\<exists>t line. content = Some t \<and> line \<in> set (split_lines t) \<and> f = trim line)"
  by (cases content) (auto simp: read_trace_functions_def)

lemma count_distinct: "distinct xs \<Longrightarrow> count_list xs c = (if c \<in> set xs then 1 else 0)"
  by (induction xs) (auto simp: count_list_0_iff)

text \<open>How often a call is inserted at the routines of one name.\<close>

lemma section_calls_count:
  "count_list (section_calls u fs sec) (r, c) =
   (if c \<in> set (instrument_routine fs (u r)) then count_list sec r else 0)"
proof (induction sec)
  case (Cons rtn sec)
  have "distinct (instrument_routine fs f)" for f
    by (auto simp: instrument_routine_def find_name)
  then have one: "count_list (instrument_routine fs f) c = (if c \<in> set (instrument_routine fs f) then 1 else 0)"
    for f by (simp add: count_distinct)
  have "count_list (map (Pair rtn) cs) (r, c) = (if rtn = r then count_list cs c else 0)"
    for cs :: "(ipoint \<times> rtn_call) list"
    by (induction cs) auto
  with Cons one show ?case by simp
qed simp

lemma image_calls_count:
  "count_list (image_calls u fs img) (r, c) =
   (if c \<in> set (instrument_routine fs (u r)) then count_list (concat img) r else 0)"
  by (induction img) (auto simp: section_calls_count)

text \<open>C30. The walk over an image is exact: at a routine with name r a call is inserted as often as the
  routine stands in the sections of the image if r is an annotation or its undecorated name is one of
  the trimmed lines of the list file, and not at all otherwise. Since the loop also reads the piece
  after the last newline, a list file that ends in a newline has the trimmed empty line in it.\<close>

theorem image_instrumented_exactly:
  "count_list (image_calls u (read_trace_functions trim content) img) (r, c) =
     (if c = (Before, Insert_Register) \<and> u r = ''atomic_trace::register_thread'' \<or>
         c = (Before, Insert_Roi True ''start'') \<and> u r = ''atomic_trace::start_roi'' \<or>
         c = (Before, Insert_Roi False ''end'') \<and> u r = ''atomic_trace::end_roi'' \<or>
         c \<in> {(Before, Insert_Call (u r)), (After, Insert_Return (u r))} \<and>
           (\<exists>t line. content = Some t \<and> line \<in> set (split_lines t) \<and> u r = trim line)
      then count_list (concat img) r else 0) \<and>
   trim [] \<in> set (read_trace_functions trim (Some (t @ [NL])))"
proof (rule conjI)
  have "[] \<in> set (split_lines (t @ [NL]))"
    using split_lines_end [of t] last_in_set [OF split_lines_nonempty [of "t @ [NL]"]] by simp
  then show "trim [] \<in> set (read_trace_functions trim (Some (t @ [NL])))"
    by (simp add: read_trace_functions_def)
qed (simp only: image_calls_count instrument_routine_set read_names)

text \<open>C40. A trace file that cannot be opened is not noticed at the start: \<open>main\<close> goes on as if nothing had
  happened, and the tool stops at the assertion on the file when the first thread of the program
  starts, or, when threads have to register, at the registration of that thread.\<close>

theorem unopened_file_stops:
  assumes "tool_main bm trim summary content writable (Some k) = Inr (Started s callbacks)"
    and "\<not> writable (knob_output_file k)"
  shows "(if knob_register_threads k
     then andThen (thread_start_a bm g uid p s) (register_thread_a bm p n)
     else thread_start_a bm g uid p s) = Inl (Assertion ''trace_file'')"
proof -
  from assms have "file_closed s" "register_threads s = knob_register_threads k" "pin_threadid_set s = []"
    by (auto simp: tool_main_def tracer_main_def andThen_Inr knobs.defs split: if_splits)
  then show ?thesis
    by (auto simp: thread_start_a_def register_thread_a_def trace_synchronised_def
        acquire_all_thread_locks_def touch_buffer_def write_file_def release_address_locks_def
        new_thread_data_def Let_def set_tls_def insort_insert_key_def)
qed

theorem unopened_file_stops_witness:
  "\<exists>s callbacks. tool_main alist_bimap id [] (\<lambda>_. None) (\<lambda>_. False) (Some default_options) =
       Inr (Started s callbacks) \<and>
     thread_start_a alist_bimap blank_thread 0 0 s = Inl (Assertion ''trace_file'')"
proof -
  let ?start = "tool_main alist_bimap id [] (\<lambda>_. None) (\<lambda>_. False) (Some default_options)"
  have "is_power_2 64" by (simp add: is_power_2_def)
  then obtain s callbacks where s: "?start = Inr (Started s callbacks)"
    by (simp add: default_start tracer_main_def default_knobs_def)
  have "\<not> knob_register_threads default_options"
    by (simp add: default_options_def default_knobs_def knobs.defs)
  with unopened_file_stops [OF s, of blank_thread 0 0] s show ?thesis by auto
qed

end
